(* ===== verification/Fluxbin.thy ===== *)
theory Fluxbin
  imports Prelude
begin

text \<open>
  FluxBIN, the schema-driven binary encoding of
  \<open>src/crates/fluxum-protocol/src/fluxbin.rs\<close>: the append-only writer, the reader over an
  input slice with its position, and the contract between the two.  The contract is the
  locale \<open>flux_codec\<close>: reading what was written returns the value and stands right behind it,
  whatever follows.  Every primitive of the format is an interpretation of it, and the row
  codec of the store (theory \<open>Values\<close>) is built on the laws proved once in the locale.
\<close>

section \<open>Errors, writer and reader\<close>

datatype FluxBinError =
    UnexpectedEof nat nat
  | InvalidBool u8
  | InvalidOptionTag u8
  | InvalidUtf8
  | LengthOverflow nat
  | TrailingBytes nat

record FluxBinWriter =
  buf :: bytes

record FluxBinReader =
  input :: bytes
  pos :: nat

definition writer_new :: FluxBinWriter where
  "writer_new = \<lparr>buf = []\<rparr>"

definition extend_from_slice :: "FluxBinWriter \<Rightarrow> bytes \<Rightarrow> FluxBinWriter" where
  "extend_from_slice w bs = w\<lparr>buf := buf w @ bs\<rparr>"

definition write_bool :: "FluxBinWriter \<Rightarrow> bool \<Rightarrow> FluxBinWriter" where
  "write_bool w v = extend_from_slice w [if v then 1 else 0]"

definition write_u8 :: "FluxBinWriter \<Rightarrow> u8 \<Rightarrow> FluxBinWriter" where
  "write_u8 w v = extend_from_slice w [v]"

definition write_i8 :: "FluxBinWriter \<Rightarrow> u8 \<Rightarrow> FluxBinWriter" where
  "write_i8 w v = extend_from_slice w (to_le_bytes v)"

definition write_u16 :: "FluxBinWriter \<Rightarrow> u16 \<Rightarrow> FluxBinWriter" where
  "write_u16 w v = extend_from_slice w (to_le_bytes v)"

definition write_i16 :: "FluxBinWriter \<Rightarrow> u16 \<Rightarrow> FluxBinWriter" where
  "write_i16 w v = extend_from_slice w (to_le_bytes v)"

definition write_u32 :: "FluxBinWriter \<Rightarrow> u32 \<Rightarrow> FluxBinWriter" where
  "write_u32 w v = extend_from_slice w (to_le_bytes v)"

definition write_i32 :: "FluxBinWriter \<Rightarrow> u32 \<Rightarrow> FluxBinWriter" where
  "write_i32 w v = extend_from_slice w (to_le_bytes v)"

definition write_u64 :: "FluxBinWriter \<Rightarrow> u64 \<Rightarrow> FluxBinWriter" where
  "write_u64 w v = extend_from_slice w (to_le_bytes v)"

definition write_i64 :: "FluxBinWriter \<Rightarrow> u64 \<Rightarrow> FluxBinWriter" where
  "write_i64 w v = extend_from_slice w (to_le_bytes v)"

definition write_f32 :: "FluxBinWriter \<Rightarrow> u32 \<Rightarrow> FluxBinWriter" where
  "write_f32 w v = extend_from_slice w (to_le_bytes v)"

definition write_f64 :: "FluxBinWriter \<Rightarrow> u64 \<Rightarrow> FluxBinWriter" where
  "write_f64 w v = extend_from_slice w (to_le_bytes v)"

definition write_len_prefixed :: "FluxBinWriter \<Rightarrow> bytes \<Rightarrow> FluxBinError + FluxBinWriter" where
  "write_len_prefixed w bs =
    (if length bs < 2 ^ 32
     then Inr (extend_from_slice (write_u32 w (word_of_nat (length bs))) bs)
     else Inl (LengthOverflow (length bs)))"

definition write_str :: "FluxBinWriter \<Rightarrow> bytes \<Rightarrow> FluxBinError + FluxBinWriter" where
  "write_str w v = write_len_prefixed w v"

definition write_bytes :: "FluxBinWriter \<Rightarrow> bytes \<Rightarrow> FluxBinError + FluxBinWriter" where
  "write_bytes w v = write_len_prefixed w v"

definition write_seq_len :: "FluxBinWriter \<Rightarrow> u32 \<Rightarrow> FluxBinWriter" where
  "write_seq_len w count = write_u32 w count"

definition write_option_tag :: "FluxBinWriter \<Rightarrow> bool \<Rightarrow> FluxBinWriter" where
  "write_option_tag w is_some = extend_from_slice w [if is_some then 1 else 0]"

definition write_identity :: "FluxBinWriter \<Rightarrow> bytes \<Rightarrow> FluxBinWriter" where
  "write_identity w v = extend_from_slice w v"

definition write_connection_id :: "FluxBinWriter \<Rightarrow> u128 \<Rightarrow> FluxBinWriter" where
  "write_connection_id w v = extend_from_slice w (to_le_bytes v)"

definition write_entity_id :: "FluxBinWriter \<Rightarrow> u64 \<Rightarrow> FluxBinWriter" where
  "write_entity_id w v = write_u64 w v"

definition write_timestamp :: "FluxBinWriter \<Rightarrow> u64 \<Rightarrow> FluxBinWriter" where
  "write_timestamp w v = write_i64 w v"

definition write_decimal :: "FluxBinWriter \<Rightarrow> u128 \<Rightarrow> u8 \<Rightarrow> FluxBinWriter" where
  "write_decimal w unscaled scale = extend_from_slice (extend_from_slice w (to_le_bytes unscaled)) [scale]"

definition write_enum_tag :: "FluxBinWriter \<Rightarrow> u8 \<Rightarrow> FluxBinWriter" where
  "write_enum_tag w tag = extend_from_slice w [tag]"

definition reader_new :: "bytes \<Rightarrow> FluxBinReader" where
  "reader_new bs = \<lparr>input = bs, pos = 0\<rparr>"

definition remaining :: "FluxBinReader \<Rightarrow> nat" where
  "remaining r = length (input r) - pos r"

definition expect_eof :: "FluxBinReader \<Rightarrow> FluxBinError + unit" where
  "expect_eof r = (if remaining r = 0 then Inr () else Inl (TrailingBytes (remaining r)))"

definition take_slice :: "FluxBinReader \<Rightarrow> nat \<Rightarrow> FluxBinError + (bytes \<times> FluxBinReader)" where
  "take_slice r n =
    (if remaining r < n then Inl (UnexpectedEof n (remaining r))
     else Inr (take n (drop (pos r) (input r)), r\<lparr>pos := pos r + n\<rparr>))"

definition read_word :: "FluxBinReader \<Rightarrow> FluxBinError + ('a::len word \<times> FluxBinReader)" where
  "read_word r = rmap (\<lambda>(bs, r'). (from_le_bytes bs, r')) (take_slice r (LENGTH('a) div 8))"

definition read_u8 :: "FluxBinReader \<Rightarrow> FluxBinError + (u8 \<times> FluxBinReader)" where
  "read_u8 r = rmap (\<lambda>(bs, r'). (hd bs, r')) (take_slice r 1)"

definition read_i8 :: "FluxBinReader \<Rightarrow> FluxBinError + (u8 \<times> FluxBinReader)" where
  "read_i8 r = read_word r"

definition read_u16 :: "FluxBinReader \<Rightarrow> FluxBinError + (u16 \<times> FluxBinReader)" where
  "read_u16 r = read_word r"

definition read_i16 :: "FluxBinReader \<Rightarrow> FluxBinError + (u16 \<times> FluxBinReader)" where
  "read_i16 r = read_word r"

definition read_u32 :: "FluxBinReader \<Rightarrow> FluxBinError + (u32 \<times> FluxBinReader)" where
  "read_u32 r = read_word r"

definition read_i32 :: "FluxBinReader \<Rightarrow> FluxBinError + (u32 \<times> FluxBinReader)" where
  "read_i32 r = read_word r"

definition read_u64 :: "FluxBinReader \<Rightarrow> FluxBinError + (u64 \<times> FluxBinReader)" where
  "read_u64 r = read_word r"

definition read_i64 :: "FluxBinReader \<Rightarrow> FluxBinError + (u64 \<times> FluxBinReader)" where
  "read_i64 r = read_word r"

definition read_f32 :: "FluxBinReader \<Rightarrow> FluxBinError + (u32 \<times> FluxBinReader)" where
  "read_f32 r = read_word r"

definition read_f64 :: "FluxBinReader \<Rightarrow> FluxBinError + (u64 \<times> FluxBinReader)" where
  "read_f64 r = read_word r"

definition read_bool :: "FluxBinReader \<Rightarrow> FluxBinError + (bool \<times> FluxBinReader)" where
  "read_bool r = rbind (read_u8 r) (\<lambda>(b, r').
    if b = 0 then Inr (False, r') else if b = 1 then Inr (True, r') else Inl (InvalidBool b))"

definition read_option_tag :: "FluxBinReader \<Rightarrow> FluxBinError + (bool \<times> FluxBinReader)" where
  "read_option_tag r = rbind (read_u8 r) (\<lambda>(b, r').
    if b = 0 then Inr (False, r') else if b = 1 then Inr (True, r') else Inl (InvalidOptionTag b))"

definition read_bytes :: "FluxBinReader \<Rightarrow> FluxBinError + (bytes \<times> FluxBinReader)" where
  "read_bytes r = rbind (read_u32 r) (\<lambda>(len, r'). take_slice r' (unat len))"

text \<open>
  \<open>std::str::from_utf8\<close> accepts exactly the well-formed byte sequences of the Unicode
  standard (no overlong forms, no surrogates, nothing above U+10FFFF); a Rust \<open>String\<close> is
  carried by its bytes.
\<close>

definition utf8_cont :: "u8 \<Rightarrow> bool" where
  "utf8_cont b = (0x80 \<le> b \<and> b \<le> 0xBF)"

definition utf8_second3 :: "u8 \<Rightarrow> u8 \<Rightarrow> bool" where
  "utf8_second3 a b =
    (if a = 0xE0 then 0xA0 \<le> b \<and> b \<le> 0xBF
     else if a = 0xED then 0x80 \<le> b \<and> b \<le> 0x9F
     else utf8_cont b)"

definition utf8_second4 :: "u8 \<Rightarrow> u8 \<Rightarrow> bool" where
  "utf8_second4 a b =
    (if a = 0xF0 then 0x90 \<le> b \<and> b \<le> 0xBF
     else if a = 0xF4 then 0x80 \<le> b \<and> b \<le> 0x8F
     else utf8_cont b)"

fun utf8_valid :: "bytes \<Rightarrow> bool" where
  "utf8_valid [] = True"
| "utf8_valid (a # bs) =
    (if a < 0x80 then utf8_valid bs
     else if 0xC2 \<le> a \<and> a \<le> 0xDF then
       (case bs of b # r \<Rightarrow> utf8_cont b \<and> utf8_valid r | _ \<Rightarrow> False)
     else if 0xE0 \<le> a \<and> a \<le> 0xEF then
       (case bs of b # c # r \<Rightarrow> utf8_second3 a b \<and> utf8_cont c \<and> utf8_valid r | _ \<Rightarrow> False)
     else if 0xF0 \<le> a \<and> a \<le> 0xF4 then
       (case bs of b # c # d # r \<Rightarrow> utf8_second4 a b \<and> utf8_cont c \<and> utf8_cont d \<and> utf8_valid r
        | _ \<Rightarrow> False)
     else False)"

definition read_str :: "FluxBinReader \<Rightarrow> FluxBinError + (bytes \<times> FluxBinReader)" where
  "read_str r = rbind (read_bytes r) (\<lambda>(bs, r').
    if utf8_valid bs then Inr (bs, r') else Inl InvalidUtf8)"

definition read_seq_len :: "FluxBinReader \<Rightarrow> FluxBinError + (u32 \<times> FluxBinReader)" where
  "read_seq_len r = read_u32 r"

definition read_identity :: "FluxBinReader \<Rightarrow> FluxBinError + (bytes \<times> FluxBinReader)" where
  "read_identity r = take_slice r 32"

definition read_connection_id :: "FluxBinReader \<Rightarrow> FluxBinError + (u128 \<times> FluxBinReader)" where
  "read_connection_id r = read_word r"

definition read_entity_id :: "FluxBinReader \<Rightarrow> FluxBinError + (u64 \<times> FluxBinReader)" where
  "read_entity_id r = read_u64 r"

definition read_timestamp :: "FluxBinReader \<Rightarrow> FluxBinError + (u64 \<times> FluxBinReader)" where
  "read_timestamp r = read_i64 r"

definition read_decimal :: "FluxBinReader \<Rightarrow> FluxBinError + ((u128 \<times> u8) \<times> FluxBinReader)" where
  "read_decimal r = rbind (read_word r) (\<lambda>(unscaled, r1).
    rbind (read_u8 r1) (\<lambda>(scale, r2). Inr ((unscaled, scale), r2)))"

definition read_enum_tag :: "FluxBinReader \<Rightarrow> FluxBinError + (u8 \<times> FluxBinReader)" where
  "read_enum_tag r = read_u8 r"

text \<open>What is left to read, and the reader \<open>n\<close> bytes further.\<close>

definition unread :: "FluxBinReader \<Rightarrow> bytes" where
  "unread r = drop (pos r) (input r)"

definition advance :: "nat \<Rightarrow> FluxBinReader \<Rightarrow> FluxBinReader" where
  "advance n r = r\<lparr>pos := pos r + n\<rparr>"

text \<open>The bytes of a length-prefixed field and of a \<open>Decimal\<close>.\<close>

definition enc_len_prefixed :: "bytes \<Rightarrow> bytes" where
  "enc_len_prefixed bs = to_le_bytes (word_of_nat (length bs) :: u32) @ bs"

definition enc_decimal :: "u128 \<times> u8 \<Rightarrow> bytes" where
  "enc_decimal d = to_le_bytes (fst d) @ [snd d]"

section \<open>The codec contract\<close>

lemma unread_reader_new [simp]: "unread (reader_new bs) = bs"
  by (simp add: unread_def reader_new_def)

lemma unread_advance [simp]: "unread (advance n r) = drop n (unread r)"
  by (simp add: unread_def advance_def add.commute)

lemma advance_0 [simp]: "advance 0 r = r"
  by (simp add: advance_def)

lemma advance_advance [simp]: "advance m (advance n r) = advance (n + m) r"
  by (simp add: advance_def add.assoc)

lemma remaining_unread: "remaining r = length (unread r)"
  by (simp add: remaining_def unread_def)

lemma buf_extend [simp]: "buf (extend_from_slice w bs) = buf w @ bs"
  by (simp add: extend_from_slice_def)

lemma extend_extend [simp]:
  "extend_from_slice (extend_from_slice w a) b = extend_from_slice w (a @ b)"
  by (simp add: extend_from_slice_def)

lemma extend_Nil [simp]: "extend_from_slice w [] = w"
  by (simp add: extend_from_slice_def)

lemma take_slice_eq:
  "take_slice r n =
    (if length (unread r) < n then Inl (UnexpectedEof n (length (unread r)))
     else Inr (take n (unread r), advance n r))"
  by (simp add: take_slice_def remaining_unread) (simp add: unread_def advance_def)

text \<open>
  \<open>put\<close> appends \<open>enc x\<close> to the buffer for every value it accepts; \<open>get\<close>, standing before
  \<open>enc x\<close>, returns \<open>x\<close> and stands right behind it.
\<close>

locale flux_codec =
  fixes put :: "'a \<Rightarrow> FluxBinWriter \<Rightarrow> 'e + FluxBinWriter"
    and enc :: "'a \<Rightarrow> bytes"
    and get :: "FluxBinReader \<Rightarrow> 'f + ('a \<times> FluxBinReader)"
    and valid :: "'a \<Rightarrow> bool"
  assumes put_enc: "valid x \<Longrightarrow> put x w = Inr (extend_from_slice w (enc x))"
    and get_enc: "valid x \<Longrightarrow> unread r = enc x @ rest \<Longrightarrow> get r = Inr (x, advance (length (enc x)) r)"
begin

lemma round_trip:
  assumes "valid x"
  shows "\<exists>w. put x writer_new = Inr w \<and>
    get (reader_new (buf w @ rest)) = Inr (x, advance (length (buf w)) (reader_new (buf w @ rest)))"
  using put_enc [OF assms, of writer_new] get_enc [OF assms, of "reader_new (enc x @ rest)" rest]
  by (simp add: writer_new_def)

lemma enc_prefix_free:
  assumes "valid x" "valid y" "enc x @ a = enc y @ b"
  shows "x = y \<and> a = b"
proof -
  have "get (reader_new (enc x @ a)) = Inr (x, advance (length (enc x)) (reader_new (enc x @ a)))"
    using get_enc [OF assms(1)] by simp
  moreover have "get (reader_new (enc x @ a)) = Inr (y, advance (length (enc y)) (reader_new (enc x @ a)))"
    using get_enc [OF assms(2)] assms(3) by simp
  ultimately show ?thesis using assms(3) by simp
qed

lemma enc_inj: "valid x \<Longrightarrow> valid y \<Longrightarrow> enc x = enc y \<Longrightarrow> x = y"
  using enc_prefix_free [of x y "[]" "[]"] by simp

end

text \<open>
  The decoder of a canonical codec accepts nothing but encodings: every value it returns is
  valid and the bytes it consumed are exactly its encoding.
\<close>

locale canonical_codec = flux_codec +
  assumes get_canonical:
    "get r = Inr (x, r') \<Longrightarrow> valid x \<and> prefix (enc x) (unread r) \<and> r' = advance (length (enc x)) r"
begin

lemma get_iff:
  "get r = Inr (x, r') \<longleftrightarrow> valid x \<and> prefix (enc x) (unread r) \<and> r' = advance (length (enc x)) r"
  using get_canonical [of r x r'] get_enc [of x r] by (auto elim: prefixE)

lemma decode_complete_iff:
  "(\<exists>r'. get (reader_new bs) = Inr (x, r') \<and> unread r' = []) \<longleftrightarrow> valid x \<and> bs = enc x"
proof
  assume "\<exists>r'. get (reader_new bs) = Inr (x, r') \<and> unread r' = []"
  then show "valid x \<and> bs = enc x" by (auto simp: get_iff elim!: prefixE)
qed (simp add: get_iff)

end

section \<open>The primitives keep the contract\<close>

lemma take_slice_Inr:
  "take_slice r n = Inr (bs, r') \<longleftrightarrow> length bs = n \<and> prefix bs (unread r) \<and> r' = advance n r"
proof -
  have "n \<le> length (unread r) \<Longrightarrow> bs = take n (unread r) \<longleftrightarrow> length bs = n \<and> prefix bs (unread r)"
    by (auto simp: take_is_prefix elim: prefixE)
  then show ?thesis by (auto simp: take_slice_eq dest: prefix_length_le)
qed

lemma take_slice_enc: "take_slice r (length bs) = Inr (bs, advance (length bs) r) \<longleftrightarrow> prefix bs (unread r)"
  by (simp add: take_slice_Inr)

lemma length1_iff: "length bs = Suc 0 \<longleftrightarrow> (\<exists>b. bs = [b])"
  by (cases bs) auto

lemma read_u8_Inr: "read_u8 r = Inr (b, r') \<longleftrightarrow> prefix [b] (unread r) \<and> r' = advance 1 r"
  by (force simp: read_u8_def rmap_eq_Inr_iff take_slice_Inr length1_iff)

lemma read_word_Inr:
  assumes "8 dvd LENGTH('a::len)"
  shows "read_word r = Inr (v :: 'a word, r') \<longleftrightarrow>
    prefix (to_le_bytes v) (unread r) \<and> r' = advance (LENGTH('a) div 8) r"
proof
  assume "read_word r = Inr (v, r')"
  then obtain bs where "take_slice r (LENGTH('a) div 8) = Inr (bs, r')" "v = from_le_bytes bs"
    by (auto simp: read_word_def rmap_eq_Inr_iff)
  then show "prefix (to_le_bytes v) (unread r) \<and> r' = advance (LENGTH('a) div 8) r"
    using assms by (simp add: take_slice_Inr to_from_le_bytes)
next
  assume "prefix (to_le_bytes v) (unread r) \<and> r' = advance (LENGTH('a) div 8) r"
  then have "take_slice r (LENGTH('a) div 8) = Inr (to_le_bytes v, r')"
    by (simp add: take_slice_Inr)
  then show "read_word r = Inr (v, r')"
    using assms by (simp add: read_word_def from_to_le_bytes)
qed

lemma canonical_codecI:
  assumes "\<And>x w. valid x \<Longrightarrow> put x w = Inr (extend_from_slice w (enc x))"
    and "\<And>r x r'. get r = Inr (x, r') \<longleftrightarrow> valid x \<and> prefix (enc x) (unread r) \<and> r' = advance (length (enc x)) r"
  shows "canonical_codec put enc get valid"
  using assms by unfold_locales auto

lemma word_codec:
  assumes "8 dvd LENGTH('a::len)"
  shows "canonical_codec (\<lambda>v w. Inr (extend_from_slice w (to_le_bytes (v :: 'a word)))) to_le_bytes
    read_word (\<lambda>_. True)"
  by (rule canonical_codecI) (simp_all add: read_word_Inr assms)

lemmas fluxbin_word_defs =
  write_i8_def write_u16_def write_i16_def write_u32_def write_i32_def write_u64_def write_i64_def
  write_f32_def write_f64_def write_connection_id_def write_entity_id_def write_timestamp_def
  write_seq_len_def read_i8_def read_u16_def read_i16_def read_u32_def read_i32_def read_u64_def
  read_i64_def read_f32_def read_f64_def read_connection_id_def read_entity_id_def
  read_timestamp_def read_seq_len_def

interpretation bool_codec: canonical_codec "\<lambda>v w. Inr (write_bool w v) :: FluxBinError + FluxBinWriter"
    "\<lambda>v. [if v then 1 else 0]" read_bool "\<lambda>_. True"
  by (rule canonical_codecI)
    (auto simp: write_bool_def read_bool_def rbind_eq_Inr_iff read_u8_Inr split: if_splits
      intro: exI [of _ 0])

interpretation u8_codec: canonical_codec "\<lambda>v w. Inr (write_u8 w v) :: FluxBinError + FluxBinWriter"
    "\<lambda>v. [v]" read_u8 "\<lambda>_. True"
  by (rule canonical_codecI) (auto simp: write_u8_def read_u8_Inr)

interpretation u16_codec: canonical_codec "\<lambda>v w. Inr (write_u16 w v) :: FluxBinError + FluxBinWriter"
    to_le_bytes read_u16 "\<lambda>_. True"
  using word_codec [where 'a = 16] by (simp add: fluxbin_word_defs [abs_def])

interpretation u32_codec: canonical_codec "\<lambda>v w. Inr (write_u32 w v) :: FluxBinError + FluxBinWriter"
    to_le_bytes read_u32 "\<lambda>_. True"
  using word_codec [where 'a = 32] by (simp add: fluxbin_word_defs [abs_def])

interpretation u64_codec: canonical_codec "\<lambda>v w. Inr (write_u64 w v) :: FluxBinError + FluxBinWriter"
    to_le_bytes read_u64 "\<lambda>_. True"
  using word_codec [where 'a = 64] by (simp add: fluxbin_word_defs [abs_def])

interpretation connection_id_codec: canonical_codec
    "\<lambda>v w. Inr (write_connection_id w v) :: FluxBinError + FluxBinWriter"
    to_le_bytes read_connection_id "\<lambda>_. True"
  using word_codec [where 'a = 128] by (simp add: fluxbin_word_defs [abs_def])

interpretation option_tag_codec: canonical_codec
    "\<lambda>v w. Inr (write_option_tag w v) :: FluxBinError + FluxBinWriter"
    "\<lambda>v. [if v then 1 else 0]" read_option_tag "\<lambda>_. True"
  by (rule canonical_codecI)
    (auto simp: write_option_tag_def read_option_tag_def rbind_eq_Inr_iff read_u8_Inr split: if_splits
      intro: exI [of _ 0])

interpretation identity_codec: canonical_codec
    "\<lambda>v w. Inr (write_identity w v) :: FluxBinError + FluxBinWriter"
    "\<lambda>v. v" read_identity "\<lambda>v. length v = 32"
  by (rule canonical_codecI) (auto simp: write_identity_def read_identity_def take_slice_Inr)

lemma prefix_append_iff: "prefix (a @ b) xs \<longleftrightarrow> prefix a xs \<and> prefix b (drop (length a) xs)"
  by (auto simp: prefix_def)

lemma unat_word_of_length: "length bs < 2 ^ 32 \<Longrightarrow> unat (word_of_nat (length bs) :: u32) = length bs"
  by (simp add: unat_of_nat)

interpretation bytes_codec: canonical_codec "\<lambda>v w. write_bytes w v" enc_len_prefixed read_bytes
    "\<lambda>v. length v < 2 ^ 32"
proof (rule canonical_codecI)
  fix x :: bytes and w
  assume "length x < 2 ^ 32"
  then show "write_bytes w x = Inr (extend_from_slice w (enc_len_prefixed x))"
    by (simp add: write_bytes_def write_len_prefixed_def write_u32_def enc_len_prefixed_def)
next
  fix r x r'
  have "read_bytes r = Inr (x, r') \<longleftrightarrow> (\<exists>len :: u32. prefix (to_le_bytes len) (unread r) \<and>
      length x = unat len \<and> prefix x (drop 4 (unread r)) \<and> r' = advance (4 + length x) r)"
    by (auto simp: read_bytes_def rbind_eq_Inr_iff u32_codec.get_iff take_slice_Inr)
  also have "\<dots> \<longleftrightarrow> length x < 2 ^ 32 \<and> prefix (enc_len_prefixed x) (unread r) \<and>
      r' = advance (length (enc_len_prefixed x)) r"
    using unat_word_of_length [of x] unat_bound [where 'a = 32]
    by (auto simp: enc_len_prefixed_def prefix_append_iff intro!: exI [of _ "word_of_nat (length x)"])
  finally show "read_bytes r = Inr (x, r') \<longleftrightarrow> length x < 2 ^ 32 \<and>
      prefix (enc_len_prefixed x) (unread r) \<and> r' = advance (length (enc_len_prefixed x)) r" .
qed

interpretation str_codec: canonical_codec "\<lambda>v w. write_str w v" enc_len_prefixed read_str
    "\<lambda>v. length v < 2 ^ 32 \<and> utf8_valid v"
proof (rule canonical_codecI)
  fix x :: bytes and w
  assume "length x < 2 ^ 32 \<and> utf8_valid x"
  then show "write_str w x = Inr (extend_from_slice w (enc_len_prefixed x))"
    using bytes_codec.put_enc by (simp add: write_str_def write_bytes_def)
next
  fix r x r'
  show "read_str r = Inr (x, r') \<longleftrightarrow> (length x < 2 ^ 32 \<and> utf8_valid x) \<and>
      prefix (enc_len_prefixed x) (unread r) \<and> r' = advance (length (enc_len_prefixed x)) r"
    by (auto simp: read_str_def rbind_eq_Inr_iff bytes_codec.get_iff split: if_splits)
qed

interpretation decimal_codec: canonical_codec
    "\<lambda>d w. Inr (write_decimal w (fst d) (snd d)) :: FluxBinError + FluxBinWriter"
    enc_decimal read_decimal "\<lambda>_. True"
proof (rule canonical_codecI)
  fix r x r'
  show "read_decimal r = Inr (x, r') \<longleftrightarrow> True \<and> prefix (enc_decimal x) (unread r) \<and>
      r' = advance (length (enc_decimal x)) r"
    by (cases x) (auto simp: read_decimal_def rbind_eq_Inr_iff read_word_Inr read_u8_Inr enc_decimal_def
      prefix_append_iff)
qed (simp add: write_decimal_def enc_decimal_def)

end
