(* ===== verification/Schema.thy ===== *)
theory Schema
  imports Fluxbin
begin

text \<open>
  The vocabulary every storage component shares: the workspace error type
  (\<open>src/crates/fluxum-core/src/error.rs\<close>) and its projection on the wire catalog, the table
  schema (\<open>schema/mod.rs\<close>) and the exact fixed-point \<open>Decimal\<close> (\<open>types.rs\<close>).  Error messages
  are abbreviated to a tag: their text is presentation, the variant and the catalog code are
  behaviour.  Column ordinals (\<open>u16\<close> in the source) are naturals.
\<close>

section \<open>Errors\<close>

datatype FluxumError =
    Config string
  | ConfigParse
  | Io
  | Storage string
  | BufferPoolExhausted nat
  | PageCorrupt u32 u32 u64
  | Protocol string
  | Auth string
  | Schema_err string
  | Reducer string
  | ReducerPanic string
  | Query nat string "nat option"
  | Hardware string

type_synonym 'a result = "FluxumError + 'a"

definition PROTO_MALFORMED :: nat where "PROTO_MALFORMED = 1000"
definition AUTH_FAILED :: nat where "AUTH_FAILED = 2001"
definition SQL_UNIQUE_VIOLATION :: nat where "SQL_UNIQUE_VIOLATION = 3100"
definition TXN_CHECK_VIOLATION :: nat where "TXN_CHECK_VIOLATION = 3101"
definition TXN_FK_VIOLATION :: nat where "TXN_FK_VIOLATION = 3102"
definition TXN_NOT_NULL_VIOLATION :: nat where "TXN_NOT_NULL_VIOLATION = 3103"
definition SCHEMA_INVALID :: nat where "SCHEMA_INVALID = 4000"
definition REDUCER_USER_ERROR :: nat where "REDUCER_USER_ERROR = 5001"
definition REDUCER_PANIC :: nat where "REDUCER_PANIC = 5002"
definition STORAGE_INTERNAL :: nat where "STORAGE_INTERNAL = 7000"
definition STORAGE_PAGE_CORRUPT :: nat where "STORAGE_PAGE_CORRUPT = 7001"
definition STORAGE_BUFFER_POOL_EXHAUSTED :: nat where "STORAGE_BUFFER_POOL_EXHAUSTED = 7002"
definition SYS_INTERNAL :: nat where "SYS_INTERNAL = 9000"

fun wire_code :: "FluxumError \<Rightarrow> nat" where
  "wire_code (Config _) = SYS_INTERNAL"
| "wire_code ConfigParse = SYS_INTERNAL"
| "wire_code Io = SYS_INTERNAL"
| "wire_code (Hardware _) = SYS_INTERNAL"
| "wire_code (Storage _) = STORAGE_INTERNAL"
| "wire_code (BufferPoolExhausted _) = STORAGE_BUFFER_POOL_EXHAUSTED"
| "wire_code (PageCorrupt _ _ _) = STORAGE_PAGE_CORRUPT"
| "wire_code (Protocol _) = PROTO_MALFORMED"
| "wire_code (Auth _) = AUTH_FAILED"
| "wire_code (Schema_err _) = SCHEMA_INVALID"
| "wire_code (Reducer _) = REDUCER_USER_ERROR"
| "wire_code (ReducerPanic _) = REDUCER_PANIC"
| "wire_code (Query code _ _) = code"

section \<open>Table schemas\<close>

datatype FluxType =
    TBool | TI8 | TI16 | TI32 | TI64 | TU8 | TU16 | TU32 | TU64 | TF32 | TF64
  | TStr | TBytes | TIdentity | TConnectionId | TEntityId | TTimestamp | TDecimal | TBlob
  | TOption FluxType
  | TList FluxType
  | TEnum string "VariantSchema list"
  | TStruct string "FieldSchema list"
  | TCrdtText
and VariantSchema = VariantSchema (variant_name: string) (variant_payload: "FluxType list")
and FieldSchema = FieldSchema (field_name: string) (field_ty: FluxType)

definition is_float :: "FluxType \<Rightarrow> bool" where
  "is_float t = (t = TF32 \<or> t = TF64)"

fun is_keyable :: "FluxType \<Rightarrow> bool" where
  "is_keyable (TEnum _ _) = False"
| "is_keyable (TStruct _ _) = False"
| "is_keyable (TList _) = False"
| "is_keyable (TOption _) = False"
| "is_keyable TBytes = False"
| "is_keyable TCrdtText = False"
| "is_keyable _ = True"

record ColumnSchema =
  cs_name :: string
  cs_ty :: FluxType

datatype TableAccess = Private | Public | Global | Ephemeral

fun is_client_visible :: "TableAccess \<Rightarrow> bool" where
  "is_client_visible Public = True"
| "is_client_visible Ephemeral = True"
| "is_client_visible _ = False"

definition is_ephemeral :: "TableAccess \<Rightarrow> bool" where
  "is_ephemeral a = (a = Ephemeral)"

datatype SpatialKind = QuadTree | RTree

datatype FullTextLanguage = Simple | English

datatype IndexSchema =
    BTree "nat list"
  | Spatial SpatialKind "nat list"
  | FullText nat FullTextLanguage bool bool

datatype VisibilityRule =
    PublicAll | OwnerOnly nat | ShardLocal | Custom string | MemberOf string string

record TableSchema =
  ts_name :: string
  ts_columns :: "ColumnSchema list"
  ts_primary_key :: "nat list"
  ts_auto_inc :: "nat option"
  ts_access :: TableAccess
  ts_partition_by :: "nat option"
  ts_unique :: "nat list list"
  ts_indexes :: "IndexSchema list"
  ts_visibility :: VisibilityRule

definition list_get :: "'a list \<Rightarrow> nat \<Rightarrow> 'a option" where
  "list_get xs i = (if i < length xs then Some (xs ! i) else None)"

definition schema_column :: "TableSchema \<Rightarrow> nat \<Rightarrow> ColumnSchema option" where
  "schema_column s ordinal = list_get (ts_columns s) ordinal"

section \<open>Decimal\<close>

datatype Ordering = Less | Equal | Greater

definition cmp_int :: "int \<Rightarrow> int \<Rightarrow> Ordering" where
  "cmp_int a b = (if a < b then Less else if a = b then Equal else Greater)"

fun ordering_reverse :: "Ordering \<Rightarrow> Ordering" where
  "ordering_reverse Less = Greater"
| "ordering_reverse Equal = Equal"
| "ordering_reverse Greater = Less"

text \<open>\<open>unscaled\<close> is an \<open>i128\<close>: its bit pattern, read with \<open>sint\<close>.\<close>

record Decimal =
  unscaled :: u128
  scale :: u8

definition i128_checked :: "int \<Rightarrow> int option" where
  "i128_checked v = (if - (2 ^ 127) \<le> v \<and> v < 2 ^ 127 then Some v else None)"

definition pow10_i128 :: "nat \<Rightarrow> int option" where
  "pow10_i128 n = i128_checked (10 ^ n)"

definition sign_ordering :: "int \<Rightarrow> Ordering" where
  "sign_ordering v = cmp_int v 0"

definition lift_decimal :: "u8 \<Rightarrow> Decimal \<Rightarrow> int option" where
  "lift_decimal max_scale v =
    Option.bind (pow10_i128 (unat (max_scale - scale v))) (\<lambda>p. i128_checked (sint (unscaled v) * p))"

definition value_cmp :: "Decimal \<Rightarrow> Decimal \<Rightarrow> Ordering" where
  "value_cmp a b =
    (if scale a = scale b then cmp_int (sint (unscaled a)) (sint (unscaled b))
     else
       let max_scale = max (scale a) (scale b) in
       case (lift_decimal max_scale a, lift_decimal max_scale b) of
         (Some x, Some y) \<Rightarrow> cmp_int x y
       | (None, Some _) \<Rightarrow> sign_ordering (sint (unscaled a))
       | (Some _, None) \<Rightarrow> ordering_reverse (sign_ordering (sint (unscaled b)))
       | (None, None) \<Rightarrow> cmp_int (sint (unscaled a)) (sint (unscaled b)))"

text \<open>The exact numerator of a decimal over the common denominator \<open>10 ^ s\<close>.\<close>

definition numerator_at :: "nat \<Rightarrow> Decimal \<Rightarrow> int" where
  "numerator_at s v = sint (unscaled v) * 10 ^ (s - unat (scale v))"

definition exact_cmp :: "Decimal \<Rightarrow> Decimal \<Rightarrow> Ordering" where
  "exact_cmp a b =
    (let s = max (unat (scale a)) (unat (scale b)) in cmp_int (numerator_at s a) (numerator_at s b))"

section \<open>Numeric comparison of decimals\<close>

lemma cmp_int_simps [simp]:
  "cmp_int a a = Equal"
  "a < b \<Longrightarrow> cmp_int a b = Less"
  "b < a \<Longrightarrow> cmp_int a b = Greater"
  by (simp_all add: cmp_int_def)

lemma ordering_reverse_cmp_int: "ordering_reverse (cmp_int a b) = cmp_int b a"
  by (simp add: cmp_int_def)

lemma ordering_reverse_reverse [simp]: "ordering_reverse (ordering_reverse x) = x"
  by (cases x) auto

lemma sint_i128: "- (2 ^ 127) \<le> sint (w :: u128)" "sint (w :: u128) < 2 ^ 127"
  using sint_greater_eq [of w] sint_less [of w] by simp_all

lemma i128_checked_sint [simp]: "i128_checked (sint (w :: u128)) = Some (sint w)"
  using sint_i128 [of w] by (simp add: i128_checked_def)

lemma pow10_None: "pow10_i128 k = None \<Longrightarrow> (2 :: int) ^ 127 < 10 ^ k"
proof -
  assume "pow10_i128 k = None"
  moreover have "(0 :: int) < 10 ^ k" by simp
  ultimately have ge: "(2 :: int) ^ 127 \<le> 10 ^ k"
    unfolding pow10_i128_def i128_checked_def by (simp split: if_splits)
  have "39 \<le> k"
  proof (rule ccontr)
    assume "\<not> 39 \<le> k"
    then have "(10 :: int) ^ k \<le> 10 ^ 38" by (intro power_increasing) auto
    then show False using ge by simp
  qed
  then have "(10 :: int) ^ 39 \<le> 10 ^ k" by (intro power_increasing) auto
  then show ?thesis by simp
qed

lemma pow10_small: "k \<le> 38 \<Longrightarrow> pow10_i128 k = Some (10 ^ k)"
proof -
  assume "k \<le> 38"
  then have "(10 :: int) ^ k \<le> 10 ^ 38" by (intro power_increasing) auto
  then have "(10 :: int) ^ k < 2 ^ 127" by simp
  moreover have "(0 :: int) < 10 ^ k" by simp
  ultimately have "- (2 ^ 127) \<le> (10 :: int) ^ k \<and> (10 :: int) ^ k < 2 ^ 127" by linarith
  then show ?thesis by (simp add: pow10_i128_def i128_checked_def)
qed

lemma cmp_dominated:
  fixes u b p :: int
  assumes "- (2 ^ 127) \<le> b" "b < 2 ^ 127" "2 ^ 127 < p" "u \<noteq> 0"
  shows "cmp_int (u * p) b = sign_ordering u"
proof (cases "0 < u")
  case True
  then have "1 * p \<le> u * p" using assms(3) by (intro mult_right_mono) auto
  then have "b < u * p" using assms by linarith
  then show ?thesis using True by (simp add: sign_ordering_def)
next
  case False
  then have "u \<le> - 1" using assms(4) by simp
  moreover have "0 \<le> p" using assms(3) by simp
  ultimately have "u * p \<le> - 1 * p" by (intro mult_right_mono)
  then have "u * p < b" using assms by linarith
  then show ?thesis using \<open>u \<le> - 1\<close> by (simp add: sign_ordering_def)
qed

lemma value_cmp_lift:
  assumes "scale a < scale b"
    and "sint (unscaled a) \<noteq> 0 \<or> unat (scale b) \<le> unat (scale a) + 38"
  shows "value_cmp a b = exact_cmp a b"
proof -
  let ?k = "unat (scale b) - unat (scale a)" and ?u = "sint (unscaled a)" and ?v = "sint (unscaled b)"
  have k: "unat (scale b - scale a) = ?k"
    using assms(1) by (simp add: unat_sub_if' word_less_nat_alt)
  have mx: "max (scale a) (scale b) = scale b"
    and ne: "scale a \<noteq> scale b" and mxn: "max (unat (scale a)) (unat (scale b)) = unat (scale b)"
    using assms(1) by (auto simp: word_less_nat_alt max_def word_le_nat_alt)
  have lb: "lift_decimal (scale b) b = Some ?v"
    by (simp add: lift_decimal_def pow10_small)
  have ex: "exact_cmp a b = cmp_int (?u * 10 ^ ?k) ?v"
    by (simp add: exact_cmp_def mxn numerator_at_def)
  show ?thesis
  proof (cases "lift_decimal (scale b) a")
    case (Some x)
    then have "x = ?u * 10 ^ ?k"
      by (auto simp: lift_decimal_def k bind_eq_Some_conv pow10_i128_def i128_checked_def split: if_splits)
    then show ?thesis using Some ne by (simp add: value_cmp_def mx lb ex)
  next
    case None
    have "cmp_int (?u * 10 ^ ?k) ?v = sign_ordering ?u"
    proof (cases "pow10_i128 ?k")
      case pn: None
      then have "\<not> ?k \<le> 38" using pow10_small [of ?k] by auto
      then have "?u \<noteq> 0" using assms(2) by linarith
      then show ?thesis
        using cmp_dominated [OF sint_i128 pow10_None [OF pn]] by simp
    next
      case (Some p)
      then have p: "p = 10 ^ ?k" by (auto simp: pow10_i128_def i128_checked_def split: if_splits)
      then have "?u * 10 ^ ?k < - (2 ^ 127) \<or> 2 ^ 127 \<le> ?u * 10 ^ ?k"
        using None Some by (auto simp: lift_decimal_def k i128_checked_def split: if_splits)
      then show ?thesis
      proof
        assume l: "?u * 10 ^ ?k < - (2 ^ 127)"
        have "\<not> 0 \<le> ?u"
        proof
          assume "0 \<le> ?u"
          then have "0 \<le> ?u * 10 ^ ?k" by simp
          moreover have "(0 :: int) \<le> 2 ^ 127" by simp
          ultimately show False using l by linarith
        qed
        then have "?u < 0" by simp
        then show ?thesis using l sint_i128 [of "unscaled b"] by (simp add: sign_ordering_def)
      next
        assume g: "2 ^ 127 \<le> ?u * 10 ^ ?k"
        then have "0 < ?u" using mult_nonpos_nonneg [of ?u "10 ^ ?k"] by (cases "?u \<le> 0") auto
        then show ?thesis using g sint_i128 [of "unscaled b"] by (simp add: sign_ordering_def)
      qed
    qed
    then show ?thesis using None ne by (simp add: value_cmp_def mx lb ex)
  qed
qed

lemma value_cmp_swap: "scale a \<noteq> scale b \<Longrightarrow> value_cmp b a = ordering_reverse (value_cmp a b)"
  by (auto simp: value_cmp_def Let_def max.commute ordering_reverse_cmp_int split: option.splits)

lemma exact_cmp_swap: "exact_cmp b a = ordering_reverse (exact_cmp a b)"
  by (simp add: exact_cmp_def Let_def max.commute ordering_reverse_cmp_int)

section \<open>Properties\<close>

text \<open>
  C28: \<open>Decimal::value_cmp\<close> is the exact numeric order.  It compares two decimals as the
  rationals they denote, across all 256 scales and including the alignments that overflow
  \<open>i128\<close>, except where a zero coefficient meets a scale gap above 38.
\<close>

theorem value_cmp_exact:
  assumes "sint (unscaled a) \<noteq> 0 \<or> unat (scale b) \<le> unat (scale a) + 38"
    and "sint (unscaled b) \<noteq> 0 \<or> unat (scale a) \<le> unat (scale b) + 38"
  shows "value_cmp a b = exact_cmp a b"
proof -
  consider "scale a = scale b" | "scale a < scale b" | "scale b < scale a" by (rule linorder_cases)
  then show ?thesis
  proof cases
    case 1
    then show ?thesis by (simp add: value_cmp_def exact_cmp_def numerator_at_def)
  next
    case 2
    then show ?thesis using assms(1) by (rule value_cmp_lift)
  next
    case 3
    then have "value_cmp b a = exact_cmp b a" using assms(2) by (rule value_cmp_lift)
    then show ?thesis
      using 3 value_cmp_swap [of b a] exact_cmp_swap [of a b] by simp
  qed
qed


text \<open>\<open>1.50\<close> equals \<open>1.5\<close>, and \<open>3\<close> exceeds a tiny negative number whose alignment overflows.\<close>

theorem value_cmp_exact_witness:
  "value_cmp \<lparr>unscaled = 150, scale = 2\<rparr> \<lparr>unscaled = 15, scale = 1\<rparr> = Equal \<and>
   value_cmp \<lparr>unscaled = 3, scale = 0\<rparr> \<lparr>unscaled = - 7, scale = 200\<rparr> = Greater"
  using value_cmp_exact [of "\<lparr>unscaled = 150, scale = 2\<rparr>" "\<lparr>unscaled = 15, scale = 1\<rparr>"]
    value_cmp_exact [of "\<lparr>unscaled = 3, scale = 0\<rparr>" "\<lparr>unscaled = - 7, scale = 200\<rparr>"]
  by (simp add: exact_cmp_def numerator_at_def)

end
