(* ===== verification/Values.thy ===== *)
theory Values
  imports Schema
begin

text \<open>
  Row values and their FluxBIN form, \<open>src/crates/fluxum-core/src/store/row.rs\<close>: the dynamic
  \<open>RowValue\<close>, the type check of a row against its table schema, the schema-driven row codec and
  the primary-key encoding.  Strings are their UTF-8 bytes, identities and blob references their
  32 bytes; \<open>wf_value\<close> states what the Rust types guarantee of these.
\<close>

section \<open>Row values\<close>

datatype RowValue =
    VBool bool
  | VI8 u8 | VI16 u16 | VI32 u32 | VI64 u64
  | VU8 u8 | VU16 u16 | VU32 u32 | VU64 u64
  | VF32 u32 | VF64 u64
  | VStr bytes
  | VBytes bytes
  | VIdentity bytes
  | VConnectionId u128
  | VEntityId u64
  | VTimestamp u64
  | VDecimal Decimal
  | VBlob bytes
  | VOptional "RowValue option"
  | VList "RowValue list"
  | VEnum u32 "RowValue list"
  | VStruct "RowValue list"

type_synonym Row = "RowValue list"
type_synonym PkBytes = bytes

fun matches_type :: "RowValue \<Rightarrow> FluxType \<Rightarrow> bool" where
  "matches_type (VBool _) ty = (ty = TBool)"
| "matches_type (VI8 _) ty = (ty = TI8)"
| "matches_type (VI16 _) ty = (ty = TI16)"
| "matches_type (VI32 _) ty = (ty = TI32)"
| "matches_type (VI64 _) ty = (ty = TI64)"
| "matches_type (VU8 _) ty = (ty = TU8)"
| "matches_type (VU16 _) ty = (ty = TU16)"
| "matches_type (VU32 _) ty = (ty = TU32)"
| "matches_type (VU64 _) ty = (ty = TU64)"
| "matches_type (VF32 _) ty = (ty = TF32)"
| "matches_type (VF64 _) ty = (ty = TF64)"
| "matches_type (VStr _) ty = (ty = TStr)"
| "matches_type (VBytes _) ty = (ty = TBytes \<or> ty = TCrdtText)"
| "matches_type (VIdentity _) ty = (ty = TIdentity)"
| "matches_type (VConnectionId _) ty = (ty = TConnectionId)"
| "matches_type (VEntityId _) ty = (ty = TEntityId)"
| "matches_type (VTimestamp _) ty = (ty = TTimestamp)"
| "matches_type (VDecimal _) ty = (ty = TDecimal)"
| "matches_type (VBlob _) ty = (ty = TBlob)"
| "matches_type (VOptional None) ty = (case ty of TOption _ \<Rightarrow> True | _ \<Rightarrow> False)"
| "matches_type (VOptional (Some inner)) ty =
    (case ty of TOption inner_ty \<Rightarrow> matches_type inner inner_ty | _ \<Rightarrow> False)"
| "matches_type (VList items) ty =
    (case ty of TList inner_ty \<Rightarrow> list_all (\<lambda>item. matches_type item inner_ty) items | _ \<Rightarrow> False)"
| "matches_type (VEnum tag payload) ty =
    (case ty of
       TEnum _ variants \<Rightarrow>
         (case list_get variants (unat tag) of
            Some variant \<Rightarrow> list_all2 matches_type payload (variant_payload variant)
          | None \<Rightarrow> False)
     | _ \<Rightarrow> False)"
| "matches_type (VStruct items) ty =
    (case ty of TStruct _ fs \<Rightarrow> list_all2 matches_type items (map field_ty fs) | _ \<Rightarrow> False)"

fun encode :: "RowValue \<Rightarrow> FluxBinWriter \<Rightarrow> FluxBinWriter result" where
  "encode (VBool v) w = Inr (write_bool w v)"
| "encode (VI8 v) w = Inr (write_i8 w v)"
| "encode (VI16 v) w = Inr (write_i16 w v)"
| "encode (VI32 v) w = Inr (write_i32 w v)"
| "encode (VI64 v) w = Inr (write_i64 w v)"
| "encode (VU8 v) w = Inr (write_u8 w v)"
| "encode (VU16 v) w = Inr (write_u16 w v)"
| "encode (VU32 v) w = Inr (write_u32 w v)"
| "encode (VU64 v) w = Inr (write_u64 w v)"
| "encode (VF32 v) w = Inr (write_f32 w v)"
| "encode (VF64 v) w = Inr (write_f64 w v)"
| "encode (VStr v) w = map_err (\<lambda>_. Storage ''codec'') (write_str w v)"
| "encode (VBytes v) w = map_err (\<lambda>_. Storage ''codec'') (write_bytes w v)"
| "encode (VIdentity v) w = Inr (write_identity w v)"
| "encode (VConnectionId v) w = Inr (write_connection_id w v)"
| "encode (VEntityId v) w = Inr (write_entity_id w v)"
| "encode (VTimestamp v) w = Inr (write_timestamp w v)"
| "encode (VDecimal v) w = Inr (write_decimal w (unscaled v) (scale v))"
| "encode (VBlob v) w = Inr (write_identity w v)"
| "encode (VOptional None) w = Inr (write_option_tag w False)"
| "encode (VOptional (Some v)) w = encode v (write_option_tag w True)"
| "encode (VList vs) w =
    (if length vs < 2 ^ 32
     then try_fold encode vs (write_seq_len w (word_of_nat (length vs)))
     else Inl (Storage ''list count''))"
| "encode (VEnum tag payload) w =
    (if unat tag < 256
     then try_fold encode payload (write_u8 w (ucast tag))
     else Inl (Storage ''enum tag''))"
| "encode (VStruct items) w = try_fold encode items w"

definition fluxbin_err :: "FluxBinError + 'a \<Rightarrow> 'a result" where
  "fluxbin_err x = map_err (\<lambda>_. Storage ''fluxbin'') x"

definition read_as :: "('a \<Rightarrow> RowValue) \<Rightarrow> (FluxBinReader \<Rightarrow> FluxBinError + ('a \<times> FluxBinReader)) \<Rightarrow>
    FluxBinReader \<Rightarrow> (RowValue \<times> FluxBinReader) result" where
  "read_as con rd r = fluxbin_err (rmap (\<lambda>(x, r'). (con x, r')) (rd r))"

lemma size_mem: "x \<in> set xs \<Longrightarrow> size x \<le> size_list size xs"
  by (induction xs) auto

lemma size_variant_payload:
  assumes "list_get variants i = Some v" "t \<in> set (variant_payload v)"
  shows "size t < Suc (size_list size variants)"
proof -
  have "v \<in> set variants"
    using assms(1) by (auto simp: list_get_def split: if_splits)
  then have "size v \<le> size_list size variants" by (rule size_mem)
  moreover have "size t < size v"
    using size_mem [OF assms(2)] by (cases v) simp
  ultimately show ?thesis by simp
qed

lemma size_field_ty: "f \<in> set fs \<Longrightarrow> size (field_ty f) < Suc (size_list size fs)"
  using size_mem [of f fs] by (cases f) simp

function (sequential) decode_value :: "FluxType \<Rightarrow> FluxBinReader \<Rightarrow> (RowValue \<times> FluxBinReader) result" where
  "decode_value TBool r = read_as VBool read_bool r"
| "decode_value TI8 r = read_as VI8 read_i8 r"
| "decode_value TI16 r = read_as VI16 read_i16 r"
| "decode_value TI32 r = read_as VI32 read_i32 r"
| "decode_value TI64 r = read_as VI64 read_i64 r"
| "decode_value TU8 r = read_as VU8 read_u8 r"
| "decode_value TU16 r = read_as VU16 read_u16 r"
| "decode_value TU32 r = read_as VU32 read_u32 r"
| "decode_value TU64 r = read_as VU64 read_u64 r"
| "decode_value TF32 r = read_as VF32 read_f32 r"
| "decode_value TF64 r = read_as VF64 read_f64 r"
| "decode_value TStr r = read_as VStr read_str r"
| "decode_value TBytes r = read_as VBytes read_bytes r"
| "decode_value TCrdtText r = read_as VBytes read_bytes r"
| "decode_value TIdentity r = read_as VIdentity read_identity r"
| "decode_value TConnectionId r = read_as VConnectionId read_connection_id r"
| "decode_value TEntityId r = read_as VEntityId read_entity_id r"
| "decode_value TTimestamp r = read_as VTimestamp read_timestamp r"
| "decode_value TDecimal r = read_as (\<lambda>(u, s). VDecimal \<lparr>unscaled = u, scale = s\<rparr>) read_decimal r"
| "decode_value TBlob r = read_as VBlob read_identity r"
| "decode_value (TOption inner) r =
    rbind (fluxbin_err (read_option_tag r)) (\<lambda>(some, r1).
      if some then rbind (decode_value inner r1) (\<lambda>(v, r2). Inr (VOptional (Some v), r2))
      else Inr (VOptional None, r1))"
| "decode_value (TList inner) r =
    rbind (fluxbin_err (read_seq_len r)) (\<lambda>(count, r1).
      rbind (read_seq (\<lambda>_. decode_value inner) (replicate (unat count) ()) r1) (\<lambda>(items, r2).
        Inr (VList items, r2)))"
| "decode_value (TEnum name variants) r =
    rbind (fluxbin_err (read_u8 r)) (\<lambda>(tag, r1).
      case list_get variants (unat tag) of
        None \<Rightarrow> Inl (Storage ''enum tag'')
      | Some variant \<Rightarrow>
          rbind (read_seq decode_value (variant_payload variant) r1) (\<lambda>(payload, r2).
            Inr (VEnum (ucast tag) payload, r2)))"
| "decode_value (TStruct name fs) r =
    rbind (read_seq (\<lambda>f. decode_value (field_ty f)) fs r) (\<lambda>(items, r1). Inr (VStruct items, r1))"
  by pat_completeness auto
termination
  by (relation "measure (\<lambda>(t, r). size t)") (auto simp: size_variant_payload size_field_ty)

section \<open>The encoding as a function, its domain, and the representation invariant\<close>

fun enc_value :: "RowValue \<Rightarrow> bytes" where
  "enc_value (VBool v) = [if v then 1 else 0]"
| "enc_value (VI8 v) = to_le_bytes v"
| "enc_value (VI16 v) = to_le_bytes v"
| "enc_value (VI32 v) = to_le_bytes v"
| "enc_value (VI64 v) = to_le_bytes v"
| "enc_value (VU8 v) = [v]"
| "enc_value (VU16 v) = to_le_bytes v"
| "enc_value (VU32 v) = to_le_bytes v"
| "enc_value (VU64 v) = to_le_bytes v"
| "enc_value (VF32 v) = to_le_bytes v"
| "enc_value (VF64 v) = to_le_bytes v"
| "enc_value (VStr v) = enc_len_prefixed v"
| "enc_value (VBytes v) = enc_len_prefixed v"
| "enc_value (VIdentity v) = v"
| "enc_value (VConnectionId v) = to_le_bytes v"
| "enc_value (VEntityId v) = to_le_bytes v"
| "enc_value (VTimestamp v) = to_le_bytes v"
| "enc_value (VDecimal v) = enc_decimal (unscaled v, scale v)"
| "enc_value (VBlob v) = v"
| "enc_value (VOptional None) = [0]"
| "enc_value (VOptional (Some v)) = 1 # enc_value v"
| "enc_value (VList vs) = to_le_bytes (word_of_nat (length vs) :: u32) @ concat (map enc_value vs)"
| "enc_value (VEnum tag payload) = ucast tag # concat (map enc_value payload)"
| "enc_value (VStruct items) = concat (map enc_value items)"

text \<open>Lengths and tags fit their prefixes: exactly the values \<open>encode\<close> accepts.\<close>

fun fits_value :: "RowValue \<Rightarrow> bool" where
  "fits_value (VStr v) = (length v < 2 ^ 32)"
| "fits_value (VBytes v) = (length v < 2 ^ 32)"
| "fits_value (VOptional (Some v)) = fits_value v"
| "fits_value (VList vs) = (length vs < 2 ^ 32 \<and> list_all fits_value vs)"
| "fits_value (VEnum tag payload) = (unat tag < 256 \<and> list_all fits_value payload)"
| "fits_value (VStruct items) = list_all fits_value items"
| "fits_value _ = True"

fun wf_value :: "RowValue \<Rightarrow> bool" where
  "wf_value (VStr v) = utf8_valid v"
| "wf_value (VIdentity v) = (length v = 32)"
| "wf_value (VBlob v) = (length v = 32)"
| "wf_value (VOptional (Some v)) = wf_value v"
| "wf_value (VList vs) = list_all wf_value vs"
| "wf_value (VEnum tag payload) = list_all wf_value payload"
| "wf_value (VStruct items) = list_all wf_value items"
| "wf_value _ = True"

definition valid_value :: "FluxType \<Rightarrow> RowValue \<Rightarrow> bool" where
  "valid_value ty v = (matches_type v ty \<and> wf_value v \<and> fits_value v)"

section \<open>Encoding\<close>

lemma try_fold_extend:
  "(\<And>x w. x \<in> set xs \<Longrightarrow> f x w = Inr (extend_from_slice w (e x))) \<Longrightarrow>
   try_fold f xs w = Inr (extend_from_slice w (concat (map e xs)))"
  by (induction xs arbitrary: w) auto

lemmas encode_defs = fluxbin_word_defs write_bool_def write_u8_def write_identity_def write_decimal_def
  write_option_tag_def enc_decimal_def

lemma encode_eq: "fits_value v \<Longrightarrow> encode v w = Inr (extend_from_slice w (enc_value v))"
proof (induction v arbitrary: w)
  case (VOptional v)
  then show ?case by (cases v) (auto simp: encode_defs)
qed (auto simp: encode_defs bytes_codec.put_enc list_all_iff try_fold_extend [where e = enc_value]
  write_str_def write_bytes_def [symmetric])

lemma try_fold_encode_fits:
  "(\<And>v w w'. v \<in> set vs \<Longrightarrow> encode v w = Inr w' \<Longrightarrow> fits_value v) \<Longrightarrow>
   try_fold encode vs w = Inr w' \<Longrightarrow> list_all fits_value vs"
  by (induction vs arbitrary: w) (auto simp: rbind_eq_Inr_iff)

lemma encode_fits: "encode v w = Inr w' \<Longrightarrow> fits_value v"
proof (induction v arbitrary: w w')
  case (VOptional v)
  then show ?case by (cases v) auto
qed (auto simp: map_err_eq_Inr_iff write_str_def write_bytes_def write_len_prefixed_def
  try_fold_encode_fits split: if_splits)

lemma encode_iff: "encode v w = Inr w' \<longleftrightarrow> fits_value v \<and> w' = extend_from_slice w (enc_value v)"
  using encode_eq encode_fits by fastforce

lemma encode_all_iff:
  "try_fold encode vs w = Inr w' \<longleftrightarrow>
   list_all fits_value vs \<and> w' = extend_from_slice w (concat (map enc_value vs))"
  by (induction vs arbitrary: w) (auto simp: rbind_eq_Inr_iff encode_iff)

section \<open>Decoding\<close>

lemma read_seq_iff:
  assumes "\<And>t r v r'. t \<in> set ts \<Longrightarrow> f t r = Inr (v, r') \<longleftrightarrow>
      ok t v \<and> prefix (e v) (unread r) \<and> r' = advance (length (e v)) r"
  shows "read_seq f ts r = Inr (vs, r') \<longleftrightarrow>
    list_all2 ok ts vs \<and> prefix (concat (map e vs)) (unread r) \<and> r' = advance (length (concat (map e vs))) r"
  using assms
proof (induction ts arbitrary: r vs)
  case (Cons t ts)
  then have "read_seq f (t # ts) r = Inr (vs, r') \<longleftrightarrow> (\<exists>x xs. vs = x # xs \<and> ok t x \<and> prefix (e x) (unread r) \<and>
      list_all2 ok ts xs \<and> prefix (concat (map e xs)) (drop (length (e x)) (unread r)) \<and>
      r' = advance (length (e x) + length (concat (map e xs))) r)"
    by (auto simp: rbind_eq_Inr_iff)
  then show ?case
    by (cases vs) (auto simp: prefix_append_iff)
qed auto

lemma read_as_iff:
  "read_as con rd r = Inr (v, r') \<longleftrightarrow> (\<exists>x. v = con x \<and> rd r = Inr (x, r'))"
  by (auto simp: read_as_def fluxbin_err_def result_simps)

lemma matches_VOptional:
  "matches_type (VOptional x) ty =
    (case ty of TOption t \<Rightarrow> (case x of None \<Rightarrow> True | Some v \<Rightarrow> matches_type v t) | _ \<Rightarrow> False)"
  by (cases x; cases ty) auto

lemma matches_type_simps:
  "matches_type v TBool \<longleftrightarrow> (\<exists>x. v = VBool x)"
  "matches_type v TI8 \<longleftrightarrow> (\<exists>x. v = VI8 x)"
  "matches_type v TI16 \<longleftrightarrow> (\<exists>x. v = VI16 x)"
  "matches_type v TI32 \<longleftrightarrow> (\<exists>x. v = VI32 x)"
  "matches_type v TI64 \<longleftrightarrow> (\<exists>x. v = VI64 x)"
  "matches_type v TU8 \<longleftrightarrow> (\<exists>x. v = VU8 x)"
  "matches_type v TU16 \<longleftrightarrow> (\<exists>x. v = VU16 x)"
  "matches_type v TU32 \<longleftrightarrow> (\<exists>x. v = VU32 x)"
  "matches_type v TU64 \<longleftrightarrow> (\<exists>x. v = VU64 x)"
  "matches_type v TF32 \<longleftrightarrow> (\<exists>x. v = VF32 x)"
  "matches_type v TF64 \<longleftrightarrow> (\<exists>x. v = VF64 x)"
  "matches_type v TStr \<longleftrightarrow> (\<exists>x. v = VStr x)"
  "matches_type v TBytes \<longleftrightarrow> (\<exists>x. v = VBytes x)"
  "matches_type v TCrdtText \<longleftrightarrow> (\<exists>x. v = VBytes x)"
  "matches_type v TIdentity \<longleftrightarrow> (\<exists>x. v = VIdentity x)"
  "matches_type v TConnectionId \<longleftrightarrow> (\<exists>x. v = VConnectionId x)"
  "matches_type v TEntityId \<longleftrightarrow> (\<exists>x. v = VEntityId x)"
  "matches_type v TTimestamp \<longleftrightarrow> (\<exists>x. v = VTimestamp x)"
  "matches_type v TDecimal \<longleftrightarrow> (\<exists>x. v = VDecimal x)"
  "matches_type v TBlob \<longleftrightarrow> (\<exists>x. v = VBlob x)"
  by (cases v; simp add: matches_VOptional)+

lemma matches_type_nested:
  "matches_type v (TOption t) \<longleftrightarrow> v = VOptional None \<or> (\<exists>x. v = VOptional (Some x) \<and> matches_type x t)"
  "matches_type v (TList t) \<longleftrightarrow> (\<exists>xs. v = VList xs \<and> list_all (\<lambda>x. matches_type x t) xs)"
  "matches_type v (TEnum n variants) \<longleftrightarrow> (\<exists>tag xs va. v = VEnum tag xs \<and> list_get variants (unat tag) = Some va \<and>
      list_all2 matches_type xs (variant_payload va))"
  "matches_type v (TStruct n fs) \<longleftrightarrow> (\<exists>xs. v = VStruct xs \<and> list_all2 matches_type xs (map field_ty fs))"
  by (cases v; auto simp: matches_VOptional split: option.splits)+

lemma list_all2_valid_value:
  "list_all2 (\<lambda>t v. valid_value (ty t) v) ts vs \<longleftrightarrow>
   list_all2 matches_type vs (map ty ts) \<and> list_all wf_value vs \<and> list_all fits_value vs"
proof (induction ts arbitrary: vs)
  case (Cons t ts)
  then show ?case by (cases vs) (auto simp: valid_value_def)
qed auto

lemma list_all2_replicate_unit:
  "list_all2 P (replicate n ()) vs \<longleftrightarrow> length vs = n \<and> list_all (P ()) vs"
  by (auto simp: list_all2_conv_all_nth list_all_length)

lemma unat_ucast_tag: "unat (ucast (tag :: u8) :: u32) = unat tag"
  using unat_bound [of tag] by (simp add: unsigned_ucast_eq take_bit_eq_mod)

lemma prefix_Cons_enc:
  "prefix (a # enc_value v) xs \<longleftrightarrow> prefix [a] xs \<and> prefix (enc_value v) (drop 1 xs)"
  "prefix (a # concat (map enc_value vs)) xs \<longleftrightarrow> prefix [a] xs \<and> prefix (concat (map enc_value vs)) (drop 1 xs)"
  using prefix_append_iff [of "[a]" "enc_value v" xs] prefix_append_iff [of "[a]" "concat (map enc_value vs)" xs]
  by simp_all

lemma valid_value_option:
  "valid_value (TOption t) v \<longleftrightarrow> v = VOptional None \<or> (\<exists>x. v = VOptional (Some x) \<and> valid_value t x)"
  by (auto simp: valid_value_def matches_type_nested)

lemma valid_value_list:
  "valid_value (TList t) v \<longleftrightarrow> (\<exists>xs. v = VList xs \<and> length xs < 2 ^ 32 \<and> list_all (valid_value t) xs)"
  by (auto simp: valid_value_def matches_type_nested list_all_iff)

lemma valid_value_enum:
  "valid_value (TEnum n variants) v \<longleftrightarrow> (\<exists>tag xs va. v = VEnum tag xs \<and> unat tag < 256 \<and>
      list_get variants (unat tag) = Some va \<and> list_all2 (\<lambda>t x. valid_value t x) (variant_payload va) xs)"
  unfolding list_all2_valid_value [of "\<lambda>t. t"] by (auto simp: valid_value_def matches_type_nested)

lemma valid_value_struct:
  "valid_value (TStruct n fs) v \<longleftrightarrow> (\<exists>xs. v = VStruct xs \<and> list_all2 (\<lambda>f x. valid_value (field_ty f) x) fs xs)"
  unfolding list_all2_valid_value by (auto simp: valid_value_def matches_type_nested)

lemmas valid_value_nested = valid_value_option valid_value_list valid_value_enum valid_value_struct

lemma valid_value_list_enc:
  "valid_value (TList t) v \<and> prefix (enc_value v) (unread r) \<and> r' = advance (length (enc_value v)) r \<longleftrightarrow>
   (\<exists>(count :: u32) xs. prefix (to_le_bytes count) (unread r) \<and> v = VList xs \<and> length xs = unat count \<and>
     list_all (valid_value t) xs \<and> prefix (concat (map enc_value xs)) (drop 4 (unread r)) \<and>
     r' = advance (4 + length (concat (map enc_value xs))) r)" (is "?l \<longleftrightarrow> ?r")
proof
  assume ?l
  then obtain xs where xs: "v = VList xs" "length xs < 2 ^ 32" "list_all (valid_value t) xs"
    by (auto simp: valid_value_nested)
  then have "length xs = unat (word_of_nat (length xs) :: u32)"
    by (simp add: unat_of_nat)
  then show ?r
    using \<open>?l\<close> xs by (intro exI [of _ "word_of_nat (length xs)"] exI [of _ xs]) (simp add: prefix_append_iff)
next
  assume ?r
  then obtain count :: u32 and xs where *: "prefix (to_le_bytes count) (unread r)" "v = VList xs"
    "length xs = unat count" "list_all (valid_value t) xs" "prefix (concat (map enc_value xs)) (drop 4 (unread r))"
    "r' = advance (4 + length (concat (map enc_value xs))) r"
    by blast
  then show ?l
    using unat_bound [of count] by (simp add: valid_value_nested prefix_append_iff)
qed

lemma valid_value_enum_enc:
  "valid_value (TEnum n variants) v \<and> prefix (enc_value v) (unread r) \<and> r' = advance (length (enc_value v)) r \<longleftrightarrow>
   (\<exists>(tag :: u8) va xs. prefix [tag] (unread r) \<and> v = VEnum (ucast tag) xs \<and>
     list_get variants (unat tag) = Some va \<and> list_all2 (\<lambda>t x. valid_value t x) (variant_payload va) xs \<and>
     prefix (concat (map enc_value xs)) (drop 1 (unread r)) \<and>
     r' = advance (1 + length (concat (map enc_value xs))) r)" (is "?l \<longleftrightarrow> ?r")
proof
  assume ?l
  then obtain tag xs va where xs: "v = VEnum tag xs" "unat tag < 256" "list_get variants (unat tag) = Some va"
    "list_all2 (\<lambda>t x. valid_value t x) (variant_payload va) xs"
    by (auto simp: valid_value_nested)
  then have "unat (ucast tag :: u8) = unat tag" by (simp add: unsigned_ucast_eq take_bit_eq_mod)
  moreover from this have "ucast (ucast tag :: u8) = tag" by (metis unat_ucast_tag word_unat_eq_iff)
  ultimately show ?r
    using \<open>?l\<close> xs by (intro exI [of _ "ucast tag"] exI [of _ va] exI [of _ xs]) (simp add: prefix_Cons_enc)
next
  assume ?r
  then obtain tag :: u8 and va xs where *: "prefix [tag] (unread r)" "v = VEnum (ucast tag) xs"
    "list_get variants (unat tag) = Some va" "list_all2 (\<lambda>t x. valid_value t x) (variant_payload va) xs"
    "prefix (concat (map enc_value xs)) (drop 1 (unread r))"
    "r' = advance (1 + length (concat (map enc_value xs))) r"
    by blast
  then show ?l
    using unat_bound [of tag] by (simp add: valid_value_nested prefix_Cons_enc unat_ucast_tag ucast_down_ucast_id is_down)
qed

lemmas decode_word_defs = read_i8_def read_u16_def read_i16_def read_u32_def read_i32_def read_u64_def
  read_i64_def read_f32_def read_f64_def read_connection_id_def read_entity_id_def read_timestamp_def

lemmas primitive_get_iff = bool_codec.get_iff u8_codec.get_iff bytes_codec.get_iff str_codec.get_iff
  identity_codec.get_iff

lemma decode_bool_iff: "decode_value TBool r = Inr (v, r') \<longleftrightarrow>
   valid_value TBool v \<and> prefix (enc_value v) (unread r) \<and> r' = advance (length (enc_value v)) r"
proof (cases "v = VBool True \<or> v = VBool False")
  case True
  then show ?thesis
    by (elim disjE) (simp_all add: valid_value_def read_as_iff bool_codec.get_iff ex_bool_eq)
next
  case False
  then have "v \<noteq> VBool b" for b by (cases b) auto
  then show ?thesis by (simp add: valid_value_def matches_type_simps read_as_iff)
qed

lemma decode_decimal_iff: "decode_value TDecimal r = Inr (v, r') \<longleftrightarrow>
   valid_value TDecimal v \<and> prefix (enc_value v) (unread r) \<and> r' = advance (length (enc_value v)) r"
proof (cases "\<exists>a b. v = VDecimal \<lparr>unscaled = a, scale = b\<rparr>")
  case False
  have "v \<noteq> VDecimal d" for d :: Decimal
  proof
    assume "v = VDecimal d"
    then have "v = VDecimal \<lparr>unscaled = unscaled d, scale = scale d\<rparr>" by simp
    then show False using False by blast
  qed
  then show ?thesis by (auto simp: valid_value_def read_as_iff matches_type_simps)
next
  case True
  then show ?thesis
    by (auto simp: valid_value_def matches_type_simps read_as_iff decimal_codec.get_iff)
qed

lemma decode_value_iff:
  "decode_value ty r = Inr (v, r') \<longleftrightarrow>
   valid_value ty v \<and> prefix (enc_value v) (unread r) \<and> r' = advance (length (enc_value v)) r"
proof (induction ty r arbitrary: v r' rule: decode_value.induct)
  case (21 inner r)
  have "decode_value inner r1 = Inr (x, r2) \<longleftrightarrow> valid_value inner x \<and> prefix (enc_value x) (unread r1) \<and>
      r2 = advance (length (enc_value x)) r1" for r1 x r2
    using 21 by blast
  then have "decode_value (TOption inner) r = Inr (v, r') \<longleftrightarrow>
      prefix [0] (unread r) \<and> v = VOptional None \<and> r' = advance 1 r \<or>
      (\<exists>x. prefix [1] (unread r) \<and> v = VOptional (Some x) \<and> valid_value inner x \<and>
        prefix (enc_value x) (drop 1 (unread r)) \<and> r' = advance (1 + length (enc_value x)) r)"
    by (auto simp: rbind_eq_Inr_iff fluxbin_err_def map_err_eq_Inr_iff option_tag_codec.get_iff split: if_splits)
  then show ?case
    by (auto simp: valid_value_nested prefix_Cons_enc)
next
  case (22 inner r)
  let ?e = "\<lambda>xs. concat (map enc_value xs)"
  have seq: "read_seq (\<lambda>_. decode_value inner) (replicate (unat (count :: u32)) ()) r1 = Inr (xs, r2) \<longleftrightarrow>
      length xs = unat count \<and> list_all (valid_value inner) xs \<and> prefix (?e xs) (unread r1) \<and>
      r2 = advance (length (?e xs)) r1" for count r1 xs r2
    using read_seq_iff [of "replicate (unat count) ()" "\<lambda>_. decode_value inner" "\<lambda>_. valid_value inner" enc_value r1 xs r2]
      22 by (auto simp: list_all2_replicate_unit)
  have "decode_value (TList inner) r = Inr (v, r') \<longleftrightarrow> (\<exists>(count :: u32) xs. prefix (to_le_bytes count) (unread r) \<and>
      v = VList xs \<and> length xs = unat count \<and> list_all (valid_value inner) xs \<and>
      prefix (?e xs) (drop 4 (unread r)) \<and> r' = advance (4 + length (?e xs)) r)"
    by (auto simp: rbind_eq_Inr_iff fluxbin_err_def map_err_eq_Inr_iff read_seq_len_def u32_codec.get_iff seq)
  then show ?case
    by (simp add: valid_value_list_enc)
next
  case (23 name variants r)
  have "read_seq decode_value (variant_payload va) r1 = Inr (xs, r2) \<longleftrightarrow>
      list_all2 (\<lambda>t x. valid_value t x) (variant_payload va) xs \<and> prefix (concat (map enc_value xs)) (unread r1) \<and>
      r2 = advance (length (concat (map enc_value xs))) r1"
    if "list_get variants (unat (tag :: u8)) = Some va" for tag va r1 xs r2
    using 23 that by (intro read_seq_iff) blast
  then have "decode_value (TEnum name variants) r = Inr (v, r') \<longleftrightarrow> (\<exists>(tag :: u8) va xs. prefix [tag] (unread r) \<and>
      v = VEnum (ucast tag) xs \<and> list_get variants (unat tag) = Some va \<and>
      list_all2 (\<lambda>t x. valid_value t x) (variant_payload va) xs \<and>
      prefix (concat (map enc_value xs)) (drop 1 (unread r)) \<and> r' = advance (1 + length (concat (map enc_value xs))) r)"
    by (auto simp: rbind_eq_Inr_iff fluxbin_err_def map_err_eq_Inr_iff read_u8_Inr split: option.splits) blast+
  then show ?case
    by (simp add: valid_value_enum_enc)
next
  case (24 name fs r)
  have "read_seq (\<lambda>f. decode_value (field_ty f)) fs r = Inr (xs, r2) \<longleftrightarrow>
      list_all2 (\<lambda>f x. valid_value (field_ty f) x) fs xs \<and> prefix (concat (map enc_value xs)) (unread r) \<and>
      r2 = advance (length (concat (map enc_value xs))) r" for xs r2
    using 24 by (intro read_seq_iff) blast
  then show ?case
    by (auto simp: rbind_eq_Inr_iff valid_value_nested)
next
  case (19 r)
  show ?case by (rule decode_decimal_iff)
next
  case (1 r)
  show ?case by (rule decode_bool_iff)
qed (auto simp: valid_value_def matches_type_simps read_as_iff decode_word_defs read_word_Inr primitive_get_iff)

interpretation value_codec: canonical_codec encode enc_value "decode_value ty" "valid_value ty" for ty
  by (rule canonical_codecI) (auto simp: encode_eq valid_value_def [of ty] decode_value_iff)

end
