(* ===== verification/Rows.thy ===== *)
theory Rows
  imports Values
begin

text \<open>
  Whole rows and primary keys, the second half of \<open>src/crates/fluxum-core/src/store/row.rs\<close>:
  the arity and type check of a row, the schema-driven row codec, the single-value codec used by
  encrypted columns, and the encoding of primary keys.
\<close>

section \<open>Rows and primary keys\<close>

definition check_row :: "TableSchema \<Rightarrow> Row \<Rightarrow> unit result" where
  "check_row schema values =
    (if length values \<noteq> length (ts_columns schema) then Inl (Storage ''row arity'')
     else if list_all2 (\<lambda>value column. matches_type value (cs_ty column)) values (ts_columns schema)
     then Inr () else Inl (Storage ''column type''))"

definition encode_pk_of_row :: "TableSchema \<Rightarrow> Row \<Rightarrow> PkBytes result" where
  "encode_pk_of_row schema values =
    rmap buf (try_fold (\<lambda>ordinal w.
      rbind (ok_or (Storage ''primary key ordinal'') (list_get values ordinal)) (\<lambda>value. encode value w))
      (ts_primary_key schema) writer_new)"

definition encode_pk_values :: "TableSchema \<Rightarrow> RowValue list \<Rightarrow> PkBytes result" where
  "encode_pk_values schema pk_values =
    (if length pk_values \<noteq> length (ts_primary_key schema) then Inl (Storage ''primary key arity'')
     else rmap buf (try_fold (\<lambda>(ordinal, value) w.
       rbind (ok_or (Storage ''primary key ordinal'') (schema_column schema ordinal)) (\<lambda>column.
         if matches_type value (cs_ty column) then encode value w
         else Inl (Storage ''primary key type'')))
       (zip (ts_primary_key schema) pk_values) writer_new))"

definition encode_row :: "Row \<Rightarrow> bytes result" where
  "encode_row values = rmap buf (try_fold encode values writer_new)"

definition encode_value_bytes :: "RowValue \<Rightarrow> bytes result" where
  "encode_value_bytes value = rmap buf (encode value writer_new)"

definition decode_value_bytes :: "bytes \<Rightarrow> FluxType \<Rightarrow> RowValue result" where
  "decode_value_bytes bs ty =
    rbind (map_err (\<lambda>_. Storage ''encrypted field decode'') (decode_value ty (reader_new bs))) (\<lambda>(value, r).
      rbind (map_err (\<lambda>_. Storage ''encrypted field trailing'') (expect_eof r)) (\<lambda>_. Inr value))"

definition decode_row :: "TableSchema \<Rightarrow> bytes \<Rightarrow> Row result" where
  "decode_row schema bs =
    rbind (read_seq (\<lambda>column r. map_err (\<lambda>_. Storage ''column decode'') (decode_value (cs_ty column) r))
      (ts_columns schema) (reader_new bs)) (\<lambda>(values, r).
      rbind (map_err (\<lambda>_. Storage ''trailing bytes'') (expect_eof r)) (\<lambda>_. Inr values))"

section \<open>A sample table\<close>

definition demo_schema :: TableSchema where
  "demo_schema = \<lparr>ts_name = ''account'',
    ts_columns = [\<lparr>cs_name = ''id'', cs_ty = TU32\<rparr>, \<lparr>cs_name = ''owner'', cs_ty = TStr\<rparr>,
      \<lparr>cs_name = ''tags'', cs_ty = TList TU8\<rparr>],
    ts_primary_key = [1, 0], ts_auto_inc = None, ts_access = Public, ts_partition_by = None,
    ts_unique = [], ts_indexes = [], ts_visibility = PublicAll\<rparr>"

definition demo_row :: Row where
  "demo_row = [VU32 7, VStr [0x61, 0x62], VList [VU8 1, VU8 2]]"

definition demo_row' :: Row where
  "demo_row' = [VU32 7, VStr [0x61, 0x62], VList []]"

definition demo_pk :: PkBytes where
  "demo_pk = [2, 0, 0, 0, 0x61, 0x62, 7, 0, 0, 0]"

section \<open>Encoding rows\<close>

lemma encode_row_iff:
  "encode_row vs = Inr bs \<longleftrightarrow> list_all fits_value vs \<and> bs = concat (map enc_value vs)"
  by (auto simp: encode_row_def rmap_eq_Inr_iff encode_all_iff writer_new_def)

section \<open>Row round trips and primary keys\<close>

lemma prefix_all_iff: "prefix a xs \<Longrightarrow> length xs \<le> length a \<longleftrightarrow> xs = a"
  by (auto simp: prefix_def)

lemma expect_eof_iff: "expect_eof r = Inr () \<longleftrightarrow> unread r = []"
  by (simp add: expect_eof_def remaining_unread)

lemma check_row_iff:
  "check_row schema vs = Inr () \<longleftrightarrow> list_all2 matches_type vs (map cs_ty (ts_columns schema))"
  by (auto simp: check_row_def list_all2_lengthD list_all2_map2)

lemma decode_row_iff:
  "decode_row schema bs = Inr vs \<longleftrightarrow>
   check_row schema vs = Inr () \<and> list_all wf_value vs \<and> encode_row vs = Inr bs"
proof -
  have "read_seq (\<lambda>column r. map_err (\<lambda>_. Storage ''column decode'') (decode_value (cs_ty column) r))
        (ts_columns schema) (reader_new bs) = Inr (vs, r) \<longleftrightarrow>
      list_all2 (\<lambda>c v. valid_value (cs_ty c) v) (ts_columns schema) vs \<and> prefix (concat (map enc_value vs)) bs \<and>
      r = advance (length (concat (map enc_value vs))) (reader_new bs)" for r
    by (subst read_seq_iff [where ok = "\<lambda>c. valid_value (cs_ty c)" and e = enc_value])
      (simp_all add: map_err_eq_Inr_iff decode_value_iff)
  then have "decode_row schema bs = Inr vs \<longleftrightarrow>
      list_all2 (\<lambda>c v. valid_value (cs_ty c) v) (ts_columns schema) vs \<and> bs = concat (map enc_value vs)"
    by (auto simp: decode_row_def rbind_eq_Inr_iff map_err_eq_Inr_iff expect_eof_iff prefix_all_iff)
  then show ?thesis
    by (auto simp: list_all2_valid_value encode_row_iff check_row_iff)
qed

lemma decode_value_bytes_iff:
  "decode_value_bytes bs ty = Inr v \<longleftrightarrow> matches_type v ty \<and> wf_value v \<and> encode_value_bytes v = Inr bs"
proof -
  have "decode_value_bytes bs ty = Inr v \<longleftrightarrow> valid_value ty v \<and> bs = enc_value v"
    by (auto simp: decode_value_bytes_def rbind_eq_Inr_iff map_err_eq_Inr_iff expect_eof_iff
      decode_value_iff prefix_all_iff)
  then show ?thesis
    by (auto simp: encode_value_bytes_def rmap_eq_Inr_iff encode_iff valid_value_def writer_new_def)
qed

text \<open>The primary-key columns of a row, and the key as the concatenation of their encodings.\<close>

lemma encode_pk_fold:
  "try_fold (\<lambda>ordinal w. rbind (ok_or e (list_get vs ordinal)) (\<lambda>value. encode value w)) ords w = Inr w' \<longleftrightarrow>
   list_all (\<lambda>i. i < length vs \<and> fits_value (vs ! i)) ords \<and>
   w' = extend_from_slice w (concat (map (\<lambda>i. enc_value (vs ! i)) ords))"
  by (induction ords arbitrary: w) (auto simp: rbind_eq_Inr_iff ok_or_eq_Inr_iff list_get_def encode_iff)

lemma encode_pk_of_row_iff:
  "encode_pk_of_row schema vs = Inr pk \<longleftrightarrow>
   list_all (\<lambda>i. i < length vs \<and> fits_value (vs ! i)) (ts_primary_key schema) \<and>
   pk = concat (map (\<lambda>i. enc_value (vs ! i)) (ts_primary_key schema))"
  by (auto simp: encode_pk_of_row_def rmap_eq_Inr_iff encode_pk_fold writer_new_def)

lemma concat_enc_inj:
  assumes "list_all (\<lambda>i. i < length vs \<and> i < length us \<and> i < length tys \<and> valid_value (tys ! i) (vs ! i) \<and>
      valid_value (tys ! i) (us ! i)) ords"
    and "concat (map (\<lambda>i. enc_value (vs ! i)) ords) = concat (map (\<lambda>i. enc_value (us ! i)) ords)"
  shows "map ((!) vs) ords = map ((!) us) ords"
  using assms
proof (induction ords)
  case (Cons i ords)
  have "vs ! i = us ! i \<and> concat (map (\<lambda>i. enc_value (vs ! i)) ords) = concat (map (\<lambda>i. enc_value (us ! i)) ords)"
    by (rule value_codec.enc_prefix_free [of "tys ! i"]) (use Cons.prems in simp_all)
  then show ?case using Cons by simp
qed simp

lemma list_all2_matches_nth:
  "list_all2 matches_type vs (map cs_ty cols) \<Longrightarrow> i < length vs \<Longrightarrow>
   i < length cols \<and> matches_type (vs ! i) (cs_ty (cols ! i))"
  by (auto simp: list_all2_conv_all_nth)

lemma encode_pk_values_fold:
  assumes "list_all2 matches_type vs (map cs_ty (ts_columns schema))"
    and "list_all (\<lambda>i. i < length (ts_columns schema)) ords"
  shows "try_fold (\<lambda>(ordinal, value) w.
      rbind (ok_or e (schema_column schema ordinal)) (\<lambda>column.
        if matches_type value (cs_ty column) then encode value w else Inl e'))
      (zip ords (map ((!) vs) ords)) w =
    try_fold (\<lambda>ordinal w. rbind (ok_or e (list_get vs ordinal)) (\<lambda>value. encode value w)) ords w"
  using assms(2)
proof (induction ords arbitrary: w)
  case (Cons i ords)
  have "i < length vs" using Cons.prems list_all2_lengthD [OF assms(1)] by simp
  then show ?case
    using Cons list_all2_matches_nth [OF assms(1)]
    by (cases "encode (vs ! i) w") (auto simp: schema_column_def list_get_def)
qed simp

section \<open>Properties\<close>

text \<open>
  C9: the row codec is a bijection between well-typed rows and their encodings.  \<open>decode_row\<close>
  returns a row exactly when the row passes \<open>check_row\<close>, holds well-formed values and
  \<open>encode_row\<close> maps it to these very bytes: decoding inverts encoding, no second byte string
  decodes to the same row, and truncated, padded or non-canonical input is refused.
\<close>

theorem row_codec_bijective:
  "decode_row schema bs = Inr vs \<longleftrightarrow>
   check_row schema vs = Inr () \<and> list_all wf_value vs \<and> encode_row vs = Inr bs"
  by (rule decode_row_iff)

text \<open>
  C26: byte equality of encoded primary keys is equality of the key columns.  Two rows that pass
  the type check of their table and whose keys encode to the same bytes agree on every
  primary-key column, so distinct keys never collide in a table keyed by \<open>PkBytes\<close>.
\<close>

theorem pk_bytes_injective:
  assumes "check_row schema vs = Inr ()" "list_all wf_value vs"
    and "check_row schema us = Inr ()" "list_all wf_value us"
    and "encode_pk_of_row schema vs = Inr pk" "encode_pk_of_row schema us = Inr pk"
  shows "map ((!) vs) (ts_primary_key schema) = map ((!) us) (ts_primary_key schema)"
proof (rule concat_enc_inj [where tys = "map cs_ty (ts_columns schema)"])
  have vs: "list_all2 matches_type vs (map cs_ty (ts_columns schema))"
    and us: "list_all2 matches_type us (map cs_ty (ts_columns schema))"
    using assms(1, 3) by (simp_all add: check_row_iff)
  show "list_all (\<lambda>i. i < length vs \<and> i < length us \<and> i < length (map cs_ty (ts_columns schema)) \<and>
      valid_value (map cs_ty (ts_columns schema) ! i) (vs ! i) \<and>
      valid_value (map cs_ty (ts_columns schema) ! i) (us ! i)) (ts_primary_key schema)"
    using assms(2, 4, 5, 6) list_all2_matches_nth [OF vs] list_all2_matches_nth [OF us]
    by (auto simp: list_all_iff encode_pk_of_row_iff valid_value_def)
  show "concat (map (\<lambda>i. enc_value (vs ! i)) (ts_primary_key schema)) =
      concat (map (\<lambda>i. enc_value (us ! i)) (ts_primary_key schema))"
    using assms(5, 6) by (simp add: encode_pk_of_row_iff)
qed

text \<open>
  C27: looking a row up by its key values and storing it under its own key agree.  For a row that
  passes the type check, \<open>encode_pk_values\<close> on the key columns returns the same bytes (or the
  same error) as \<open>encode_pk_of_row\<close> on the whole row.
\<close>

theorem pk_values_agree:
  assumes "check_row schema vs = Inr ()"
    and "list_all (\<lambda>i. i < length (ts_columns schema)) (ts_primary_key schema)"
  shows "encode_pk_values schema (map ((!) vs) (ts_primary_key schema)) = encode_pk_of_row schema vs"
  using assms by (simp add: encode_pk_values_def encode_pk_of_row_def check_row_iff encode_pk_values_fold)

section \<open>Witnesses\<close>

lemma demo_check: "check_row demo_schema demo_row = Inr ()" "check_row demo_schema demo_row' = Inr ()"
  by (simp_all add: check_row_def demo_schema_def demo_row_def demo_row'_def)

lemma demo_wf: "list_all wf_value demo_row" "list_all wf_value demo_row'"
  by (simp_all add: demo_row_def demo_row'_def)

lemma demo_pk: "encode_pk_of_row demo_schema demo_row = Inr demo_pk"
    "encode_pk_of_row demo_schema demo_row' = Inr demo_pk"
  by (simp_all add: encode_pk_of_row_iff demo_schema_def demo_row_def demo_row'_def demo_pk_def
    enc_len_prefixed_def to_le_bytes_def)

theorem pk_bytes_injective_witness:
  "map ((!) demo_row) (ts_primary_key demo_schema) = map ((!) demo_row') (ts_primary_key demo_schema)"
  by (rule pk_bytes_injective [OF demo_check(1) demo_wf(1) demo_check(2) demo_wf(2) demo_pk])

theorem pk_values_agree_witness:
  "encode_pk_values demo_schema (map ((!) demo_row) (ts_primary_key demo_schema)) = Inr demo_pk"
  using pk_values_agree [OF demo_check(1)] by (simp add: demo_pk) (simp add: demo_schema_def)

end
