(* ===== verification/KeyOrder.thy ===== *)
theory KeyOrder
  imports Rows
begin

text \<open>
  Memcomparable index keys and scan planning, \<open>src/crates/fluxum-core/src/index/btree.rs\<close>: the
  byte order of encoded values is the order of the values, no encoding is a prefix of another one of
  the same type, and every scan shape becomes one byte range.  Byte strings are compared by the
  lexicographic order of lists.
\<close>

section \<open>The transform\<close>

unbundle bit_operations_syntax

definition sign_bit :: "'a::len word" where
  "sign_bit = push_bit (LENGTH('a) - 1) 1"

definition flip_sign :: "'a::len word \<Rightarrow> 'a word" where
  "flip_sign v = v XOR sign_bit"

definition float_order :: "'a::len word \<Rightarrow> 'a word" where
  "float_order bits = (if bits AND sign_bit \<noteq> 0 then NOT bits else bits XOR sign_bit)"

definition encode_terminated :: "bytes \<Rightarrow> bytes" where
  "encode_terminated bs = concat (map (\<lambda>b. if b = 0 then [0, 0xFF] else [b]) bs) @ [0, 0]"

fun encode_value :: "RowValue \<Rightarrow> bytes" where
  "encode_value (VBool v) = [if v then 1 else 0]"
| "encode_value (VI8 v) = [v XOR 0x80]"
| "encode_value (VI16 v) = to_be_bytes (flip_sign v)"
| "encode_value (VI32 v) = to_be_bytes (flip_sign v)"
| "encode_value (VI64 v) = to_be_bytes (flip_sign v)"
| "encode_value (VU8 v) = [v]"
| "encode_value (VU16 v) = to_be_bytes v"
| "encode_value (VU32 v) = to_be_bytes v"
| "encode_value (VU64 v) = to_be_bytes v"
| "encode_value (VF32 v) = to_be_bytes (float_order v)"
| "encode_value (VF64 v) = to_be_bytes (float_order v)"
| "encode_value (VStr v) = encode_terminated v"
| "encode_value (VBytes v) = encode_terminated v"
| "encode_value (VIdentity v) = v"
| "encode_value (VBlob v) = v"
| "encode_value (VConnectionId v) = to_be_bytes v"
| "encode_value (VEntityId v) = to_be_bytes v"
| "encode_value (VTimestamp v) = to_be_bytes (flip_sign v)"
| "encode_value (VDecimal v) = to_be_bytes (flip_sign (unscaled v)) @ [scale v]"
| "encode_value (VOptional None) = [0]"
| "encode_value (VOptional (Some inner)) = 1 # encode_value inner"
| "encode_value (VList items) = concat (map (\<lambda>item. 1 # encode_value item) items) @ [0]"
| "encode_value (VEnum tag payload) = to_be_bytes tag @ concat (map encode_value payload)"
| "encode_value (VStruct items) = concat (map encode_value items)"

text \<open>\<open>while bytes.last() == Some(&0xFF) { bytes.pop(); }\<close>, then increment the last byte.\<close>

definition prefix_successor :: "bytes \<Rightarrow> bytes option" where
  "prefix_successor bs =
    (case dropWhile (\<lambda>b. b = 0xFF) (rev bs) of
       [] \<Rightarrow> None
     | b # rest \<Rightarrow> Some (rev rest @ [b + 1]))"

datatype 'a bound = Unbounded | Included 'a | Excluded 'a

definition plan_scan :: "bytes \<Rightarrow> bytes bound \<Rightarrow> bytes bound \<Rightarrow> bytes \<times> bytes option" where
  "plan_scan eq_prefix lower upper =
    (let start = (case lower of
           Unbounded \<Rightarrow> Some eq_prefix
         | Included v \<Rightarrow> Some (eq_prefix @ v)
         | Excluded v \<Rightarrow> prefix_successor (eq_prefix @ v));
         stop = (case upper of
           Unbounded \<Rightarrow> prefix_successor eq_prefix
         | Included v \<Rightarrow> prefix_successor (eq_prefix @ v)
         | Excluded v \<Rightarrow> Some (eq_prefix @ v))
     in case start of
          None \<Rightarrow> ([], Some [])
        | Some s \<Rightarrow>
            (case stop of
               Some e \<Rightarrow> if e \<le> s then ([], Some []) else (s, stop)
             | None \<Rightarrow> (s, stop)))"

definition in_range :: "bytes \<times> bytes option \<Rightarrow> bytes \<Rightarrow> bool" where
  "in_range rng k = (fst rng \<le> k \<and> (case snd rng of None \<Rightarrow> True | Some e \<Rightarrow> k < e))"

section \<open>The order of values\<close>

fun lex_less :: "('a \<Rightarrow> 'a \<Rightarrow> bool) \<Rightarrow> 'a list \<Rightarrow> 'a list \<Rightarrow> bool" where
  "lex_less l xs [] = False"
| "lex_less l [] (y # ys) = True"
| "lex_less l (x # xs) (y # ys) = (l x y \<or> x = y \<and> lex_less l xs ys)"

lemma lex_less_cong [fundef_cong]:
  "xs = xs' \<Longrightarrow> ys = ys' \<Longrightarrow> (\<And>x y. x \<in> set xs' \<Longrightarrow> y \<in> set ys' \<Longrightarrow> l x y = l' x y) \<Longrightarrow>
   lex_less l xs ys = lex_less l' xs' ys'"
proof (induction l xs ys arbitrary: xs' ys' rule: lex_less.induct)
  case (3 l x xs y ys)
  then show ?case by (metis lex_less.simps(3) list.set_intros(1, 2))
qed auto

text \<open>IEEE 754 totalOrder: negative before positive, larger magnitudes first among the negative.\<close>

definition negative :: "'a::len word \<Rightarrow> bool" where
  "negative bits = bit bits (LENGTH('a) - 1)"

definition magnitude :: "'a::len word \<Rightarrow> nat" where
  "magnitude bits = unat (take_bit (LENGTH('a) - 1) bits)"

definition total_order_less :: "'a::len word \<Rightarrow> 'a word \<Rightarrow> bool" where
  "total_order_less a b =
    (if negative a then \<not> negative b \<or> magnitude b < magnitude a
     else \<not> negative b \<and> magnitude a < magnitude b)"

text \<open>
  The natural order within a type.  Decimals, which no index may use, are ordered by coefficient and
  then by scale; enums by tag and then by payload.
\<close>

fun key_less :: "RowValue \<Rightarrow> RowValue \<Rightarrow> bool" where
  "key_less (VBool a) w = (case w of VBool b \<Rightarrow> \<not> a \<and> b | _ \<Rightarrow> False)"
| "key_less (VI8 a) w = (case w of VI8 b \<Rightarrow> sint a < sint b | _ \<Rightarrow> False)"
| "key_less (VI16 a) w = (case w of VI16 b \<Rightarrow> sint a < sint b | _ \<Rightarrow> False)"
| "key_less (VI32 a) w = (case w of VI32 b \<Rightarrow> sint a < sint b | _ \<Rightarrow> False)"
| "key_less (VI64 a) w = (case w of VI64 b \<Rightarrow> sint a < sint b | _ \<Rightarrow> False)"
| "key_less (VU8 a) w = (case w of VU8 b \<Rightarrow> a < b | _ \<Rightarrow> False)"
| "key_less (VU16 a) w = (case w of VU16 b \<Rightarrow> a < b | _ \<Rightarrow> False)"
| "key_less (VU32 a) w = (case w of VU32 b \<Rightarrow> a < b | _ \<Rightarrow> False)"
| "key_less (VU64 a) w = (case w of VU64 b \<Rightarrow> a < b | _ \<Rightarrow> False)"
| "key_less (VF32 a) w = (case w of VF32 b \<Rightarrow> total_order_less a b | _ \<Rightarrow> False)"
| "key_less (VF64 a) w = (case w of VF64 b \<Rightarrow> total_order_less a b | _ \<Rightarrow> False)"
| "key_less (VStr a) w = (case w of VStr b \<Rightarrow> a < b | _ \<Rightarrow> False)"
| "key_less (VBytes a) w = (case w of VBytes b \<Rightarrow> a < b | _ \<Rightarrow> False)"
| "key_less (VIdentity a) w = (case w of VIdentity b \<Rightarrow> a < b | _ \<Rightarrow> False)"
| "key_less (VBlob a) w = (case w of VBlob b \<Rightarrow> a < b | _ \<Rightarrow> False)"
| "key_less (VConnectionId a) w = (case w of VConnectionId b \<Rightarrow> a < b | _ \<Rightarrow> False)"
| "key_less (VEntityId a) w = (case w of VEntityId b \<Rightarrow> a < b | _ \<Rightarrow> False)"
| "key_less (VTimestamp a) w = (case w of VTimestamp b \<Rightarrow> sint a < sint b | _ \<Rightarrow> False)"
| "key_less (VDecimal a) w = (case w of VDecimal b \<Rightarrow> sint (unscaled a) < sint (unscaled b) \<or> unscaled a = unscaled b \<and> scale a < scale b | _ \<Rightarrow> False)"
| "key_less (VOptional None) w = (case w of VOptional (Some b) \<Rightarrow> True | _ \<Rightarrow> False)"
| "key_less (VOptional (Some a)) w = (case w of VOptional (Some b) \<Rightarrow> key_less a b | _ \<Rightarrow> False)"
| "key_less (VList a) w = (case w of VList b \<Rightarrow> lex_less key_less a b | _ \<Rightarrow> False)"
| "key_less (VEnum t a) w = (case w of VEnum u b \<Rightarrow> t < u \<or> t = u \<and> lex_less key_less a b | _ \<Rightarrow> False)"
| "key_less (VStruct a) w = (case w of VStruct b \<Rightarrow> lex_less key_less a b | _ \<Rightarrow> False)"

definition key_value :: "FluxType \<Rightarrow> RowValue \<Rightarrow> bool" where
  "key_value ty v = (matches_type v ty \<and> wf_value v)"

section \<open>Order-preserving prefix-free codes\<close>

text \<open>The first byte in which two strings differ is smaller in the left one.\<close>

definition diverge :: "bytes \<Rightarrow> bytes \<Rightarrow> bool" where
  "diverge x y = (\<exists>p u v x' y'. x = p @ u # x' \<and> y = p @ v # y' \<and> u < v)"

locale order_code =
  fixes valid :: "'a \<Rightarrow> bool" and enc :: "'a \<Rightarrow> bytes" and less :: "'a \<Rightarrow> 'a \<Rightarrow> bool"
  assumes less_diverge: "valid a \<Longrightarrow> valid b \<Longrightarrow> less a b \<Longrightarrow> diverge (enc a) (enc b)"
    and total: "valid a \<Longrightarrow> valid b \<Longrightarrow> a = b \<or> less a b \<or> less b a"

lemma diverge_less: "diverge x y \<Longrightarrow> x @ r < y @ s"
proof -
  have "p @ u # x' < p @ v # y'" if "u < v" for p u v x' and y' :: bytes
    using that by (induction p) auto
  then show "diverge x y \<Longrightarrow> x @ r < y @ s" by (auto simp: diverge_def)
qed

lemma diverge_append: "diverge x y \<Longrightarrow> diverge (x @ r) (y @ s)"
  by (fastforce simp: diverge_def)

lemma diverge_prefix: "diverge x y \<Longrightarrow> diverge (p @ x) (p @ y)"
  unfolding diverge_def by (metis append.assoc)

lemma diverge_Cons: "diverge x y \<Longrightarrow> diverge (a # x) (a # y)"
  using diverge_prefix [of x y "[a]"] by simp

lemma diverge_byte: "u < v \<Longrightarrow> diverge (u # x) (v # y)"
  unfolding diverge_def by (intro exI [of _ "[]"]) auto

lemma diverge_fixed: "length x = length y \<Longrightarrow> x < y \<Longrightarrow> diverge x y"
  by (induction x y rule: list_induct2) (auto intro: diverge_byte diverge_Cons)

context order_code
begin

lemma compare:
  assumes "valid a" "valid b"
  shows "enc a @ r < enc b @ s \<longleftrightarrow> less a b \<or> a = b \<and> r < s"
proof -
  have app: "p @ r < p @ s \<longleftrightarrow> r < s" for p :: bytes by (induction p) auto
  have "enc x @ r' < enc y @ s'" if "valid x" "valid y" "less x y" for x y r' s'
    using diverge_less [OF less_diverge [OF that]] .
  then show ?thesis
    using total [OF assms] assms app less_asym by blast
qed

lemma unique_parse:
  assumes "valid a" "valid b" "enc a @ r = enc b @ s"
  shows "a = b \<and> r = s"
  using compare [OF assms(1, 2), of r s] compare [OF assms(2, 1), of s r] total [OF assms(1, 2)] assms(3)
  by auto

lemma prefix_free: "valid a \<Longrightarrow> valid b \<Longrightarrow> prefix (enc a) (enc b) \<Longrightarrow> a = b"
  using unique_parse [of b a "[]"] by (auto simp: prefix_def)

end

section \<open>Words\<close>

lemma be_nat_diverge: "v < w \<Longrightarrow> w < 256 ^ n \<Longrightarrow> diverge (rev (nat_le n v)) (rev (nat_le n w))"
proof (induction n arbitrary: v w)
  case (Suc n)
  show ?case
  proof (cases "v div 256 < w div 256")
    case True
    moreover have "w div 256 < 256 ^ n" using Suc.prems(2) by (simp add: less_mult_imp_div_less mult.commute)
    ultimately show ?thesis using Suc.IH [of "v div 256" "w div 256"] by (simp add: diverge_append)
  next
    case False
    then have div: "v div 256 = w div 256" using Suc.prems(1) div_le_mono [of v w 256] by simp
    then have "v mod 256 < w mod 256"
      using Suc.prems(1) by (metis div_mult_mod_eq nat_add_left_cancel_less)
    then have "(word_of_nat (v mod 256) :: u8) < word_of_nat (w mod 256)"
      by (simp add: word_less_nat_alt unat_of_nat)
    then show ?thesis
      by (simp add: div diverge_prefix diverge_byte)
  qed
qed simp

lemma be_diverge:
  assumes "8 dvd LENGTH('a)" "(v :: 'a::len word) < w"
  shows "diverge (to_be_bytes v) (to_be_bytes w)"
  using assms be_nat_diverge [of "unat v" "unat w" "LENGTH('a) div 8"] unat_bound [of w]
  by (simp add: to_be_bytes_def to_le_bytes_def word_less_nat_alt pow256)

lemma unat_split: "unat (w :: 'a::len word) = (if negative w then 2 ^ (LENGTH('a) - 1) else 0) + magnitude w"
proof -
  have "unat w = take_bit (Suc (LENGTH('a) - 1)) (unat w)"
    using unat_bound [of w] by (simp add: take_bit_nat_eq_self)
  also have "\<dots> = 2 ^ (LENGTH('a) - 1) * of_bool (bit (unat w) (LENGTH('a) - 1)) + take_bit (LENGTH('a) - 1) (unat w)"
    by (rule take_bit_Suc_from_most)
  also have "bit (unat w) (LENGTH('a) - 1) = negative w"
    by (simp add: negative_def bit_unsigned_iff)
  also have "take_bit (LENGTH('a) - 1) (unat w) = magnitude w"
    by (simp add: magnitude_def unsigned_take_bit_eq)
  finally show ?thesis by simp
qed

lemma magnitude_less: "magnitude (w :: 'a::len word) < 2 ^ (LENGTH('a) - 1)"
  by (simp add: magnitude_def unsigned_take_bit_eq take_bit_nat_less_exp)

lemma take_bit_sign: "take_bit (LENGTH('a) - 1) (sign_bit :: 'a::len word) = 0"
  unfolding sign_bit_def by (simp only: take_bit_push_bit diff_self_eq_0 take_bit_0 push_bit_of_0)

lemma flip_sign_parts [simp]:
  "negative (flip_sign w) = (\<not> negative w)" "magnitude (flip_sign w) = magnitude w"
  by (simp_all only: magnitude_def flip_sign_def take_bit_xor take_bit_sign xor.right_neutral)
    (simp add: negative_def sign_bit_def bit_xor_iff bit_exp_iff)

lemma sint_split:
  "sint (w :: 'a::len word) = (if negative w then - (2 ^ (LENGTH('a) - 1)) else 0) + int (magnitude w)"
proof -
  have "sint w = take_bit (Suc (LENGTH('a) - 1)) (uint w) - 2 ^ Suc (LENGTH('a) - 1) * of_bool (bit (uint w) (LENGTH('a) - 1))"
    by (simp add: sint_uint signed_take_bit_eq_take_bit_minus)
  moreover have "take_bit (Suc (LENGTH('a) - 1)) (uint w) = int (unat w)"
    by (simp add: take_bit_int_eq_self unsigned_less)
  moreover have "bit (uint w) (LENGTH('a) - 1) = negative w" by (simp add: negative_def bit_unsigned_iff)
  ultimately show ?thesis
    unfolding unat_split by (simp add: power_Suc [symmetric])
qed

lemma uint_flip_sign: "uint (flip_sign (w :: 'a::len word)) = sint w + 2 ^ (LENGTH('a) - 1)"
proof -
  have "uint (flip_sign w) = int (unat (flip_sign w))" by simp
  then show ?thesis by (simp add: unat_split [of "flip_sign w"] sint_split)
qed

lemma flip_sign_less: "flip_sign v < flip_sign w \<longleftrightarrow> sint v < sint (w :: 'a::len word)"
  by (simp add: word_less_def uint_flip_sign)

lemma unat_not: "unat (NOT w :: 'a::len word) = 2 ^ LENGTH('a) - 1 - unat w"
proof -
  have "NOT w = - 1 - w" by (simp add: not_eq_complement)
  then have "unat (NOT w) = unat (- 1 :: 'a word) - unat w"
    by (simp add: unat_sub)
  then show ?thesis by (simp add: unat_max)
qed

lemma unat_float_order:
  "unat (float_order (w :: 'a::len word)) =
    (if negative w then 2 ^ (LENGTH('a) - 1) - 1 - magnitude w else 2 ^ (LENGTH('a) - 1) + magnitude w)"
proof -
  have "w AND sign_bit \<noteq> 0 \<longleftrightarrow> negative w"
    by (simp add: negative_def sign_bit_def bit_iff_and_push_bit_not_eq_0)
  moreover have "(2 :: nat) ^ LENGTH('a) = 2 ^ (LENGTH('a) - 1) + 2 ^ (LENGTH('a) - 1)"
    by (simp flip: power_Suc mult_2)
  ultimately show ?thesis
    using unat_split [of "flip_sign w"] unat_split [of w]
    by (simp add: float_order_def unat_not flip: flip_sign_def)
qed

lemma float_order_less: "float_order v < float_order w \<longleftrightarrow> total_order_less v (w :: 'a::len word)"
  using magnitude_less [of v] magnitude_less [of w]
  by (auto simp: word_less_nat_alt unat_float_order total_order_less_def)

lemma float_order_eq: "float_order v = float_order w \<longleftrightarrow> v = (w :: 'a::len word)"
proof -
  have "v = w \<longleftrightarrow> negative v = negative w \<and> magnitude v = magnitude w"
    using magnitude_less [of v] magnitude_less [of w]
    by (auto simp: word_unat_eq_iff unat_split [of v] unat_split [of w])
  then show ?thesis
    using magnitude_less [of v] magnitude_less [of w]
    by (auto simp: word_unat_eq_iff [of "float_order v"] unat_float_order split: if_splits)
qed

lemma flip_sign_eq [simp]: "flip_sign v = flip_sign w \<longleftrightarrow> v = w"
proof -
  have "flip_sign (flip_sign x) = x" for x :: "'a word" by (simp add: flip_sign_def xor.assoc)
  then show ?thesis by metis
qed

section \<open>Values\<close>

lemma escape_diverge: "a < b \<Longrightarrow> diverge (encode_terminated a) (encode_terminated b)"
proof (induction a arbitrary: b)
  case Nil
  then obtain y ys where b: "b = y # ys" by (cases b) auto
  show ?case
  proof (cases "y = 0")
    case True
    then show ?thesis by (simp add: b encode_terminated_def diverge_Cons diverge_byte)
  next
    case False
    then show ?thesis by (simp add: b encode_terminated_def diverge_byte word_gt_0)
  qed
next
  case (Cons x xs)
  obtain y ys where b: "b = y # ys" using Cons.prems by (cases b) auto
  have enc: "encode_terminated (z # zs) = (if z = 0 then [0, 0xFF] else [z]) @ encode_terminated zs" for z zs
    by (simp add: encode_terminated_def)
  show ?case
  proof (cases "x = y")
    case True
    then show ?thesis using Cons b by (simp add: enc diverge_prefix diverge_Cons)
  next
    case False
    then have "x < y" using Cons.prems b by simp
    moreover from this have "y \<noteq> 0" by (auto simp: word_gt_0)
    ultimately show ?thesis by (auto simp: b enc intro: diverge_byte)
  qed
qed

lemma list_diverge:
  assumes "\<And>x y. (x, y) \<in> set (zip xs ys) \<Longrightarrow> l x y \<Longrightarrow> diverge (e x) (e y)" "lex_less l xs ys"
  shows "diverge (concat (map (\<lambda>x. 1 # e x) xs) @ [0]) (concat (map (\<lambda>x. 1 # e x) ys) @ [0])"
  using assms
proof (induction l xs ys rule: lex_less.induct)
  case (3 l x xs y ys)
  show ?case
  proof (cases "l x y")
    case True
    then show ?thesis using "3.prems"(1) by (auto intro!: diverge_Cons diverge_append)
  next
    case False
    then show ?thesis using "3.prems" "3.IH" by (auto intro!: diverge_Cons diverge_prefix)
  qed
qed (auto intro: diverge_byte)

lemma tuple_diverge:
  assumes "\<And>x y. (x, y) \<in> set (zip xs ys) \<Longrightarrow> l x y \<Longrightarrow> diverge (e x) (e y)" "lex_less l xs ys"
    and "length xs = length ys"
  shows "diverge (concat (map e xs)) (concat (map e ys))"
  using assms
proof (induction l xs ys rule: lex_less.induct)
  case (3 l x xs y ys)
  show ?case
  proof (cases "l x y")
    case True
    then show ?thesis using "3.prems"(1) by (auto intro!: diverge_append)
  next
    case False
    then show ?thesis using "3.prems" "3.IH" by (auto intro!: diverge_prefix)
  qed
qed auto

lemma lex_total:
  "(\<And>x y. (x, y) \<in> set (zip xs ys) \<Longrightarrow> x = y \<or> l x y \<or> l y x) \<Longrightarrow>
   xs = ys \<or> lex_less l xs ys \<or> lex_less l ys xs"
proof (induction xs arbitrary: ys)
  case Nil
  then show ?case by (cases ys) auto
next
  case (Cons x xs)
  show ?case
  proof (cases ys)
    case ys: (Cons y zs)
    have "x = y \<or> l x y \<or> l y x" using Cons.prems ys by simp
    moreover have "xs = zs \<or> lex_less l xs zs \<or> lex_less l zs xs"
      using Cons.IH [of zs] Cons.prems ys by simp
    ultimately show ?thesis using ys by auto
  qed simp
qed

text \<open>What is to be shown of two values of one type, and of two lists of values.\<close>

definition coded :: "RowValue \<Rightarrow> RowValue \<Rightarrow> bool" where
  "coded v w = ((v = w \<or> key_less v w \<or> key_less w v) \<and>
    (key_less v w \<longrightarrow> diverge (encode_value v) (encode_value w)) \<and>
    (key_less w v \<longrightarrow> diverge (encode_value w) (encode_value v)))"

lemma coded_swap: "coded v w \<Longrightarrow> coded w v"
  by (auto simp: coded_def)

lemma zip_swap: "(x, y) \<in> set (zip ys xs) \<longleftrightarrow> (y, x) \<in> set (zip xs ys)"
  by (auto simp: in_set_zip)

lemma coded_list:
  assumes "\<And>x y. (x, y) \<in> set (zip xs ys) \<Longrightarrow> coded x y"
  shows "coded (VList xs) (VList ys)"
  using assms list_diverge [of xs ys key_less encode_value] list_diverge [of ys xs key_less encode_value]
    lex_total [of xs ys key_less]
  by (auto simp: coded_def zip_swap [of _ _ ys xs])

lemma coded_tuple:
  assumes "\<And>x y. (x, y) \<in> set (zip xs ys) \<Longrightarrow> coded x y" "length xs = length ys"
  shows "(xs = ys \<or> lex_less key_less xs ys \<or> lex_less key_less ys xs) \<and>
    (lex_less key_less xs ys \<longrightarrow> diverge (concat (map encode_value xs)) (concat (map encode_value ys))) \<and>
    (lex_less key_less ys xs \<longrightarrow> diverge (concat (map encode_value ys)) (concat (map encode_value xs)))"
  using assms tuple_diverge [of xs ys key_less encode_value] tuple_diverge [of ys xs key_less encode_value]
    lex_total [of xs ys key_less]
  by (auto simp: coded_def zip_swap [of _ _ ys xs])

lemma zip_types:
  assumes "list_all2 matches_type xs ts" "list_all2 matches_type ys ts" "(x, y) \<in> set (zip xs ys)"
  shows "\<exists>t. matches_type x t \<and> matches_type y t"
  using assms by (auto simp: in_set_zip list_all2_conv_all_nth) blast

lemma diverge_singleton: "diverge [u] [v] \<longleftrightarrow> u < v"
proof
  show "diverge [u] [v] \<Longrightarrow> u < v"
    unfolding diverge_def by (metis append_eq_Cons_conv list.inject append_is_Nil_conv list.distinct(1))
qed (rule diverge_byte)

lemma be_coded:
  fixes v w :: "'a::len word"
  assumes "8 dvd LENGTH('a)"
  shows "v < w \<Longrightarrow> diverge (to_be_bytes v) (to_be_bytes w)"
  using be_diverge [OF assms] .

lemma i8_flip: "(v XOR 0x80 :: u8) = flip_sign v"
  by (simp add: flip_sign_def sign_bit_def)

lemma sint_total: "(v :: 'a::len word) = w \<or> sint v < sint w \<or> sint w < sint v"
  using flip_sign_less [of v w] flip_sign_less [of w v] flip_sign_eq [of v w] by (metis linorder_neqE)

lemma total_order_total: "v = w \<or> total_order_less v w \<or> total_order_less w (v :: 'a::len word)"
  using float_order_less [of v w] float_order_less [of w v] float_order_eq [of v w] by (metis linorder_neqE)

lemma lessI:
  "\<not> sint w < sint v \<Longrightarrow> (v :: 'a::len word) \<noteq> w \<Longrightarrow> sint v < sint w"
  "\<not> total_order_less w v \<Longrightarrow> (v :: 'a::len word) \<noteq> w \<Longrightarrow> total_order_less v w"
  "\<not> w' < v' \<Longrightarrow> (v' :: 'b::linorder) \<noteq> w' \<Longrightarrow> v' < w'"
  using sint_total total_order_total by auto

lemma key_code: "key_value ty v \<Longrightarrow> key_value ty w \<Longrightarrow> coded v w"
proof (induction v arbitrary: ty w)
  case (VBool x)
  then show ?case
    by (cases ty) (auto simp: key_value_def matches_type_simps coded_def diverge_singleton)
next
  case (VI8 x)
  then show ?case
    by (auto simp: key_value_def matches_type_simps coded_def diverge_singleton i8_flip flip_sign_less intro: lessI)
next
  case (VI16 x)
  then show ?case
    by (auto simp: key_value_def matches_type_simps coded_def be_coded flip_sign_less intro: lessI)
next
  case (VI32 x)
  then show ?case
    by (auto simp: key_value_def matches_type_simps coded_def be_coded flip_sign_less intro: lessI)
next
  case (VI64 x)
  then show ?case
    by (auto simp: key_value_def matches_type_simps coded_def be_coded flip_sign_less intro: lessI)
next
  case (VF32 x)
  then show ?case
    by (auto simp: key_value_def matches_type_simps coded_def be_coded float_order_less intro: lessI)
next
  case (VF64 x)
  then show ?case
    by (auto simp: key_value_def matches_type_simps coded_def be_coded float_order_less intro: lessI)
next
  case (VTimestamp x)
  then show ?case
    by (auto simp: key_value_def matches_type_simps coded_def be_coded flip_sign_less intro: lessI)
next
  case (VStr x)
  then show ?case
    by (auto simp: key_value_def matches_type_simps coded_def escape_diverge intro: lessI)
next
  case (VBytes x)
  then show ?case
    by (auto simp: key_value_def matches_type_simps coded_def escape_diverge intro: lessI)
next
  case (VIdentity x)
  then show ?case
    by (auto simp: key_value_def matches_type_simps coded_def diverge_fixed intro: lessI)
next
  case (VBlob x)
  then show ?case
    by (auto simp: key_value_def matches_type_simps coded_def diverge_fixed intro: lessI)
next
  case (VDecimal x)
  then obtain y where w: "w = VDecimal y" by (auto simp: key_value_def matches_type_simps)
  have "coded (VDecimal x) (VDecimal y)" if "unscaled x \<noteq> unscaled y" for x y
    using that by (auto simp: coded_def be_coded flip_sign_less intro!: diverge_append intro: lessI)
  moreover have "coded (VDecimal x) (VDecimal y)" if "unscaled x = unscaled y"
    using that by (auto simp: coded_def diverge_singleton Decimal.equality intro!: diverge_prefix intro: lessI)
  ultimately show ?case using w by blast
next
  case (VOptional x)
  obtain t where ty: "ty = TOption t"
    using VOptional.prems(1) by (cases x) (auto simp: key_value_def split: FluxType.splits)
  obtain y where w: "w = VOptional y" using VOptional.prems(2) by (auto simp: ty key_value_def matches_type_nested)
  show ?case
  proof (cases "\<exists>a b. x = Some a \<and> y = Some b")
    case True
    then obtain a b where ab: "x = Some a" "y = Some b" by blast
    then have "coded a b"
      using VOptional.IH [of a t b] VOptional.prems by (simp add: ty w key_value_def)
    then show ?thesis by (auto simp: w ab coded_def intro: diverge_Cons)
  next
    case False
    then show ?thesis by (cases x; cases y) (auto simp: w coded_def intro: diverge_byte)
  qed
next
  case (VList xs)
  obtain t where ty: "ty = TList t"
    using VList.prems(1) by (auto simp: key_value_def split: FluxType.splits)
  obtain ys where w: "w = VList ys" using VList.prems(2) by (auto simp: ty key_value_def matches_type_nested)
  have "coded x y" if xy: "(x, y) \<in> set (zip xs ys)" for x y
    using VList.IH [of x t y] VList.prems set_zip_leftD [OF xy] set_zip_rightD [OF xy]
    by (auto simp: ty w key_value_def list_all_iff)
  then show ?case unfolding w by (rule coded_list)
next
  case (VEnum tag xs)
  obtain n variants where ty: "ty = TEnum n variants"
    using VEnum.prems(1) by (auto simp: key_value_def split: FluxType.splits)
  obtain tag' ys where w: "w = VEnum tag' ys" using VEnum.prems(2) by (auto simp: ty key_value_def matches_type_nested)
  show ?case
  proof (cases "tag = tag'")
    case True
    then obtain va where va: "list_all2 matches_type xs (variant_payload va)" "list_all2 matches_type ys (variant_payload va)"
      using VEnum.prems by (auto simp: ty w key_value_def matches_type_nested)
    have "coded x y" if xy: "(x, y) \<in> set (zip xs ys)" for x y
    proof -
      obtain t where "matches_type x t" "matches_type y t" using zip_types [OF va xy] by blast
      then show ?thesis
        using VEnum.IH [of x t y] VEnum.prems set_zip_leftD [OF xy] set_zip_rightD [OF xy]
        by (auto simp: w key_value_def list_all_iff)
    qed
    moreover have "length xs = length ys" using va by (auto dest!: list_all2_lengthD)
    ultimately show ?thesis
      using coded_tuple [of xs ys] by (auto simp: w True coded_def intro!: diverge_prefix)
  next
    case False
    then show ?thesis
      by (auto simp: w coded_def be_coded intro!: diverge_append intro: lessI)
  qed
next
  case (VStruct xs)
  obtain n fs where ty: "ty = TStruct n fs"
    using VStruct.prems(1) by (auto simp: key_value_def split: FluxType.splits)
  obtain ys where w: "w = VStruct ys" using VStruct.prems(2) by (auto simp: ty key_value_def matches_type_nested)
  have ts: "list_all2 matches_type xs (map field_ty fs)" "list_all2 matches_type ys (map field_ty fs)"
    using VStruct.prems by (auto simp: ty w key_value_def)
  have "coded x y" if xy: "(x, y) \<in> set (zip xs ys)" for x y
  proof -
    obtain t where "matches_type x t" "matches_type y t" using zip_types [OF ts xy] by blast
    then show ?thesis
      using VStruct.IH [of x t y] VStruct.prems set_zip_leftD [OF xy] set_zip_rightD [OF xy]
      by (auto simp: w key_value_def list_all_iff)
  qed
  moreover have "length xs = length ys" using ts by (auto dest!: list_all2_lengthD)
  ultimately show ?case using coded_tuple [of xs ys] by (simp add: w coded_def)
qed (auto simp: key_value_def matches_type_simps coded_def diverge_singleton be_coded intro: lessI)


interpretation key: order_code "key_value ty" encode_value key_less for ty
  using key_code by unfold_locales (auto simp: coded_def)

section \<open>Scan planning\<close>

text \<open>What a bound says of a column value.\<close>

fun above :: "RowValue bound \<Rightarrow> RowValue \<Rightarrow> bool" where
  "above Unbounded x = True"
| "above (Included v) x = (\<not> key_less x v)"
| "above (Excluded v) x = (\<not> key_less x v \<and> x \<noteq> v)"

fun below :: "RowValue bound \<Rightarrow> RowValue \<Rightarrow> bool" where
  "below Unbounded x = True"
| "below (Included v) x = (\<not> key_less v x)"
| "below (Excluded v) x = (\<not> key_less v x \<and> x \<noteq> v)"

fun key_bound :: "FluxType \<Rightarrow> RowValue bound \<Rightarrow> bool" where
  "key_bound t Unbounded = True"
| "key_bound t (Included v) = key_value t v"
| "key_bound t (Excluded v) = key_value t v"

fun map_bound :: "('a \<Rightarrow> 'b) \<Rightarrow> 'a bound \<Rightarrow> 'b bound" where
  "map_bound f Unbounded = Unbounded"
| "map_bound f (Included v) = Included (f v)"
| "map_bound f (Excluded v) = Excluded (f v)"

text \<open>Tuples of column values: keys of a composite index.\<close>

definition encode_tuple :: "RowValue list \<Rightarrow> bytes" where
  "encode_tuple vs = concat (map encode_value vs)"

definition key_tuple :: "FluxType list \<Rightarrow> RowValue list \<Rightarrow> bool" where
  "key_tuple ts vs = list_all2 key_value ts vs"

lemma tuple_code:
  "key_tuple ts vs \<Longrightarrow> key_tuple ts ws \<Longrightarrow>
   encode_tuple vs @ r < encode_tuple ws @ s \<longleftrightarrow> lex_less key_less vs ws \<or> vs = ws \<and> r < s"
proof (induction ts arbitrary: vs ws)
  case (Cons t ts)
  obtain v vs' w ws' where c: "vs = v # vs'" "ws = w # ws'" "key_value t v" "key_value t w"
    "key_tuple ts vs'" "key_tuple ts ws'"
    using Cons.prems by (auto simp: key_tuple_def list_all2_Cons1)
  then show ?case
    using Cons.IH [OF c(5, 6)] key.compare [OF c(3, 4), of "encode_tuple vs' @ r" "encode_tuple ws' @ s"]
    by (auto simp: encode_tuple_def)
qed (simp add: key_tuple_def encode_tuple_def)

text \<open>\<open>prefix_successor\<close> is the least upper bound of the strings that extend its argument.\<close>

lemma u8_cases: "(c :: u8) = 0xFF \<or> c < 0xFF"
  using unat_bound [of c] by (simp add: word_less_nat_alt word_unat_eq_iff) linarith

lemma all_ff_top: "k < replicate n 0xFF \<or> prefix (replicate n 0xFF) (k :: bytes)"
proof (induction n arbitrary: k)
  case (Suc n)
  show ?case
  proof (cases k)
    case (Cons c k')
    then show ?thesis using Suc.IH [of k'] u8_cases [of c] by auto
  qed simp
qed simp

lemma prefix_successor_shape:
  "prefix_successor bs = None \<and> (\<exists>n. bs = replicate n 0xFF) \<or>
   (\<exists>p b n. b < 0xFF \<and> bs = p @ b # replicate n 0xFF \<and> prefix_successor bs = Some (p @ [b + 1]))"
proof -
  let ?P = "\<lambda>b :: u8. b = 0xFF"
  have "takeWhile ?P (rev bs) = replicate (length (takeWhile ?P (rev bs))) 0xFF"
    by (rule replicate_eqI) (auto dest: set_takeWhileD)
  then obtain n where tw: "takeWhile ?P (rev bs) = replicate n 0xFF" ..
  have "rev bs = replicate n 0xFF @ dropWhile ?P (rev bs)"
    using takeWhile_dropWhile_id [of ?P "rev bs"] by (simp only: tw)
  then have bs: "bs = rev (dropWhile ?P (rev bs)) @ replicate n 0xFF"
    by (metis rev_append rev_replicate rev_rev_ident)
  show ?thesis
  proof (cases "dropWhile ?P (rev bs)")
    case Nil
    have 1: "bs = replicate n 0xFF" using bs unfolding Nil by simp
    have 2: "prefix_successor bs = None" unfolding prefix_successor_def Nil by simp
    show ?thesis by (rule disjI1, rule conjI, rule 2, rule exI, rule 1)
  next
    case (Cons b rest)
    then have "\<not> ?P b" using hd_dropWhile [of ?P "rev bs"] by simp
    then have 1: "b < 0xFF" using u8_cases by blast
    have 2: "bs = rev rest @ b # replicate n 0xFF" using bs unfolding Cons by simp
    have 3: "prefix_successor bs = Some (rev rest @ [b + 1])" by (simp add: prefix_successor_def Cons)
    show ?thesis by (rule disjI2, intro exI conjI, rule 1, rule 2, rule 3)
  qed
qed

lemma succ_bound:
  assumes "(b :: u8) < 0xFF"
  shows "k < p @ [b + 1] \<longleftrightarrow> k < p @ b # replicate n 0xFF \<or> prefix (p @ b # replicate n 0xFF) k"
proof (induction p arbitrary: k)
  case Nil
  have "c < b + 1 \<longleftrightarrow> c < b \<or> c = b" for c
  proof -
    have "unat (b + 1) = unat b + 1" using assms by (simp add: word_less_nat_alt unat_word_ariths)
    then show ?thesis by (simp add: word_less_nat_alt word_unat_eq_iff less_Suc_eq)
  qed
  then show ?case using all_ff_top [of _ n] by (cases k) auto
next
  case (Cons a p)
  then show ?case by (cases k) auto
qed

lemma prefix_successor_bound: "prefix_successor bs = Some e \<Longrightarrow> k < e \<longleftrightarrow> k < bs \<or> prefix bs k"
  using prefix_successor_shape [of bs] succ_bound by auto

lemma prefix_successor_top: "prefix_successor bs = None \<Longrightarrow> k < bs \<or> prefix bs k"
  using prefix_successor_shape [of bs] all_ff_top by auto

lemma in_range_plan:
  "in_range (plan_scan p lower upper) k \<longleftrightarrow>
    (case lower of Unbounded \<Rightarrow> \<not> k < p | Included v \<Rightarrow> \<not> k < p @ v
     | Excluded v \<Rightarrow> \<not> (k < p @ v \<or> prefix (p @ v) k)) \<and>
    (case upper of Unbounded \<Rightarrow> k < p \<or> prefix p k | Included v \<Rightarrow> k < p @ v \<or> prefix (p @ v) k
     | Excluded v \<Rightarrow> k < p @ v)"
proof -
  have start: "(case prefix_successor b of None \<Rightarrow> False | Some s \<Rightarrow> s \<le> k) \<longleftrightarrow> \<not> (k < b \<or> prefix b k)" for b
  proof (cases "prefix_successor b")
    case (Some e)
    then show ?thesis using prefix_successor_bound [OF Some, of k] by (simp add: not_less [symmetric])
  qed (use prefix_successor_top [of b k] in auto)
  have stop: "(case prefix_successor b of None \<Rightarrow> True | Some e \<Rightarrow> k < e) \<longleftrightarrow> k < b \<or> prefix b k" for b
  proof (cases "prefix_successor b")
    case (Some e)
    then show ?thesis using prefix_successor_bound [OF Some, of k] by simp
  qed (use prefix_successor_top [of b k] in auto)
  have empty: "\<not> (s \<le> k \<and> k < e)" if "e \<le> s" for s e :: bytes using that by auto
  have plan: "in_range (case start of None \<Rightarrow> ([], Some []) | Some s \<Rightarrow>
        (case stop of Some e \<Rightarrow> if e \<le> s then ([], Some []) else (s, stop) | None \<Rightarrow> (s, stop))) k \<longleftrightarrow>
      (case start of None \<Rightarrow> False | Some s \<Rightarrow> s \<le> k) \<and> (case stop of None \<Rightarrow> True | Some e \<Rightarrow> k < e)" for start stop
    using empty by (auto simp: in_range_def split: option.splits)
  show ?thesis
    unfolding plan_scan_def Let_def plan
    by (cases lower; cases upper) (simp_all add: start stop not_less)
qed

lemma tuple_parse:
  assumes "key_tuple ts q" "key_tuple ts p" "encode_tuple q @ r = encode_tuple p @ s"
  shows "q = p \<and> r = s"
proof -
  have "\<not> lex_less key_less q p" "\<not> lex_less key_less p q" "q = p \<longrightarrow> \<not> r < s" "q = p \<longrightarrow> \<not> s < r"
    using tuple_code [OF assms(1, 2), of r s] tuple_code [OF assms(2, 1), of s r] assms(3) by auto
  moreover have "q = p \<or> lex_less key_less q p \<or> lex_less key_less p q"
  proof (rule lex_total)
    fix x y assume "(x, y) \<in> set (zip q p)"
    then obtain n where "n < length ts" "x = q ! n" "y = p ! n"
      using assms(1, 2) by (auto simp: in_set_zip key_tuple_def list_all2_conv_all_nth)
    then have "key_value (ts ! n) x" "key_value (ts ! n) y"
      using assms(1, 2) by (auto simp: key_tuple_def list_all2_conv_all_nth)
    then show "x = y \<or> key_less x y \<or> key_less y x" by (rule key.total)
  qed
  ultimately show ?thesis by auto
qed

lemma tuple_irrefl: "key_tuple ts q \<Longrightarrow> \<not> lex_less key_less q q"
  using tuple_code [of ts q q "[]" "[]"] by auto

lemma key_bounds:
  assumes "key_tuple ts q" "key_tuple ts p" "key_value t x" "key_value t v"
  shows "encode_tuple q @ encode_value x @ r < encode_tuple p @ encode_value v \<longleftrightarrow>
      lex_less key_less q p \<or> q = p \<and> key_less x v"
    and "prefix (encode_tuple p @ encode_value v) (encode_tuple q @ encode_value x @ r) \<longleftrightarrow> q = p \<and> x = v"
    and "encode_tuple q @ s < encode_tuple p \<longleftrightarrow> lex_less key_less q p"
    and "prefix (encode_tuple p) (encode_tuple q @ s) \<longleftrightarrow> q = p"
proof -
  show "encode_tuple q @ encode_value x @ r < encode_tuple p @ encode_value v \<longleftrightarrow>
      lex_less key_less q p \<or> q = p \<and> key_less x v"
    using tuple_code [OF assms(1, 2), of "encode_value x @ r" "encode_value v"] key.compare [OF assms(3, 4), of r "[]"]
    by simp
  show "encode_tuple q @ s < encode_tuple p \<longleftrightarrow> lex_less key_less q p"
    using tuple_code [OF assms(1, 2), of s "[]"] by simp
  show "prefix (encode_tuple p) (encode_tuple q @ s) \<longleftrightarrow> q = p"
    using tuple_parse [OF assms(1, 2)] by (auto simp: prefix_def)
  show "prefix (encode_tuple p @ encode_value v) (encode_tuple q @ encode_value x @ r) \<longleftrightarrow> q = p \<and> x = v"
  proof
    assume "prefix (encode_tuple p @ encode_value v) (encode_tuple q @ encode_value x @ r)"
    then obtain z where z: "encode_tuple q @ encode_value x @ r = encode_tuple p @ encode_value v @ z"
      by (auto simp: prefix_def)
    then have "q = p" "encode_value x @ r = encode_value v @ z" using tuple_parse [OF assms(1, 2) z] by auto
    then show "q = p \<and> x = v" using key.unique_parse [OF assms(3, 4)] by auto
  qed (simp add: prefix_def)
qed

lemma below_iff:
  assumes "key_value t x" "key_value t v"
  shows "\<not> key_less v x \<longleftrightarrow> key_less x v \<or> x = v"
  using key.total [OF assms] key.compare [OF assms, of "[]" "[]"] key.compare [OF assms(2, 1), of "[]" "[]"] by auto

lemma planned_range:
  assumes "key_tuple ts q" "key_tuple ts eq_values" "key_value t x" "key_bound t lower" "key_bound t upper"
  shows "in_range (plan_scan (encode_tuple eq_values) (map_bound encode_value lower) (map_bound encode_value upper))
      (encode_tuple q @ encode_value x @ rest) \<longleftrightarrow>
    q = eq_values \<and> above lower x \<and> below upper x"
proof -
  note kb = key_bounds(1, 2) [OF assms(1, 2, 3)] key_bounds(3, 4) [OF assms(1, 2, 3, 3)]
  show ?thesis
    using assms(4, 5) tuple_irrefl [OF assms(1)] below_iff [OF assms(3)]
    by (cases lower; cases upper) (auto simp: in_range_plan kb)
qed

lemma planned_prefix:
  assumes "key_tuple ts q" "key_tuple ts eq_values"
  shows "in_range (plan_scan (encode_tuple eq_values) Unbounded Unbounded) (encode_tuple q @ rest) \<longleftrightarrow> q = eq_values"
proof -
  have "encode_tuple q @ rest < encode_tuple eq_values \<longleftrightarrow> lex_less key_less q eq_values"
    using tuple_code [OF assms, of rest "[]"] by simp
  moreover have "prefix (encode_tuple eq_values) (encode_tuple q @ rest) \<longleftrightarrow> q = eq_values"
    using tuple_parse [OF assms] by (auto simp: prefix_def)
  ultimately show ?thesis using tuple_irrefl [OF assms(1)] by (auto simp: in_range_plan)
qed

section \<open>Properties of index keys\<close>

text \<open>
  C17: index keys sort like the values they encode.  For values of one column type, comparing the
  encodings byte by byte, whatever follows them in a composite key, is comparing the values (signed
  integers numerically, floats by IEEE totalOrder, strings and lists lexicographically, \<open>None\<close>
  first), and equal encodings with their continuations mean equal values: no encoding is a prefix of
  another.
\<close>

theorem index_key_order:
  assumes "key_value ty a" "key_value ty b"
  shows "(encode_value a @ r < encode_value b @ s \<longleftrightarrow> key_less a b \<or> a = b \<and> r < s) \<and>
    (encode_value a @ r = encode_value b @ s \<longleftrightarrow> a = b \<and> r = s)"
  using key.compare [OF assms] key.unique_parse [OF assms] by blast

text \<open>
  C8: a planned scan is exact.  A composite key, its equality columns \<open>q\<close>, the next column \<open>x\<close> and
  anything after them, lies in the byte range that \<open>plan_scan\<close> computes if and only if its equality
  columns are the requested ones and \<open>x\<close> satisfies both bounds, for every combination of open,
  closed and missing bounds, inverted ones included.
\<close>

theorem plan_scan_exact:
  assumes "key_tuple ts q" "key_tuple ts eq_values" "key_value t x" "key_bound t lower" "key_bound t upper"
  shows "in_range (plan_scan (encode_tuple eq_values) (map_bound encode_value lower) (map_bound encode_value upper))
      (encode_tuple q @ encode_value x @ rest) \<longleftrightarrow>
    q = eq_values \<and> above lower x \<and> below upper x"
  by (rule planned_range [OF assms])

theorem index_key_order_witness:
  "encode_value (VI16 (- 2)) @ [9] < encode_value (VI16 1) @ [0]"
  using index_key_order [of TI16 "VI16 (- 2)" "VI16 1" "[9]" "[0]"] by (simp add: key_value_def)

theorem plan_scan_exact_witness:
  "in_range (plan_scan (encode_tuple [VU8 3]) (Included (encode_value (VI16 (- 5)))) Unbounded)
      (encode_tuple [VU8 3] @ encode_value (VI16 4) @ [1])"
  using plan_scan_exact [of "[TU8]" "[VU8 3]" "[VU8 3]" TI16 "VI16 4" "Included (VI16 (- 5))" Unbounded "[1]"]
  by (simp add: key_tuple_def key_value_def)

end
