(* ===== verification/LogRecord.thy ===== *)
theory LogRecord
  imports Rows
begin

text \<open>
  Commit-log records: table ids (\<open>src/crates/fluxum-core/src/store/mod.rs\<close>), the commit output
  \<open>TxDiff\<close> (\<open>store/tx.rs\<close>) and its persistent form \<open>TxRecord\<close> with the self-describing
  \<open>LogValue\<close> (\<open>commitlog/record.rs\<close>).  The MessagePack bytes of a record come from a
  third-party serializer; the functions that use it take it as an argument (theory \<open>LogFormat\<close>).
\<close>

unbundle bit_operations_syntax

section \<open>Table ids\<close>

type_synonym TableId = u32

definition crc32_bit :: "u32 \<Rightarrow> u32" where
  "crc32_bit crc = (let mask = - (crc AND 1) in drop_bit 1 crc XOR (0xEDB88320 AND mask))"

definition crc32_byte :: "u8 \<Rightarrow> u32 \<Rightarrow> u32" where
  "crc32_byte b crc = (crc32_bit ^^ 8) (crc XOR ucast b)"

definition crc32 :: "bytes \<Rightarrow> u32" where
  "crc32 bs = NOT (fold crc32_byte bs (- 1))"

definition TableId_of :: "bytes \<Rightarrow> TableId" where
  "TableId_of name = crc32 name"

section \<open>Commit output\<close>

record TableDiff =
  td_table_id :: TableId
  td_inserts :: "Row list"
  td_deletes :: "(PkBytes \<times> Row) list"

record TxDiff =
  diff_tx_id :: u64
  diff_tables :: "TableDiff list"
  diff_auto_inc :: "(TableId \<times> u64) list"

definition diff_is_empty :: "TxDiff \<Rightarrow> bool" where
  "diff_is_empty d = (diff_tables d = [] \<and> diff_auto_inc d = [])"

section \<open>Log records\<close>

datatype LogValue =
    LBool bool
  | LI8 u8
  | LI16 u16
  | LI32 u32
  | LI64 u64
  | LU8 u8
  | LU16 u16
  | LU32 u32
  | LU64 u64
  | LF32 u32
  | LF64 u64
  | LStr bytes
  | LBytes bytes
  | LIdentity bytes
  | LConnectionId bytes
  | LEntityId u64
  | LTimestamp u64
  | LDecimal bytes u8
  | LBlob bytes
  | LOpt "LogValue option"
  | LList "LogValue list"
  | LEnum u32 "LogValue list"
  | LStruct "LogValue list"

record TableMutation =
  tm_table_id :: u32
  tm_inserts :: "LogValue list list"
  tm_deletes :: "bytes list"

record TxRecord =
  rec_tx_id :: u64
  rec_timestamp :: u64
  rec_shard_id :: u32
  rec_mutations :: "TableMutation list"
  rec_auto_inc :: "(u32 \<times> u64) list"
  rec_caller :: bytes
  rec_reducer_name :: string

fun to_log :: "RowValue \<Rightarrow> LogValue" where
  "to_log (VBool v) = LBool v"
| "to_log (VI8 v) = LI8 v"
| "to_log (VI16 v) = LI16 v"
| "to_log (VI32 v) = LI32 v"
| "to_log (VI64 v) = LI64 v"
| "to_log (VU8 v) = LU8 v"
| "to_log (VU16 v) = LU16 v"
| "to_log (VU32 v) = LU32 v"
| "to_log (VU64 v) = LU64 v"
| "to_log (VF32 v) = LF32 v"
| "to_log (VF64 v) = LF64 v"
| "to_log (VStr v) = LStr v"
| "to_log (VBytes v) = LBytes v"
| "to_log (VIdentity v) = LIdentity v"
| "to_log (VConnectionId v) = LConnectionId (to_le_bytes v)"
| "to_log (VEntityId v) = LEntityId v"
| "to_log (VTimestamp v) = LTimestamp v"
| "to_log (VDecimal v) = LDecimal (to_le_bytes (unscaled v)) (scale v)"
| "to_log (VBlob v) = LBlob v"
| "to_log (VOptional v) = LOpt (map_option to_log v)"
| "to_log (VList items) = LList (map to_log items)"
| "to_log (VEnum tag payload) = LEnum tag (map to_log payload)"
| "to_log (VStruct items) = LStruct (map to_log items)"

fun to_row_value :: "LogValue \<Rightarrow> RowValue result" where
  "to_row_value (LBool v) = Inr (VBool v)"
| "to_row_value (LI8 v) = Inr (VI8 v)"
| "to_row_value (LI16 v) = Inr (VI16 v)"
| "to_row_value (LI32 v) = Inr (VI32 v)"
| "to_row_value (LI64 v) = Inr (VI64 v)"
| "to_row_value (LU8 v) = Inr (VU8 v)"
| "to_row_value (LU16 v) = Inr (VU16 v)"
| "to_row_value (LU32 v) = Inr (VU32 v)"
| "to_row_value (LU64 v) = Inr (VU64 v)"
| "to_row_value (LF32 v) = Inr (VF32 v)"
| "to_row_value (LF64 v) = Inr (VF64 v)"
| "to_row_value (LStr v) = Inr (VStr v)"
| "to_row_value (LBytes v) = Inr (VBytes v)"
| "to_row_value (LIdentity v) =
    (if length v = 32 then Inr (VIdentity v) else Inl (Storage ''Identity payload''))"
| "to_row_value (LConnectionId v) =
    (if length v = 16 then Inr (VConnectionId (from_le_bytes v)) else Inl (Storage ''ConnectionId payload''))"
| "to_row_value (LEntityId v) = Inr (VEntityId v)"
| "to_row_value (LTimestamp v) = Inr (VTimestamp v)"
| "to_row_value (LDecimal v s) =
    (if length v = 16 then Inr (VDecimal \<lparr>unscaled = from_le_bytes v, scale = s\<rparr>)
     else Inl (Storage ''Decimal payload''))"
| "to_row_value (LBlob v) =
    (if length v = 32 then Inr (VBlob v) else Inl (Storage ''Blob payload''))"
| "to_row_value (LOpt None) = Inr (VOptional None)"
| "to_row_value (LOpt (Some v)) = rmap (\<lambda>x. VOptional (Some x)) (to_row_value v)"
| "to_row_value (LList items) = rmap VList (try_map to_row_value items)"
| "to_row_value (LEnum tag payload) = rmap (VEnum tag) (try_map to_row_value payload)"
| "to_row_value (LStruct items) = rmap VStruct (try_map to_row_value items)"

definition row_to_log :: "Row \<Rightarrow> LogValue list" where
  "row_to_log row = map to_log row"

definition insert_rows :: "TableMutation \<Rightarrow> Row list result" where
  "insert_rows m = try_map (\<lambda>values. try_map to_row_value values) (tm_inserts m)"

definition delete_pks :: "TableMutation \<Rightarrow> bytes list" where
  "delete_pks m = tm_deletes m"

definition table_mutation :: "TableDiff \<Rightarrow> TableMutation" where
  "table_mutation t = \<lparr>tm_table_id = td_table_id t, tm_inserts = map row_to_log (td_inserts t),
    tm_deletes = map fst (td_deletes t)\<rparr>"

definition from_diff :: "TxDiff \<Rightarrow> u32 \<Rightarrow> u64 \<Rightarrow> bytes \<Rightarrow> string \<Rightarrow> TxRecord" where
  "from_diff diff shard_id timestamp caller reducer =
    \<lparr>rec_tx_id = diff_tx_id diff, rec_timestamp = timestamp, rec_shard_id = shard_id,
     rec_mutations = map table_mutation (diff_tables diff), rec_auto_inc = diff_auto_inc diff,
     rec_caller = caller, rec_reducer_name = reducer\<rparr>"

definition caller_identity :: "TxRecord \<Rightarrow> bytes" where
  "caller_identity r = (if length (rec_caller r) = 32 then rec_caller r else replicate 32 0)"

definition demo_diff :: TxDiff where
  "demo_diff = \<lparr>diff_tx_id = 3, diff_tables =
    [\<lparr>td_table_id = 9, td_inserts = [demo_row], td_deletes = [(demo_pk, demo_row')]\<rparr>],
    diff_auto_inc = [(9, 4096)]\<rparr>"

section \<open>Round trips\<close>

text \<open>The byte arrays inside a value have the width of their Rust types.\<close>

fun fixed_widths :: "RowValue \<Rightarrow> bool" where
  "fixed_widths (VIdentity v) = (length v = 32)"
| "fixed_widths (VBlob v) = (length v = 32)"
| "fixed_widths (VOptional (Some v)) = fixed_widths v"
| "fixed_widths (VList vs) = list_all fixed_widths vs"
| "fixed_widths (VEnum tag payload) = list_all fixed_widths payload"
| "fixed_widths (VStruct items) = list_all fixed_widths items"
| "fixed_widths _ = True"

lemma wf_fixed_widths: "wf_value v \<Longrightarrow> fixed_widths v"
proof (induction v)
  case (VOptional v)
  then show ?case by (cases v) auto
qed (auto simp: list_all_iff)

lemma to_row_value_to_log: "fixed_widths v \<Longrightarrow> to_row_value (to_log v) = Inr v"
proof (induction v)
  case (VOptional v)
  then show ?case by (cases v) auto
qed (auto simp: codec_simps list_all_iff try_map_map try_map_all_ok [where g = "\<lambda>x. x"])

lemma to_row_values_canonical:
  "list_all2 (\<lambda>l v. to_row_value l = Inr v) ls vs \<Longrightarrow>
   (\<And>l v. l \<in> set ls \<Longrightarrow> to_row_value l = Inr v \<Longrightarrow> l = to_log v \<and> fixed_widths v) \<Longrightarrow>
   ls = map to_log vs \<and> list_all fixed_widths vs"
  by (induction rule: list_all2_induct) auto

lemma to_row_value_canonical: "to_row_value l = Inr v \<Longrightarrow> l = to_log v \<and> fixed_widths v"
proof (induction l arbitrary: v)
  case (LOpt l)
  then show ?case by (cases l) (auto simp: rmap_eq_Inr_iff)
qed (auto simp: codec_simps rmap_eq_Inr_iff try_map_Inr_iff dest: to_row_values_canonical split: if_splits)

lemma to_row_value_iff: "to_row_value l = Inr v \<longleftrightarrow> l = to_log v \<and> fixed_widths v"
  using to_row_value_canonical to_row_value_to_log by blast

lemma row_to_log_inverse:
  "list_all fixed_widths row \<Longrightarrow> try_map to_row_value (row_to_log row) = Inr row"
  by (auto simp: row_to_log_def try_map_map to_row_value_to_log list_all_iff try_map_all_ok [where g = "\<lambda>x. x"])

lemma insert_rows_table_mutation:
  "list_all (list_all fixed_widths) (td_inserts t) \<Longrightarrow> insert_rows (table_mutation t) = Inr (td_inserts t)"
  by (auto simp: insert_rows_def table_mutation_def try_map_map row_to_log_inverse list_all_iff
    try_map_all_ok [where g = "\<lambda>x. x"])

section \<open>Properties\<close>

text \<open>
  C24: a commit survives its trip through the log.  The record built from a commit's diff carries
  the diff's transaction id and counter advances, and for every touched table its mutation gives
  back the very rows that were inserted and the very keys that were deleted.
\<close>

theorem record_preserves_diff:
  assumes "\<And>t. t \<in> set (diff_tables diff) \<Longrightarrow> list_all (list_all wf_value) (td_inserts t)"
  shows "let r = from_diff diff shard ts caller reducer in
    rec_tx_id r = diff_tx_id diff \<and> rec_auto_inc r = diff_auto_inc diff \<and>
    map tm_table_id (rec_mutations r) = map td_table_id (diff_tables diff) \<and>
    map insert_rows (rec_mutations r) = map (\<lambda>t. Inr (td_inserts t)) (diff_tables diff) \<and>
    map delete_pks (rec_mutations r) = map (\<lambda>t. map fst (td_deletes t)) (diff_tables diff)"
proof -
  have "insert_rows (table_mutation t) = Inr (td_inserts t)" if "t \<in> set (diff_tables diff)" for t
    using assms [OF that] by (intro insert_rows_table_mutation) (auto simp: list_all_iff wf_fixed_widths)
  then show ?thesis
    by (simp add: from_diff_def table_mutation_def delete_pks_def)
qed

theorem record_preserves_diff_witness:
  "map insert_rows (rec_mutations (from_diff demo_diff 1 5 [] ''transfer'')) = [Inr [demo_row]]"
  using record_preserves_diff [of demo_diff 1 5 "[]" "''transfer''"] demo_wf
  by (simp add: demo_diff_def Let_def)

end
