(* ===== verification/Tables.thy ===== *)
theory Tables
  imports KeyOrder LogRecord "HOL-Library.Product_Lexorder"
begin

text \<open>
  A table's committed contents: secondary B-tree indexes
  (\<open>src/crates/fluxum-core/src/index/btree.rs\<close>), \<open>#[unique]\<close> maps (\<open>store/unique.rs\<close>), the
  \<open>TableState\<close> with its scans and integrity check (\<open>store/committed.rs\<close>), and the per-table part of
  the commit merge and of the replicated apply (\<open>store/memstore/tx.rs\<close>, \<open>store/memstore.rs\<close>).

  A \<open>PagedTree\<close> is an ordered map from byte strings; it appears here as a sorted association list,
  and row trees hold rows in place of their self-describing page bytes.  Superseded pages are the
  business of the page reclaimer and do not appear.  Tables with spatial or full-text indexes are
  outside this theory.
\<close>

section \<open>Tree contract\<close>

text \<open>
  What the indexes rely on of a \<open>PagedTree\<close>: lookups after \<open>insert_cow\<close> and \<open>delete_cow\<close>, and a scan
  that lists in key order the entries of a range.
\<close>

locale ordered_tree =
  fixes get :: "'t \<Rightarrow> bytes \<Rightarrow> 'v option"
    and insert_cow :: "bytes \<Rightarrow> 'v \<Rightarrow> 't \<Rightarrow> 't"
    and delete_cow :: "bytes \<Rightarrow> 't \<Rightarrow> 't"
    and scan :: "bytes \<times> bytes option \<Rightarrow> 't \<Rightarrow> (bytes \<times> 'v) list"
    and wf :: "'t \<Rightarrow> bool"
  assumes wf_insert: "wf t \<Longrightarrow> wf (insert_cow k v t)"
    and wf_delete: "wf t \<Longrightarrow> wf (delete_cow k t)"
    and get_insert: "wf t \<Longrightarrow> get (insert_cow k v t) k' = (if k' = k then Some v else get t k')"
    and get_delete: "wf t \<Longrightarrow> get (delete_cow k t) k' = (if k' = k then None else get t k')"
    and scan_sorted: "wf t \<Longrightarrow> sorted_wrt (<) (map fst (scan rng t))"
    and scan_set: "wf t \<Longrightarrow> set (scan rng t) = {(k, v). get t k = Some v \<and> in_range rng k}"
begin

lemma scan_ext:
  assumes "wf t" "wf t'" "\<And>k. in_range rng k \<Longrightarrow> get t k = get t' k"
  shows "scan rng t = scan rng t'"
proof -
  have "set (scan rng t) = set (scan rng t')"
    using assms by (auto simp: scan_set)
  then show ?thesis
    using scan_sorted [OF assms(1), of rng] scan_sorted [OF assms(2), of rng]
      map_sorted_distinct_set_unique [of fst "scan rng t" "scan rng t'"]
    by (simp add: strict_sorted_iff distinct_map)
qed

lemma delete_insert:
  "wf t \<Longrightarrow> get t k = None \<Longrightarrow> scan rng (delete_cow k (insert_cow k v t)) = scan rng t"
  by (rule scan_ext) (simp_all add: wf_insert wf_delete get_insert get_delete)

lemma insert_delete:
  "wf t \<Longrightarrow> get t k = Some v \<Longrightarrow> scan rng (insert_cow k v (delete_cow k t)) = scan rng t"
  by (rule scan_ext) (simp_all add: wf_insert wf_delete get_insert get_delete)

end

definition tree_scan :: "bytes \<times> bytes option \<Rightarrow> (bytes, 'v) btree \<Rightarrow> (bytes \<times> 'v) list" where
  "tree_scan rng t = filter (\<lambda>(k, v). in_range rng k) t"

definition all_range :: "bytes \<times> bytes option" where
  "all_range = ([], None)"

interpretation paged: ordered_tree bt_get bt_insert bt_remove tree_scan bt_wf
proof unfold_locales
  show "sorted_wrt (<) (map fst (tree_scan rng t))" if "bt_wf t" for rng and t :: "(bytes, 'a) btree"
    using that by (auto simp: tree_scan_def bt_wf_def sorted_wrt_map intro: sorted_wrt_filter)
qed (auto simp: bt_get_insert bt_get_remove tree_scan_def bt_get_Some_iff)

lemma tree_scan_all [simp]: "tree_scan all_range t = t"
  by (simp add: tree_scan_def all_range_def in_range_def)

section \<open>Secondary indexes\<close>

type_synonym IndexId = u32

definition IndexId_of :: "bytes \<Rightarrow> bytes list \<Rightarrow> IndexId" where
  "IndexId_of table_name column_names = crc32 (table_name @ concat (map (\<lambda>c. 0 # c) column_names))"

record BTreeIndex =
  ix_columns :: "nat list"
  ix_tree :: "(bytes, PkBytes) btree"

definition key_of :: "nat list \<Rightarrow> Row \<Rightarrow> bytes result" where
  "key_of columns row =
    rmap concat (try_map (\<lambda>ordinal.
      rmap encode_value (ok_or (Storage ''index ordinal out of range'') (list_get row ordinal))) columns)"

definition entry_key :: "BTreeIndex \<Rightarrow> Row \<Rightarrow> PkBytes \<Rightarrow> bytes result" where
  "entry_key index row pk = rmap (\<lambda>key. key @ pk) (key_of (ix_columns index) row)"

definition index_insert :: "Row \<Rightarrow> PkBytes \<Rightarrow> BTreeIndex \<Rightarrow> BTreeIndex result" where
  "index_insert row pk index =
    rmap (\<lambda>key. index\<lparr>ix_tree := bt_insert key pk (ix_tree index)\<rparr>) (entry_key index row pk)"

definition index_remove :: "Row \<Rightarrow> PkBytes \<Rightarrow> BTreeIndex \<Rightarrow> BTreeIndex result" where
  "index_remove row pk index =
    rmap (\<lambda>key. index\<lparr>ix_tree := bt_remove key (ix_tree index)\<rparr>) (entry_key index row pk)"

definition scan_pks :: "bytes \<times> bytes option \<Rightarrow> BTreeIndex \<Rightarrow> PkBytes list" where
  "scan_pks rng index = map snd (tree_scan rng (ix_tree index))"

definition index_entries :: "BTreeIndex \<Rightarrow> (bytes \<times> PkBytes) list" where
  "index_entries index = tree_scan all_range (ix_tree index)"

section \<open>Unique maps\<close>

record UniqueIndex =
  ux_columns :: "nat list"
  ux_tree :: "(bytes, PkBytes) btree"

definition key_of_values :: "UniqueIndex \<Rightarrow> Row \<Rightarrow> bytes result" where
  "key_of_values constraint values = key_of (ux_columns constraint) values"

definition owner :: "UniqueIndex \<Rightarrow> bytes \<Rightarrow> PkBytes option" where
  "owner constraint key = bt_get (ux_tree constraint) key"

definition unique_insert :: "Row \<Rightarrow> PkBytes \<Rightarrow> UniqueIndex \<Rightarrow> UniqueIndex result" where
  "unique_insert row pk constraint =
    rbind (key_of_values constraint row) (\<lambda>key.
      case owner constraint key of
        Some existing \<Rightarrow>
          if existing \<noteq> pk then Inl (Storage ''unique key claimed'')
          else Inr (constraint\<lparr>ux_tree := bt_insert key pk (ux_tree constraint)\<rparr>)
      | None \<Rightarrow> Inr (constraint\<lparr>ux_tree := bt_insert key pk (ux_tree constraint)\<rparr>))"

definition unique_remove :: "Row \<Rightarrow> PkBytes \<Rightarrow> UniqueIndex \<Rightarrow> UniqueIndex result" where
  "unique_remove row pk constraint =
    rbind (key_of_values constraint row) (\<lambda>key.
      if owner constraint key = Some pk
      then Inr (constraint\<lparr>ux_tree := bt_remove key (ux_tree constraint)\<rparr>)
      else Inr constraint)"

definition unique_entries :: "UniqueIndex \<Rightarrow> (bytes \<times> PkBytes) list" where
  "unique_entries constraint = tree_scan all_range (ux_tree constraint)"

definition violation_error :: FluxumError where
  "violation_error = Storage ''unique constraint violation''"

section \<open>Table state\<close>

record TableState =
  tb_schema :: TableSchema
  tb_rows :: "(PkBytes, Row) btree"
  tb_row_count :: u64
  tb_indexes :: "(IndexId, BTreeIndex) btree"
  tb_unique :: "UniqueIndex list"
  tb_high_water :: u64

definition row_at :: "TableState \<Rightarrow> PkBytes \<Rightarrow> Row option" where
  "row_at t pk = bt_get (tb_rows t) pk"

definition contains_pk :: "TableState \<Rightarrow> PkBytes \<Rightarrow> bool" where
  "contains_pk t pk = (bt_get (tb_rows t) pk \<noteq> None)"

definition all_rows :: "TableState \<Rightarrow> Row list" where
  "all_rows t = map snd (tree_scan all_range (tb_rows t))"

definition put_row :: "PkBytes \<Rightarrow> Row \<Rightarrow> TableState \<Rightarrow> Row option \<times> TableState" where
  "put_row pk row t =
    (let prev = row_at t pk
     in (prev, t\<lparr>tb_rows := bt_insert pk row (tb_rows t),
       tb_row_count := (if prev = None then tb_row_count t + 1 else tb_row_count t)\<rparr>))"

definition take_row :: "PkBytes \<Rightarrow> TableState \<Rightarrow> Row option \<times> TableState" where
  "take_row pk t =
    (let prev = row_at t pk
     in (prev, if prev \<noteq> None
       then t\<lparr>tb_rows := bt_remove pk (tb_rows t), tb_row_count := sat_sub (tb_row_count t) 1\<rparr>
       else t))"

definition check_index_value :: "TableState \<Rightarrow> nat \<Rightarrow> RowValue \<Rightarrow> RowValue result" where
  "check_index_value t ordinal value =
    rbind (ok_or (Storage ''index ordinal out of range'') (schema_column (tb_schema t) ordinal)) (\<lambda>column.
      if matches_type value (cs_ty column) then Inr value else Inl (Storage ''index column type''))"

definition encode_bound :: "TableState \<Rightarrow> nat option \<Rightarrow> RowValue bound \<Rightarrow> bytes bound result" where
  "encode_bound t range_ordinal b =
    (let encode = (\<lambda>value.
       rbind (ok_or (Storage ''range bound without a range column'') range_ordinal) (\<lambda>ordinal.
         rmap encode_value (check_index_value t ordinal value)))
     in case b of
          Unbounded \<Rightarrow> Inr Unbounded
        | Included value \<Rightarrow> rmap Included (encode value)
        | Excluded value \<Rightarrow> rmap Excluded (encode value))"

definition index_scan ::
  "TableState \<Rightarrow> IndexId \<Rightarrow> RowValue list \<Rightarrow> RowValue bound \<Rightarrow> RowValue bound \<Rightarrow> Row list result" where
  "index_scan t index_id eq_values lower upper =
    rbind (ok_or (Storage ''unknown index'') (bt_get (tb_indexes t) index_id)) (\<lambda>index.
      let columns = ix_columns index in
      if length eq_values > length columns then Inl (Storage ''scan prefix too long'')
      else rbind (try_map (\<lambda>(value, ordinal). rmap encode_value (check_index_value t ordinal value))
          (zip eq_values columns)) (\<lambda>parts.
        if \<not> (lower = Unbounded \<and> upper = Unbounded) \<and> length eq_values = length columns
        then Inl (Storage ''range bounds past the index columns'')
        else let range_ordinal = list_get columns (length eq_values) in
          rbind (encode_bound t range_ordinal lower) (\<lambda>lo.
          rbind (encode_bound t range_ordinal upper) (\<lambda>hi.
            Inr (List.map_filter (row_at t) (scan_pks (plan_scan (concat parts) lo hi) index))))))"

definition verify_index_integrity :: "TableState \<Rightarrow> unit result" where
  "verify_index_integrity t =
    (let rows = tree_scan all_range (tb_rows t) in
     rbind (try_map (\<lambda>(index_id, index).
         rbind (try_map (\<lambda>(pk, row). rmap (\<lambda>key. (key, pk)) (entry_key index row pk)) rows) (\<lambda>expected.
           if index_entries index = sort expected then Inr ()
           else Inl (Storage ''index diverged''))) (tb_indexes t)) (\<lambda>_.
     rbind (try_map (\<lambda>constraint.
         rbind (try_map (\<lambda>(pk, row). rmap (\<lambda>key. (key, pk)) (key_of_values constraint row)) rows) (\<lambda>expected.
           if unique_entries constraint = sort expected then Inr ()
           else Inl (Storage ''unique map diverged''))) (tb_unique t)) (\<lambda>_. Inr ())))"

section \<open>Merging\<close>

datatype PendingOp = Insert Row | Delete | Update Row

definition invariant_missing_row :: FluxumError where
  "invariant_missing_row = Storage ''op for pk absent from CommittedState''"

text \<open>\<open>for constraint in &mut table.unique\<close> and \<open>for index in table.indexes.values_mut()\<close>.\<close>

definition each_unique :: "(UniqueIndex \<Rightarrow> UniqueIndex result) \<Rightarrow> TableState \<Rightarrow> TableState result" where
  "each_unique f t = rmap (\<lambda>us. t\<lparr>tb_unique := us\<rparr>) (try_map f (tb_unique t))"

definition each_index :: "(BTreeIndex \<Rightarrow> BTreeIndex result) \<Rightarrow> TableState \<Rightarrow> TableState result" where
  "each_index f t =
    rmap (\<lambda>ixs. t\<lparr>tb_indexes := ixs\<rparr>) (try_map (\<lambda>(index_id, index). rmap (Pair index_id) (f index)) (tb_indexes t))"

text \<open>The first pass of the commit merge releases every vacated unique value.\<close>

definition release_op :: "PkBytes \<times> PendingOp \<Rightarrow> TableState \<Rightarrow> TableState result" where
  "release_op = (\<lambda>(pk, op) t.
    case op of
      Insert _ \<Rightarrow> Inr t
    | _ \<Rightarrow> rbind (ok_or invariant_missing_row (row_at t pk)) (\<lambda>old. each_unique (unique_remove old pk) t))"

text \<open>The second pass updates rows and indexes together and claims the new unique values.\<close>

definition merge_op ::
  "PkBytes \<times> PendingOp \<Rightarrow> TableState \<times> Row list \<times> (PkBytes \<times> Row) list \<Rightarrow>
   (TableState \<times> Row list \<times> (PkBytes \<times> Row) list) result" where
  "merge_op = (\<lambda>(pk, op) (t, inserts, deletes).
    case op of
      Insert row \<Rightarrow>
        rbind (each_index (index_insert row pk) t) (\<lambda>t.
        rbind (each_unique (unique_insert row pk) t) (\<lambda>t.
          Inr (snd (put_row pk row t), inserts @ [row], deletes)))
    | Delete \<Rightarrow>
        (let (prev, t) = take_row pk t in
         rbind (ok_or invariant_missing_row prev) (\<lambda>old.
         rbind (each_index (index_remove old pk) t) (\<lambda>t.
           Inr (t, inserts, deletes @ [(pk, old)]))))
    | Update row \<Rightarrow>
        (let (prev, t) = put_row pk row t in
         rbind (ok_or invariant_missing_row prev) (\<lambda>old.
         rbind (each_index (\<lambda>index. rbind (index_remove old pk index) (index_insert row pk)) t) (\<lambda>t.
         rbind (each_unique (unique_insert row pk) t) (\<lambda>t.
           Inr (t, inserts @ [row], deletes @ [(pk, old)]))))))"

definition merge_table ::
  "TableId \<Rightarrow> (PkBytes, PendingOp) btree \<Rightarrow> TableState \<Rightarrow> (TableState \<times> TableDiff) result" where
  "merge_table table_id ops t =
    rbind (try_fold release_op ops t) (\<lambda>t.
    rbind (try_fold merge_op ops (t, [], [])) (\<lambda>(t, inserts, deletes).
      Inr (t, \<lparr>td_table_id = table_id, td_inserts = inserts, td_deletes = deletes\<rparr>)))"

text \<open>
  The same maintenance where the rows arrive from another node: deletes first, each tolerating a
  missing row, then upserts.
\<close>

definition retire_entries :: "Row \<Rightarrow> PkBytes \<Rightarrow> TableState \<Rightarrow> TableState result" where
  "retire_entries existing pk t =
    rbind (each_unique (unique_remove existing pk) t) (each_index (index_remove existing pk))"

definition apply_delete ::
  "PkBytes \<Rightarrow> TableState \<times> (PkBytes \<times> Row) list \<Rightarrow> (TableState \<times> (PkBytes \<times> Row) list) result" where
  "apply_delete pk = (\<lambda>(t, deletes).
    let (prev, t) = take_row pk t in
    case prev of
      None \<Rightarrow> Inr (t, deletes)
    | Some existing \<Rightarrow> rmap (\<lambda>t. (t, deletes @ [(pk, existing)])) (retire_entries existing pk t))"

definition apply_insert :: "TableSchema \<Rightarrow> Row \<Rightarrow> TableState \<Rightarrow> TableState result" where
  "apply_insert schema row t =
    rbind (encode_pk_of_row schema row) (\<lambda>pk.
      let (prev, t) = put_row pk row t in
      rbind (case prev of None \<Rightarrow> Inr t | Some existing \<Rightarrow> retire_entries existing pk t) (\<lambda>t.
      rbind (each_index (index_insert row pk) t) (each_unique (unique_insert row pk))))"

section \<open>Keys of rows\<close>

text \<open>The rows a secondary structure reflects, by primary key.\<close>

type_synonym claims = "PkBytes \<Rightarrow> Row option"

definition columns_of :: "nat list \<Rightarrow> Row \<Rightarrow> RowValue list" where
  "columns_of columns row = map ((!) row) columns"

definition columns_key :: "nat list \<Rightarrow> Row \<Rightarrow> bytes" where
  "columns_key columns row = encode_tuple (columns_of columns row)"

definition column_types :: "TableSchema \<Rightarrow> nat list \<Rightarrow> FluxType list" where
  "column_types schema columns = map (\<lambda>i. cs_ty (ts_columns schema ! i)) columns"

definition typed_on :: "TableSchema \<Rightarrow> nat list \<Rightarrow> Row \<Rightarrow> bool" where
  "typed_on schema columns row =
    (\<forall>ordinal\<in>set columns. ordinal < length row \<and> ordinal < length (ts_columns schema) \<and>
      key_value (cs_ty (ts_columns schema ! ordinal)) (row ! ordinal))"

lemma key_of_columns: "typed_on schema columns row \<Longrightarrow> key_of columns row = Inr (columns_key columns row)"
proof -
  assume "typed_on schema columns row"
  then have "try_map (\<lambda>ordinal. rmap encode_value (ok_or e (list_get row ordinal))) columns =
      Inr (map (\<lambda>i. encode_value (row ! i)) columns)" for e :: FluxumError
    by (intro try_map_all_ok) (auto simp: typed_on_def list_get_def)
  then show ?thesis
    by (simp add: key_of_def columns_key_def encode_tuple_def columns_of_def comp_def)
qed

lemma typed_on_tuple:
  "typed_on schema columns row \<Longrightarrow> key_tuple (column_types schema columns) (columns_of columns row)"
  by (auto simp: typed_on_def key_tuple_def column_types_def columns_of_def list_all2_conv_all_nth)

lemma columns_key_append_inj:
  assumes "typed_on schema columns row" "typed_on schema columns row'"
    and "columns_key columns row @ pk = columns_key columns row' @ pk'"
  shows "columns_of columns row = columns_of columns row' \<and> pk = pk'"
  using tuple_parse [OF typed_on_tuple [OF assms(1)] typed_on_tuple [OF assms(2)]] assms(3)
  by (simp add: columns_key_def)

lemma typed_on_subset: "typed_on schema columns row \<Longrightarrow> set columns' \<subseteq> set columns \<Longrightarrow> typed_on schema columns' row"
  by (auto simp: typed_on_def)

section \<open>Maintained structures\<close>

lemma try_map_each:
  "\<forall>x\<in>set xs. \<exists>y. f x = Inr y \<and> P y \<and> s y = s x \<Longrightarrow>
   \<exists>ys. try_map f xs = Inr ys \<and> (\<forall>y\<in>set ys. P y) \<and> map s ys = map s xs"
proof (induction xs)
  case (Cons x xs)
  obtain y where y: "f x = Inr y" "P y" "s y = s x" using Cons.prems by auto
  obtain ys where "try_map f xs = Inr ys" "\<forall>y\<in>set ys. P y" "map s ys = map s xs"
    using Cons by auto
  then have "try_map f (x # xs) = Inr (y # ys) \<and> (\<forall>y\<in>set (y # ys). P y) \<and> map s (y # ys) = map s (x # xs)"
    using y by simp
  then show ?case by blast
qed simp

text \<open>
  The contract the merge relies on: a structure that reflects a set of claims reflects the claims
  with one row added after \<open>put\<close>, provided the row fits, and with one row less after \<open>drop\<close>.
\<close>

locale maintained =
  fixes holds :: "'x \<Rightarrow> claims \<Rightarrow> bool"
    and fits :: "'x \<Rightarrow> claims \<Rightarrow> PkBytes \<Rightarrow> Row \<Rightarrow> bool"
    and put :: "Row \<Rightarrow> PkBytes \<Rightarrow> 'x \<Rightarrow> 'x result"
    and drop :: "Row \<Rightarrow> PkBytes \<Rightarrow> 'x \<Rightarrow> 'x result"
    and shape :: "'x \<Rightarrow> 's"
  assumes put_ok: "holds x C \<Longrightarrow> C pk = None \<Longrightarrow> fits x C pk row \<Longrightarrow>
      \<exists>x'. put row pk x = Inr x' \<and> holds x' (C(pk \<mapsto> row)) \<and> shape x' = shape x"
    and drop_ok: "holds x C \<Longrightarrow> C pk = Some row \<Longrightarrow>
      \<exists>x'. drop row pk x = Inr x' \<and> holds x' (C(pk := None)) \<and> shape x' = shape x"
    and fits_shape: "shape x = shape y \<Longrightarrow> fits x C pk row = fits y C pk row"
begin

lemma put_all:
  "\<forall>x\<in>set xs. holds x C \<and> fits x C pk row \<Longrightarrow> C pk = None \<Longrightarrow>
   \<exists>xs'. try_map (put row pk) xs = Inr xs' \<and> (\<forall>x\<in>set xs'. holds x (C(pk \<mapsto> row))) \<and> map shape xs' = map shape xs"
  using put_ok by (intro try_map_each) blast

lemma drop_all:
  "\<forall>x\<in>set xs. holds x C \<Longrightarrow> C pk = Some row \<Longrightarrow>
   \<exists>xs'. try_map (drop row pk) xs = Inr xs' \<and> (\<forall>x\<in>set xs'. holds x (C(pk := None))) \<and> map shape xs' = map shape xs"
  using drop_ok by (intro try_map_each) blast

lemma swap_ok:
  assumes "holds x C" "C pk = Some old" "fits x (C(pk := None)) pk row"
  shows "\<exists>x'. rbind (drop old pk x) (put row pk) = Inr x' \<and> holds x' (C(pk \<mapsto> row)) \<and> shape x' = shape x"
proof -
  obtain y where y: "drop old pk x = Inr y" "holds y (C(pk := None))" "shape y = shape x"
    using drop_ok [OF assms(1, 2)] by blast
  have "fits y (C(pk := None)) pk row" using assms(3) fits_shape [OF y(3)] by simp
  then show ?thesis using put_ok [OF y(2), of pk row] y by auto
qed

lemma swap_all:
  "\<forall>x\<in>set xs. holds x C \<and> fits x (C(pk := None)) pk row \<Longrightarrow> C pk = Some old \<Longrightarrow>
   \<exists>xs'. try_map (\<lambda>x. rbind (drop old pk x) (put row pk)) xs = Inr xs' \<and>
     (\<forall>x\<in>set xs'. holds x (C(pk \<mapsto> row))) \<and> map shape xs' = map shape xs"
  using swap_ok by (intro try_map_each) blast

end

definition index_holds :: "TableSchema \<Rightarrow> IndexId \<times> BTreeIndex \<Rightarrow> claims \<Rightarrow> bool" where
  "index_holds schema = (\<lambda>(index_id, index) C.
    bt_wf (ix_tree index) \<and>
    (\<forall>pk row. C pk = Some row \<longrightarrow> typed_on schema (ix_columns index) row) \<and>
    (\<forall>k pk. bt_get (ix_tree index) k = Some pk \<longleftrightarrow>
      (\<exists>row. C pk = Some row \<and> k = columns_key (ix_columns index) row @ pk)))"

definition index_fits :: "TableSchema \<Rightarrow> IndexId \<times> BTreeIndex \<Rightarrow> claims \<Rightarrow> PkBytes \<Rightarrow> Row \<Rightarrow> bool" where
  "index_fits schema = (\<lambda>(index_id, index) C pk row. typed_on schema (ix_columns index) row)"

definition index_shape :: "IndexId \<times> BTreeIndex \<Rightarrow> IndexId \<times> nat list" where
  "index_shape = (\<lambda>(index_id, index). (index_id, ix_columns index))"

definition slot_op :: "(BTreeIndex \<Rightarrow> BTreeIndex result) \<Rightarrow> IndexId \<times> BTreeIndex \<Rightarrow> (IndexId \<times> BTreeIndex) result" where
  "slot_op f = (\<lambda>(index_id, index). rmap (Pair index_id) (f index))"

definition unique_holds :: "TableSchema \<Rightarrow> UniqueIndex \<Rightarrow> claims \<Rightarrow> bool" where
  "unique_holds schema constraint C =
    (bt_wf (ux_tree constraint) \<and>
    (\<forall>pk row. C pk = Some row \<longrightarrow> typed_on schema (ux_columns constraint) row) \<and>
    (\<forall>k pk. bt_get (ux_tree constraint) k = Some pk \<longleftrightarrow>
      (\<exists>row. C pk = Some row \<and> k = columns_key (ux_columns constraint) row)))"

definition unclaimed :: "nat list \<Rightarrow> claims \<Rightarrow> PkBytes \<Rightarrow> Row \<Rightarrow> bool" where
  "unclaimed columns C pk row =
    (\<forall>pk' row'. C pk' = Some row' \<longrightarrow> pk' \<noteq> pk \<longrightarrow> columns_key columns row' \<noteq> columns_key columns row)"

definition unique_fits :: "TableSchema \<Rightarrow> UniqueIndex \<Rightarrow> claims \<Rightarrow> PkBytes \<Rightarrow> Row \<Rightarrow> bool" where
  "unique_fits schema constraint C pk row =
    (typed_on schema (ux_columns constraint) row \<and> unclaimed (ux_columns constraint) C pk row)"

interpretation slots: maintained "index_holds schema" "index_fits schema"
    "\<lambda>row pk. slot_op (index_insert row pk)" "\<lambda>row pk. slot_op (index_remove row pk)" index_shape for schema
proof unfold_locales
  fix x :: "IndexId \<times> BTreeIndex" and C :: claims and pk row
  obtain i ix where x: "x = (i, ix)" by (cases x)
  {
    assume h: "index_holds schema x C" and n: "C pk = None" and f: "index_fits schema x C pk row"
    let ?k = "columns_key (ix_columns ix) row @ pk"
    let ?y = "(i, ix\<lparr>ix_tree := bt_insert ?k pk (ix_tree ix)\<rparr>)"
    have typed: "typed_on schema (ix_columns ix) row" using f by (simp add: x index_fits_def)
    have other: "?k = columns_key (ix_columns ix) row' @ pk' \<longrightarrow> pk' = pk" if "C pk' = Some row'" for pk' row'
      using h that columns_key_append_inj [OF typed, of row' pk pk'] by (auto simp: x index_holds_def)
    have "slot_op (index_insert row pk) x = Inr ?y"
      by (simp add: x slot_op_def index_insert_def entry_key_def key_of_columns [OF typed])
    moreover have "index_holds schema ?y (C(pk \<mapsto> row))"
      using h n typed other by (auto simp: x index_holds_def bt_get_insert split: if_splits)
    moreover have "index_shape ?y = index_shape x" by (simp add: x index_shape_def)
    ultimately show "\<exists>x'. slot_op (index_insert row pk) x = Inr x' \<and> index_holds schema x' (C(pk \<mapsto> row)) \<and>
        index_shape x' = index_shape x" by blast
  }
  {
    assume h: "index_holds schema x C" and n: "C pk = Some row"
    let ?k = "columns_key (ix_columns ix) row @ pk"
    let ?y = "(i, ix\<lparr>ix_tree := bt_remove ?k (ix_tree ix)\<rparr>)"
    have typed: "typed_on schema (ix_columns ix) row" using h n by (simp add: x index_holds_def)
    have other: "?k = columns_key (ix_columns ix) row' @ pk' \<longrightarrow> pk' = pk" if "C pk' = Some row'" for pk' row'
      using h that columns_key_append_inj [OF typed, of row' pk pk'] by (auto simp: x index_holds_def)
    have "slot_op (index_remove row pk) x = Inr ?y"
      by (simp add: x slot_op_def index_remove_def entry_key_def key_of_columns [OF typed])
    moreover have "index_holds schema ?y (C(pk := None))"
      using h n other by (auto simp: x index_holds_def bt_get_remove split: if_splits)
    moreover have "index_shape ?y = index_shape x" by (simp add: x index_shape_def)
    ultimately show "\<exists>x'. slot_op (index_remove row pk) x = Inr x' \<and> index_holds schema x' (C(pk := None)) \<and>
        index_shape x' = index_shape x" by blast
  }
qed (auto simp: index_fits_def index_shape_def split: prod.splits)

interpretation constraints: maintained "unique_holds schema" "unique_fits schema" unique_insert unique_remove ux_columns for schema
proof unfold_locales
  fix x :: UniqueIndex and C :: claims and pk row
  let ?k = "columns_key (ux_columns x) row"
  {
    assume h: "unique_holds schema x C" and n: "C pk = None" and f: "unique_fits schema x C pk row"
    let ?y = "x\<lparr>ux_tree := bt_insert ?k pk (ux_tree x)\<rparr>"
    have typed: "typed_on schema (ux_columns x) row" using f by (simp add: unique_fits_def)
    have free: "C pk' = Some row' \<Longrightarrow> columns_key (ux_columns x) row' = ?k \<Longrightarrow> False" for pk' row'
      using f n unfolding unique_fits_def unclaimed_def by (cases "pk' = pk") auto
    have none: "bt_get (ux_tree x) ?k = None"
    proof (cases "bt_get (ux_tree x) ?k")
      case (Some pk')
      then obtain row' where "C pk' = Some row'" "?k = columns_key (ux_columns x) row'"
        using h by (auto simp: unique_holds_def)
      then show ?thesis using free [of pk' row'] by simp
    qed
    have "unique_insert row pk x = Inr ?y"
      by (simp add: unique_insert_def key_of_values_def key_of_columns [OF typed] owner_def none)
    moreover have "unique_holds schema ?y (C(pk \<mapsto> row))"
      using h n typed by (auto simp: unique_holds_def bt_get_insert dest: free [OF _ sym])
    ultimately show "\<exists>x'. unique_insert row pk x = Inr x' \<and> unique_holds schema x' (C(pk \<mapsto> row)) \<and>
        ux_columns x' = ux_columns x" by (intro exI [of _ ?y]) simp
  }
  {
    assume h: "unique_holds schema x C" and n: "C pk = Some row"
    let ?y = "x\<lparr>ux_tree := bt_remove ?k (ux_tree x)\<rparr>"
    have typed: "typed_on schema (ux_columns x) row" using h n by (simp add: unique_holds_def)
    have own: "bt_get (ux_tree x) ?k = Some pk" using h n by (auto simp: unique_holds_def)
    have uniq: "pk' = pk" if "C pk' = Some row'" "columns_key (ux_columns x) row' = ?k" for pk' row'
    proof -
      have "bt_get (ux_tree x) ?k = Some pk'" using h that by (auto simp: unique_holds_def)
      then show ?thesis using own by simp
    qed
    have "unique_remove row pk x = Inr ?y"
      by (simp add: unique_remove_def key_of_values_def key_of_columns [OF typed] owner_def own)
    moreover have "unique_holds schema ?y (C(pk := None))"
      using h n by (auto simp: unique_holds_def bt_get_remove dest: uniq [OF _ sym])
    ultimately show "\<exists>x'. unique_remove row pk x = Inr x' \<and> unique_holds schema x' (C(pk := None)) \<and>
        ux_columns x' = ux_columns x" by (intro exI [of _ ?y]) simp
  }
qed (auto simp: unique_fits_def)

section \<open>The table invariant\<close>

definition table_shape :: "TableState \<Rightarrow> TableSchema \<times> (IndexId \<times> nat list) list \<times> nat list list" where
  "table_shape t = (tb_schema t, map index_shape (tb_indexes t), map ux_columns (tb_unique t))"

definition key_columns :: "TableState \<Rightarrow> nat list" where
  "key_columns t = (case table_shape t of (schema, slots, uniques) \<Rightarrow>
    ts_primary_key schema @ concat (map snd slots) @ concat uniques)"

definition row_ok :: "TableState \<Rightarrow> PkBytes \<Rightarrow> Row \<Rightarrow> bool" where
  "row_ok t pk row =
    (encode_pk_of_row (tb_schema t) row = Inr pk \<and> typed_on (tb_schema t) (key_columns t) row)"

text \<open>
  Every row sits at its own key with well-typed key columns, every index reflects the rows, and
  every unique map reflects the claims \<open>U\<close>; between the two merge passes \<open>U\<close> misses the rows
  that are about to change.
\<close>

definition table_inv :: "TableState \<Rightarrow> claims \<Rightarrow> bool" where
  "table_inv t U =
    (bt_wf (tb_rows t) \<and>
     (\<forall>pk row. row_at t pk = Some row \<longrightarrow> row_ok t pk row) \<and>
     (\<forall>x\<in>set (tb_indexes t). index_holds (tb_schema t) x (row_at t)) \<and>
     (\<forall>u\<in>set (tb_unique t). unique_holds (tb_schema t) u U))"

definition table_wf :: "TableState \<Rightarrow> bool" where
  "table_wf t = table_inv t (row_at t)"

definition counted :: "TableState \<Rightarrow> bool" where
  "counted t = (unat (tb_row_count t) = length (tb_rows t))"

definition inj_claims :: "nat list \<Rightarrow> claims \<Rightarrow> bool" where
  "inj_claims columns C = (\<forall>pk row. C pk = Some row \<longrightarrow> unclaimed columns C pk row)"

definition op_row :: "PendingOp \<Rightarrow> Row option" where
  "op_row op = (case op of Insert row \<Rightarrow> Some row | Delete \<Rightarrow> None | Update row \<Rightarrow> Some row)"

definition overlay :: "claims \<Rightarrow> (PkBytes, PendingOp) btree \<Rightarrow> claims" where
  "overlay C ops = (\<lambda>pk. case bt_get ops pk of None \<Rightarrow> C pk | Some op \<Rightarrow> op_row op)"

definition op_ok :: "TableState \<Rightarrow> PkBytes \<Rightarrow> PendingOp \<Rightarrow> bool" where
  "op_ok t pk op =
    (case op of
       Insert row \<Rightarrow> row_at t pk = None \<and> row_ok t pk row
     | Delete \<Rightarrow> row_at t pk \<noteq> None
     | Update row \<Rightarrow> row_at t pk \<noteq> None \<and> row_ok t pk row)"

definition ops_ok :: "TableState \<Rightarrow> (PkBytes, PendingOp) btree \<Rightarrow> bool" where
  "ops_ok t ops =
    (bt_wf ops \<and> (\<forall>(pk, op)\<in>set ops. op_ok t pk op) \<and>
     (\<forall>u\<in>set (tb_unique t). inj_claims (ux_columns u) (overlay (row_at t) ops)))"

definition ops_inserts :: "(PkBytes \<times> PendingOp) list \<Rightarrow> Row list" where
  "ops_inserts ops = List.map_filter (\<lambda>(pk, op). op_row op) ops"

definition ops_deletes :: "claims \<Rightarrow> (PkBytes \<times> PendingOp) list \<Rightarrow> (PkBytes \<times> Row) list" where
  "ops_deletes C ops = List.map_filter (\<lambda>(pk, op). map_option (Pair pk) (C pk)) ops"

lemma row_ok_shape: "table_shape t = table_shape t' \<Longrightarrow> row_ok t = row_ok t'"
  by (intro ext) (simp add: row_ok_def key_columns_def, simp add: table_shape_def)

lemma unique_columns_typed:
  "row_ok t pk row \<Longrightarrow> u \<in> set (tb_unique t) \<Longrightarrow> typed_on (tb_schema t) (ux_columns u) row"
  by (rule typed_on_subset) (auto simp: row_ok_def key_columns_def table_shape_def)

lemma index_columns_typed:
  assumes "row_ok t pk row" "x \<in> set (tb_indexes t)"
  shows "typed_on (tb_schema t) (ix_columns (snd x)) row"
proof (rule typed_on_subset)
  show "typed_on (tb_schema t) (key_columns t) row" using assms by (simp add: row_ok_def)
  have "ix_columns (snd x) = snd (index_shape x)" by (cases x) (simp add: index_shape_def)
  then show "set (ix_columns (snd x)) \<subseteq> set (key_columns t)"
    using assms(2) by (auto simp: key_columns_def table_shape_def)
qed

lemma overlay_Cons:
  "pk \<notin> fst ` set ops \<Longrightarrow> overlay C ((pk, op) # ops) = overlay (C(pk := op_row op)) ops"
  by (rule ext) (auto simp: overlay_def bt_get_None_iff [symmetric] split: option.splits)

lemma overlay_Nil [simp]: "overlay C [] = C"
  by (rule ext) (simp add: overlay_def)

lemma overlay_above:
  "C pk = Some row \<Longrightarrow> \<forall>(pk, op)\<in>set ops. C pk = None \<Longrightarrow> overlay C ops pk = Some row"
  by (auto simp: overlay_def bt_get_def split: option.splits dest!: map_of_SomeD)

lemma row_at_put [simp]: "row_at (snd (put_row pk row t)) = (row_at t)(pk \<mapsto> row)"
  by (rule ext) (simp add: row_at_def put_row_def Let_def bt_get_insert)

lemma row_at_take: "bt_wf (tb_rows t) \<Longrightarrow> row_at (snd (take_row pk t)) = (row_at t)(pk := None)"
  by (rule ext) (auto simp: row_at_def take_row_def Let_def bt_get_remove)

lemma fst_put_take [simp]: "fst (put_row pk row t) = row_at t pk" "fst (take_row pk t) = row_at t pk"
  by (simp_all add: put_row_def take_row_def Let_def)

lemma counted_put:
  assumes "counted t" "bt_wf (tb_rows t)" "length (tb_rows t) + 1 < 2 ^ 64"
  shows "counted (snd (put_row pk row t))"
proof -
  have "unat (tb_row_count t + 1) = unat (tb_row_count t) + 1"
    using assms by (simp add: counted_def unat_word_ariths)
  then show ?thesis
    using assms by (auto simp: counted_def put_row_def Let_def row_at_def length_bt_insert)
qed

lemma counted_take: "counted t \<Longrightarrow> counted (snd (take_row pk t))"
  by (auto simp: counted_def take_row_def Let_def row_at_def length_bt_remove unat_sat_sub)

lemma take_length: "length (tb_rows (snd (take_row pk t))) \<le> length (tb_rows t)"
  by (auto simp: take_row_def Let_def length_bt_remove)

lemma put_length: "bt_wf (tb_rows t) \<Longrightarrow> length (tb_rows (snd (put_row pk row t))) \<le> length (tb_rows t) + 1"
  by (auto simp: put_row_def Let_def length_bt_insert)

section \<open>The merge keeps the invariant\<close>

lemma each_index_slot: "each_index f t = rmap (\<lambda>ixs. t\<lparr>tb_indexes := ixs\<rparr>) (try_map (slot_op f) (tb_indexes t))"
  by (simp add: each_index_def slot_op_def)

lemma slot_op_bind: "slot_op (\<lambda>index. rbind (f index) g) = (\<lambda>x. rbind (slot_op f x) (slot_op g))"
proof (rule ext)
  fix x :: "IndexId \<times> BTreeIndex"
  show "slot_op (\<lambda>index. rbind (f index) g) x = rbind (slot_op f x) (slot_op g)"
    by (cases x; cases "f (snd x)") (auto simp: slot_op_def rmap_def)
qed

lemma release_op_ok:
  assumes "\<forall>u\<in>set (tb_unique t). unique_holds (tb_schema t) u U"
    and "\<nexists>row. op = Insert row" "row_at t pk = Some old" "U pk = Some old"
  shows "\<exists>us. release_op (pk, op) t = Inr (t\<lparr>tb_unique := us\<rparr>) \<and> map ux_columns us = map ux_columns (tb_unique t) \<and>
    (\<forall>u\<in>set us. unique_holds (tb_schema t) u (U(pk := None)))"
proof -
  obtain us where "try_map (unique_remove old pk) (tb_unique t) = Inr us"
    "\<forall>u\<in>set us. unique_holds (tb_schema t) u (U(pk := None))" "map ux_columns us = map ux_columns (tb_unique t)"
    using constraints.drop_all [OF assms(1, 4)] by blast
  then show ?thesis
    using assms(2, 3) by (cases op) (auto simp: release_op_def each_unique_def)
qed

definition released :: "claims \<Rightarrow> (PkBytes \<times> PendingOp) list \<Rightarrow> claims" where
  "released U ops = (\<lambda>pk. if \<exists>op. (pk, op) \<in> set ops \<and> (\<nexists>row. op = Insert row) then None else U pk)"

lemma release_all:
  assumes "distinct (map fst ops)" "\<forall>u\<in>set (tb_unique t). unique_holds (tb_schema t) u U"
    and "\<forall>(pk, op)\<in>set ops. (\<exists>row. op = Insert row) \<or> (\<exists>old. row_at t pk = Some old \<and> U pk = Some old)"
  shows "\<exists>us. try_fold release_op ops t = Inr (t\<lparr>tb_unique := us\<rparr>) \<and> map ux_columns us = map ux_columns (tb_unique t) \<and>
    (\<forall>u\<in>set us. unique_holds (tb_schema t) u (released U ops))"
  using assms
proof (induction ops arbitrary: t U)
  case Nil
  have "t = t\<lparr>tb_unique := tb_unique t\<rparr>" by simp
  then show ?case using Nil by (intro exI [of _ "tb_unique t"]) (simp add: released_def)
next
  case (Cons p ops)
  obtain pk op where p: "p = (pk, op)" by (cases p)
  show ?case
  proof (cases "\<exists>row. op = Insert row")
    case True
    then have "release_op p t = Inr t" by (auto simp: p release_op_def)
    moreover have "released U (p # ops) = released U ops"
      using True by (intro ext) (auto simp: released_def p)
    ultimately show ?thesis using Cons.IH [of t U] Cons.prems by auto
  next
    case False
    then obtain old where old: "row_at t pk = Some old" "U pk = Some old" using Cons.prems(3) by (auto simp: p)
    obtain us where us: "release_op p t = Inr (t\<lparr>tb_unique := us\<rparr>)" "map ux_columns us = map ux_columns (tb_unique t)"
      "\<forall>u\<in>set us. unique_holds (tb_schema t) u (U(pk := None))"
      using release_op_ok [OF Cons.prems(2) False old] by (auto simp: p)
    let ?t = "t\<lparr>tb_unique := us\<rparr>"
    have d: "distinct (map fst ops)" using Cons.prems(1) by simp
    have h: "\<forall>u\<in>set (tb_unique ?t). unique_holds (tb_schema ?t) u (U(pk := None))" using us(3) by simp
    have "\<forall>(pk', op)\<in>set ops. (\<exists>row. op = Insert row) \<or> (\<exists>old. row_at ?t pk' = Some old \<and> (U(pk := None)) pk' = Some old)"
      using Cons.prems(1, 3) by (force simp: p row_at_def)
    from Cons.IH [OF d h this] obtain us' where us': "try_fold release_op ops ?t = Inr (?t\<lparr>tb_unique := us'\<rparr>)"
      "map ux_columns us' = map ux_columns (tb_unique ?t)"
      "\<forall>u\<in>set us'. unique_holds (tb_schema ?t) u (released (U(pk := None)) ops)"
      by blast
    have "released (U(pk := None)) ops = released U (p # ops)"
      using False by (intro ext) (auto simp: released_def p)
    then show ?thesis using us us' by (intro exI [of _ us']) simp
  qed
qed

text \<open>What one step of the second pass does to rows, claims and bookkeeping.\<close>

definition merged :: "TableState \<Rightarrow> claims \<Rightarrow> claims \<Rightarrow> nat \<Rightarrow> TableState \<Rightarrow> bool" where
  "merged t U C n t' =
    (table_inv t' U \<and> row_at t' = C \<and> table_shape t' = table_shape t \<and> tb_high_water t' = tb_high_water t \<and>
     length (tb_rows t') \<le> length (tb_rows t) + n \<and>
     (counted t \<and> length (tb_rows t) + n < 2 ^ 64 \<longrightarrow> counted t'))"

lemma merged_trans: "merged t U C m t' \<Longrightarrow> merged t' U' C' n t'' \<Longrightarrow> merged t U' C' (m + n) t''"
  by (auto simp: merged_def)

lemma shape_put_take [simp]:
  "tb_schema (snd (put_row pk row t)) = tb_schema t" "tb_indexes (snd (put_row pk row t)) = tb_indexes t"
  "tb_unique (snd (put_row pk row t)) = tb_unique t" "tb_high_water (snd (put_row pk row t)) = tb_high_water t"
  "tb_schema (snd (take_row pk t)) = tb_schema t" "tb_indexes (snd (take_row pk t)) = tb_indexes t"
  "tb_unique (snd (take_row pk t)) = tb_unique t" "tb_high_water (snd (take_row pk t)) = tb_high_water t"
  by (simp_all add: put_row_def take_row_def Let_def)

lemma wf_put_take [simp]:
  "bt_wf (tb_rows t) \<Longrightarrow> bt_wf (tb_rows (snd (put_row pk row t)))"
  "bt_wf (tb_rows t) \<Longrightarrow> bt_wf (tb_rows (snd (take_row pk t)))"
  by (simp_all add: put_row_def take_row_def Let_def)

text \<open>A table whose rows come from \<open>r\<close> and whose structures are \<open>ixs\<close> and \<open>us\<close>.\<close>

lemma merged_step:
  assumes "table_inv t U0" "bt_wf (tb_rows r)" "row_at r = C" "tb_schema r = tb_schema t" "tb_high_water r = tb_high_water t"
    and "length (tb_rows r) \<le> length (tb_rows t) + n" "counted t \<and> length (tb_rows t) + n < 2 ^ 64 \<longrightarrow> counted r"
    and "map index_shape ixs = map index_shape (tb_indexes t)" "map ux_columns us = map ux_columns (tb_unique t)"
    and "\<forall>x\<in>set ixs. index_holds (tb_schema t) x C" "\<forall>u\<in>set us. unique_holds (tb_schema t) u U"
    and "\<And>pk row. C pk = Some row \<Longrightarrow> row_ok t pk row"
  shows "merged t U C n (r\<lparr>tb_indexes := ixs, tb_unique := us\<rparr>)"
proof -
  let ?t = "r\<lparr>tb_indexes := ixs, tb_unique := us\<rparr>"
  have sh: "table_shape ?t = table_shape t" using assms by (simp add: table_shape_def)
  have "row_at ?t = C" "counted ?t = counted r" using assms(3) by (auto simp: row_at_def fun_eq_iff counted_def)
  then show ?thesis
    using assms sh row_ok_shape [OF sh] by (auto simp: merged_def table_inv_def)
qed

lemma fits_row:
  assumes "row_ok t pk row"
  shows "\<forall>x\<in>set (tb_indexes t). index_fits (tb_schema t) x C pk row"
    and "\<forall>u\<in>set (tb_unique t). unclaimed (ux_columns u) U pk row \<Longrightarrow>
      \<forall>u\<in>set (tb_unique t). unique_fits (tb_schema t) u U pk row"
  using index_columns_typed [OF assms] unique_columns_typed [OF assms]
  by (auto simp: index_fits_def unique_fits_def)

lemma merge_insert_ok:
  assumes inv: "table_inv t U" and new: "row_at t pk = None" "U pk = None" "row_ok t pk row"
    and un: "\<forall>u\<in>set (tb_unique t). unclaimed (ux_columns u) U pk row"
  shows "\<exists>t'. merge_op (pk, Insert row) (t, ins, del) = Inr (t', ins @ [row], del) \<and>
    merged t (U(pk \<mapsto> row)) ((row_at t)(pk \<mapsto> row)) 1 t'"
proof -
  obtain ixs where ixs: "try_map (slot_op (index_insert row pk)) (tb_indexes t) = Inr ixs"
    "\<forall>x\<in>set ixs. index_holds (tb_schema t) x ((row_at t)(pk \<mapsto> row))" "map index_shape ixs = map index_shape (tb_indexes t)"
    using slots.put_all [of "tb_indexes t" "tb_schema t" "row_at t" pk row] inv new fits_row(1) [OF new(3)]
    by (auto simp: table_inv_def)
  obtain us where us: "try_map (unique_insert row pk) (tb_unique t) = Inr us"
    "\<forall>u\<in>set us. unique_holds (tb_schema t) u (U(pk \<mapsto> row))" "map ux_columns us = map ux_columns (tb_unique t)"
    using constraints.put_all [of "tb_unique t" "tb_schema t" U pk row] inv new fits_row(2) [OF new(3) un]
    by (auto simp: table_inv_def)
  let ?r = "snd (put_row pk row t)"
  have "merge_op (pk, Insert row) (t, ins, del) = Inr (?r\<lparr>tb_indexes := ixs, tb_unique := us\<rparr>, ins @ [row], del)"
    by (simp add: merge_op_def each_index_slot each_unique_def ixs us put_row_def row_at_def Let_def)
  moreover have "merged t (U(pk \<mapsto> row)) ((row_at t)(pk \<mapsto> row)) 1 (?r\<lparr>tb_indexes := ixs, tb_unique := us\<rparr>)"
  proof (rule merged_step [OF inv])
    show "counted t \<and> length (tb_rows t) + 1 < 2 ^ 64 \<longrightarrow> counted ?r"
      using counted_put [of t pk row] inv by (auto simp: table_inv_def)
  qed (use inv ixs us new put_length [of t pk row] in \<open>auto simp: table_inv_def split: if_splits\<close>)
  ultimately show ?thesis by blast
qed

lemma merge_delete_ok:
  assumes inv: "table_inv t U" and old: "row_at t pk = Some old" "U pk = None"
  shows "\<exists>t'. merge_op (pk, Delete) (t, ins, del) = Inr (t', ins, del @ [(pk, old)]) \<and>
    merged t U ((row_at t)(pk := None)) 1 t'"
proof -
  obtain ixs where ixs: "try_map (slot_op (index_remove old pk)) (tb_indexes t) = Inr ixs"
    "\<forall>x\<in>set ixs. index_holds (tb_schema t) x ((row_at t)(pk := None))" "map index_shape ixs = map index_shape (tb_indexes t)"
    using slots.drop_all [of "tb_indexes t" "tb_schema t" "row_at t" pk old] inv old
    by (auto simp: table_inv_def)
  let ?r = "snd (take_row pk t)"
  have "merge_op (pk, Delete) (t, ins, del) = Inr (?r\<lparr>tb_indexes := ixs, tb_unique := tb_unique t\<rparr>, ins, del @ [(pk, old)])"
    by (simp add: merge_op_def each_index_slot ixs take_row_def old Let_def)
  moreover have "merged t U ((row_at t)(pk := None)) 1 (?r\<lparr>tb_indexes := ixs, tb_unique := tb_unique t\<rparr>)"
    by (rule merged_step [OF inv])
      (use inv ixs counted_take [of t pk] take_length [of pk t] row_at_take [of t pk] in
        \<open>auto simp: table_inv_def split: if_splits\<close>)
  ultimately show ?thesis by blast
qed

lemma merge_update_ok:
  assumes inv: "table_inv t U" and old: "row_at t pk = Some old" "U pk = None" "row_ok t pk row"
    and un: "\<forall>u\<in>set (tb_unique t). unclaimed (ux_columns u) U pk row"
  shows "\<exists>t'. merge_op (pk, Update row) (t, ins, del) = Inr (t', ins @ [row], del @ [(pk, old)]) \<and>
    merged t (U(pk \<mapsto> row)) ((row_at t)(pk \<mapsto> row)) 1 t'"
proof -
  obtain ixs where ixs: "try_map (\<lambda>x. rbind (slot_op (index_remove old pk) x) (slot_op (index_insert row pk))) (tb_indexes t) = Inr ixs"
    "\<forall>x\<in>set ixs. index_holds (tb_schema t) x ((row_at t)(pk \<mapsto> row))" "map index_shape ixs = map index_shape (tb_indexes t)"
    using slots.swap_all [of "tb_indexes t" "tb_schema t" "row_at t" pk row old] inv old fits_row(1) [OF old(3)]
    by (auto simp: table_inv_def)
  obtain us where us: "try_map (unique_insert row pk) (tb_unique t) = Inr us"
    "\<forall>u\<in>set us. unique_holds (tb_schema t) u (U(pk \<mapsto> row))" "map ux_columns us = map ux_columns (tb_unique t)"
    using constraints.put_all [of "tb_unique t" "tb_schema t" U pk row] inv old fits_row(2) [OF old(3) un]
    by (auto simp: table_inv_def)
  let ?r = "snd (put_row pk row t)"
  have "merge_op (pk, Update row) (t, ins, del) =
      Inr (?r\<lparr>tb_indexes := ixs, tb_unique := us\<rparr>, ins @ [row], del @ [(pk, old)])"
    by (simp add: merge_op_def each_index_slot slot_op_bind each_unique_def ixs us put_row_def old Let_def)
  moreover have "merged t (U(pk \<mapsto> row)) ((row_at t)(pk \<mapsto> row)) 1 (?r\<lparr>tb_indexes := ixs, tb_unique := us\<rparr>)"
  proof (rule merged_step [OF inv])
    show "counted t \<and> length (tb_rows t) + 1 < 2 ^ 64 \<longrightarrow> counted ?r"
      using counted_put [of t pk row] inv by (auto simp: table_inv_def)
  qed (use inv ixs us old put_length [of t pk row] in \<open>auto simp: table_inv_def split: if_splits\<close>)
  ultimately show ?thesis by blast
qed

lemma overlay_wider:
  "\<forall>(pk, op)\<in>set ops. C pk = None \<Longrightarrow> C pk = Some row \<Longrightarrow> overlay C ops pk = Some row"
  using overlay_above by blast

lemma merge_all:
  assumes "table_inv t U" "distinct (map fst ops)" "\<forall>(pk, op)\<in>set ops. U pk = None \<and> op_ok t pk op"
    and "\<forall>columns\<in>set (map ux_columns (tb_unique t)). inj_claims columns (overlay U ops)"
  shows "\<exists>t'. try_fold merge_op ops (t, ins, del) =
      Inr (t', ins @ ops_inserts ops, del @ ops_deletes (row_at t) ops) \<and>
    merged t (overlay U ops) (overlay (row_at t) ops) (length ops) t'"
  using assms
proof (induction ops arbitrary: t U ins del)
  case Nil
  then show ?case
    by (auto simp: ops_inserts_def ops_deletes_def List.map_filter_def merged_def)
next
  case (Cons p ops)
  obtain pk op where p: "p = (pk, op)" by (cases p)
  have fresh: "pk \<notin> fst ` set ops" using Cons.prems(2) by (simp add: p)
  have none: "U pk = None" "op_ok t pk op" using Cons.prems(3) by (auto simp: p)
  let ?U = "U(pk := op_row op)" and ?C = "(row_at t)(pk := op_row op)"
  have apart: "pk' \<noteq> pk" if "(pk', op') \<in> set ops" for pk' op' using that fresh by force
  have later: "\<forall>(pk', op')\<in>set ops. ?U pk' = None"
    using Cons.prems(3) apart by (auto simp: p)
  have un: "\<forall>u\<in>set (tb_unique t). unclaimed (ux_columns u) U pk row" if row: "op_row op = Some row" for row
  proof
    fix u assume u: "u \<in> set (tb_unique t)"
    have over: "overlay U (p # ops) = overlay ?U ops" using overlay_Cons [OF fresh] by (simp add: p)
    have "overlay ?U ops pk = Some row" using overlay_wider [of ops ?U pk row, OF later] row by simp
    moreover have "inj_claims (ux_columns u) (overlay ?U ops)" using Cons.prems(4) u over by simp
    ultimately have c: "unclaimed (ux_columns u) (overlay ?U ops) pk row" by (simp add: inj_claims_def)
    show "unclaimed (ux_columns u) U pk row"
      unfolding unclaimed_def
    proof (intro allI impI)
      fix pk' row' assume a: "U pk' = Some row'" "pk' \<noteq> pk"
      then have "overlay ?U ops pk' = Some row'" using overlay_wider [of ops ?U pk' row', OF later] by simp
      then show "columns_key (ux_columns u) row' \<noteq> columns_key (ux_columns u) row"
        using c a(2) unfolding unclaimed_def by blast
    qed
  qed
  obtain t' where step: "merge_op p (t, ins, del) =
      Inr (t', ins @ ops_inserts [p], del @ ops_deletes (row_at t) [p])" "merged t ?U ?C 1 t'"
  proof (cases op)
    case (Insert row)
    then show ?thesis
      using that merge_insert_ok [OF Cons.prems(1) _ none(1), of row ins del] none un [of row]
      by (auto simp: p op_ok_def op_row_def ops_inserts_def ops_deletes_def List.map_filter_def)
  next
    case Delete
    then show ?thesis
      using that merge_delete_ok [OF Cons.prems(1) _ none(1), of _ ins del] none
      by (auto simp: p op_ok_def op_row_def ops_inserts_def ops_deletes_def List.map_filter_def fun_upd_idem)
  next
    case (Update row)
    then show ?thesis
      using that merge_update_ok [OF Cons.prems(1) _ none(1), of _ row ins del] none un [of row]
      by (auto simp: p op_ok_def op_row_def ops_inserts_def ops_deletes_def List.map_filter_def)
  qed
  have inv: "table_inv t' ?U" and rows: "row_at t' = ?C" and sh: "table_shape t' = table_shape t"
    using step(2) by (simp_all add: merged_def)
  have same: "row_at t' pk' = row_at t pk'" if "(pk', op') \<in> set ops" for pk' op'
    using apart [OF that] by (simp add: rows)
  have ok: "\<forall>(pk', op')\<in>set ops. ?U pk' = None \<and> op_ok t' pk' op'"
    using later Cons.prems(3) same by (auto simp: op_ok_def row_ok_shape [OF sh] split: PendingOp.splits)
  have inj: "\<forall>columns\<in>set (map ux_columns (tb_unique t')). inj_claims columns (overlay ?U ops)"
    using Cons.prems(4) sh overlay_Cons [OF fresh] by (simp add: p table_shape_def)
  have d: "distinct (map fst ops)" using Cons.prems(2) by simp
  from Cons.IH [OF inv d ok inj] obtain t'' where
    rest: "try_fold merge_op ops (t', ins @ ops_inserts [p], del @ ops_deletes (row_at t) [p]) =
        Inr (t'', (ins @ ops_inserts [p]) @ ops_inserts ops, (del @ ops_deletes (row_at t) [p]) @ ops_deletes (row_at t') ops)"
      "merged t' (overlay ?U ops) (overlay (row_at t') ops) (length ops) t''"
    by blast
  have "ops_deletes (row_at t') ops = ops_deletes (row_at t) ops"
    using same by (auto simp: ops_deletes_def List.map_filter_def intro!: map_cong filter_cong)
  then have "try_fold merge_op (p # ops) (t, ins, del) =
      Inr (t'', ins @ ops_inserts (p # ops), del @ ops_deletes (row_at t) (p # ops))"
    using step(1) rest(1) by (simp add: ops_inserts_def ops_deletes_def List.map_filter_def)
  moreover have "merged t (overlay U (p # ops)) (overlay (row_at t) (p # ops)) (length (p # ops)) t''"
    using merged_trans [OF step(2) rest(2)] overlay_Cons [OF fresh] by (simp add: p rows)
  ultimately show ?case by blast
qed

lemma op_ok_unique: "op_ok (t\<lparr>tb_unique := us\<rparr>) pk op = op_ok t pk op" if "map ux_columns us = map ux_columns (tb_unique t)"
proof -
  have "table_shape (t\<lparr>tb_unique := us\<rparr>) = table_shape t" using that by (simp add: table_shape_def)
  then have "row_ok (t\<lparr>tb_unique := us\<rparr>) = row_ok t" by (rule row_ok_shape)
  then show ?thesis by (simp add: op_ok_def row_at_def split: PendingOp.splits)
qed

lemma merge_table_ok:
  assumes wf: "table_wf t" and ops: "ops_ok t ops"
  shows "\<exists>t'. merge_table table_id ops t = Inr (t', \<lparr>td_table_id = table_id, td_inserts = ops_inserts ops,
      td_deletes = ops_deletes (row_at t) ops\<rparr>) \<and>
    merged t (overlay (row_at t) ops) (overlay (row_at t) ops) (length ops) t'"
proof -
  have d: "distinct (map fst ops)" using ops by (simp add: ops_ok_def bt_wf_distinct)
  have inv: "table_inv t (row_at t)" using wf by (simp add: table_wf_def)
  have u: "\<forall>u\<in>set (tb_unique t). unique_holds (tb_schema t) u (row_at t)" using inv by (simp add: table_inv_def)
  have "(\<exists>row. op = Insert row) \<or> (\<exists>old. row_at t pk = Some old)" if "(pk, op) \<in> set ops" for pk op
  proof -
    have "op_ok t pk op" using ops that by (auto simp: ops_ok_def)
    then show ?thesis by (cases op) (auto simp: op_ok_def)
  qed
  then have "\<forall>(pk, op)\<in>set ops. (\<exists>row. op = Insert row) \<or> (\<exists>old. row_at t pk = Some old \<and> row_at t pk = Some old)"
    by blast
  from release_all [OF d u this] obtain us where us: "try_fold release_op ops t = Inr (t\<lparr>tb_unique := us\<rparr>)"
    "map ux_columns us = map ux_columns (tb_unique t)"
    "\<forall>u\<in>set us. unique_holds (tb_schema t) u (released (row_at t) ops)" by blast
  let ?t = "t\<lparr>tb_unique := us\<rparr>" and ?U = "released (row_at t) ops"
  have sh: "table_shape ?t = table_shape t" using us by (simp add: table_shape_def)
  have rows: "row_at ?t = row_at t" by (simp add: row_at_def fun_eq_iff)
  have inv': "table_inv ?t ?U"
    using inv us rows row_ok_shape [OF sh] by (simp add: table_inv_def)
  have ok: "\<forall>(pk, op)\<in>set ops. ?U pk = None \<and> op_ok ?t pk op"
    using ops op_ok_unique [OF us(2)] by (fastforce simp: ops_ok_def released_def op_ok_def split: PendingOp.splits)
  have over: "overlay ?U ops = overlay (row_at t) ops"
    by (rule ext) (force simp: overlay_def released_def bt_get_None_iff split: option.split)
  have inj: "\<forall>columns\<in>set (map ux_columns (tb_unique ?t)). inj_claims columns (overlay ?U ops)"
    using ops us(2) by (simp add: ops_ok_def over)
  obtain t' where t': "try_fold merge_op ops (?t, [], []) = Inr (t', ops_inserts ops, ops_deletes (row_at t) ops)"
    "merged ?t (overlay (row_at t) ops) (overlay (row_at t) ops) (length ops) t'"
    using merge_all [OF inv' d ok inj, of "[]" "[]"] by (auto simp: over rows)
  have "merged t (overlay (row_at t) ops) (overlay (row_at t) ops) (length ops) t'"
    using t'(2) sh by (simp add: merged_def counted_def)
  then show ?thesis using us(1) t'(1) by (simp add: merge_table_def)
qed

lemma merged_wf: "merged t C C n t' \<Longrightarrow> table_wf t'"
  by (simp add: merged_def table_wf_def)

section \<open>Replicated changes\<close>

lemma retire_ok:
  assumes "\<forall>u\<in>set (tb_unique t). unique_holds (tb_schema t) u C" "\<forall>x\<in>set (tb_indexes t). index_holds (tb_schema t) x C"
    and "C pk = Some old"
  shows "\<exists>us ixs. retire_entries old pk t = Inr (t\<lparr>tb_indexes := ixs, tb_unique := us\<rparr>) \<and>
    map index_shape ixs = map index_shape (tb_indexes t) \<and> map ux_columns us = map ux_columns (tb_unique t) \<and>
    (\<forall>x\<in>set ixs. index_holds (tb_schema t) x (C(pk := None))) \<and> (\<forall>u\<in>set us. unique_holds (tb_schema t) u (C(pk := None)))"
proof -
  obtain us where us: "try_map (unique_remove old pk) (tb_unique t) = Inr us"
    "\<forall>u\<in>set us. unique_holds (tb_schema t) u (C(pk := None))" "map ux_columns us = map ux_columns (tb_unique t)"
    using constraints.drop_all [OF assms(1, 3)] by blast
  obtain ixs where ixs: "try_map (slot_op (index_remove old pk)) (tb_indexes t) = Inr ixs"
    "\<forall>x\<in>set ixs. index_holds (tb_schema t) x (C(pk := None))" "map index_shape ixs = map index_shape (tb_indexes t)"
    using slots.drop_all [OF assms(2, 3)] by blast
  have "retire_entries old pk t = Inr (t\<lparr>tb_indexes := ixs, tb_unique := us\<rparr>)"
    by (simp add: retire_entries_def each_unique_def each_index_slot us ixs)
  then show ?thesis using us ixs by blast
qed

lemma apply_delete_ok:
  assumes wf: "table_wf t"
  shows "\<exists>t'. apply_delete pk (t, del) = Inr (t', del @ (case row_at t pk of None \<Rightarrow> [] | Some old \<Rightarrow> [(pk, old)])) \<and>
    merged t ((row_at t)(pk := None)) ((row_at t)(pk := None)) 0 t'"
proof (cases "row_at t pk")
  case None
  then have "apply_delete pk (t, del) = Inr (t, del)" by (simp add: apply_delete_def take_row_def)
  moreover have "(row_at t)(pk := None) = row_at t" using None by auto
  ultimately show ?thesis using wf None by (auto simp: merged_def table_wf_def)
next
  case (Some old)
  let ?r = "snd (take_row pk t)"
  have inv: "table_inv t (row_at t)" using wf by (simp add: table_wf_def)
  obtain us ixs where r: "retire_entries old pk ?r = Inr (?r\<lparr>tb_indexes := ixs, tb_unique := us\<rparr>)"
    "map index_shape ixs = map index_shape (tb_indexes t)" "map ux_columns us = map ux_columns (tb_unique t)"
    "\<forall>x\<in>set ixs. index_holds (tb_schema t) x ((row_at t)(pk := None))"
    "\<forall>u\<in>set us. unique_holds (tb_schema t) u ((row_at t)(pk := None))"
    using retire_ok [of ?r "row_at t" pk old] inv Some by (auto simp: table_inv_def)
  have "merged t ((row_at t)(pk := None)) ((row_at t)(pk := None)) 0 (?r\<lparr>tb_indexes := ixs, tb_unique := us\<rparr>)"
    by (rule merged_step [OF inv])
      (use inv r counted_take [of t pk] take_length [of pk t] row_at_take [of t pk] in
        \<open>auto simp: table_inv_def split: if_splits\<close>)
  moreover have "apply_delete pk (t, del) = Inr (?r\<lparr>tb_indexes := ixs, tb_unique := us\<rparr>, del @ [(pk, old)])"
    using r(1) Some by (simp add: apply_delete_def take_row_def Let_def)
  ultimately show ?thesis using Some by auto
qed

lemma apply_insert_ok:
  assumes wf: "table_wf t" and row: "row_ok t pk row"
    and un: "\<forall>u\<in>set (tb_unique t). unclaimed (ux_columns u) (row_at t) pk row"
  shows "\<exists>t'. apply_insert (tb_schema t) row t = Inr t' \<and> merged t ((row_at t)(pk \<mapsto> row)) ((row_at t)(pk \<mapsto> row)) 1 t'"
proof -
  have inv: "table_inv t (row_at t)" using wf by (simp add: table_wf_def)
  let ?r = "snd (put_row pk row t)" and ?C = "(row_at t)(pk := None)"
  obtain ixs0 us0 where r: "(case row_at t pk of None \<Rightarrow> Inr ?r | Some existing \<Rightarrow> retire_entries existing pk ?r) =
      Inr (?r\<lparr>tb_indexes := ixs0, tb_unique := us0\<rparr>)"
    "map index_shape ixs0 = map index_shape (tb_indexes t)" "map ux_columns us0 = map ux_columns (tb_unique t)"
    "\<forall>x\<in>set ixs0. index_holds (tb_schema t) x ?C" "\<forall>u\<in>set us0. unique_holds (tb_schema t) u ?C"
  proof (cases "row_at t pk")
    case None
    then have same: "?C = row_at t" by auto
    have id: "?r = ?r\<lparr>tb_indexes := tb_indexes t, tb_unique := tb_unique t\<rparr>" by (simp add: put_row_def Let_def)
    show ?thesis
      by (rule that [of "tb_unique t" "tb_indexes t"]) (use None inv same id in \<open>auto simp: table_inv_def\<close>)
  next
    case (Some old)
    then show ?thesis using that retire_ok [of ?r "row_at t" pk old] inv by (auto simp: table_inv_def simp del: fun_upd_apply)
  qed
  let ?s = "?r\<lparr>tb_indexes := ixs0, tb_unique := us0\<rparr>"
  have fit: "row_ok ?s pk row" using row row_ok_shape [of ?s t] r(2, 3) by (simp add: table_shape_def)
  have un': "\<forall>u\<in>set (tb_unique ?s). unclaimed (ux_columns u) ?C pk row"
  proof
    fix u assume "u \<in> set (tb_unique ?s)"
    then have "ux_columns u \<in> set (map ux_columns (tb_unique t))" by (simp add: r(3) [symmetric])
    then show "unclaimed (ux_columns u) ?C pk row" using un by (auto simp: unclaimed_def)
  qed
  obtain ixs where ixs: "try_map (slot_op (index_insert row pk)) ixs0 = Inr ixs"
    "\<forall>x\<in>set ixs. index_holds (tb_schema t) x (?C(pk \<mapsto> row))" "map index_shape ixs = map index_shape ixs0"
    using slots.put_all [of ixs0 "tb_schema t" ?C pk row] r(4) fits_row(1) [OF fit] by auto
  obtain us where us: "try_map (unique_insert row pk) us0 = Inr us"
    "\<forall>u\<in>set us. unique_holds (tb_schema t) u (?C(pk \<mapsto> row))" "map ux_columns us = map ux_columns us0"
    using constraints.put_all [of us0 "tb_schema t" ?C pk row] r(5) fits_row(2) [OF fit un'] by auto
  obtain q where q: "put_row pk row t = (row_at t pk, q)" by (simp add: put_row_def Let_def)
  have "apply_insert (tb_schema t) row t = Inr (?r\<lparr>tb_indexes := ixs, tb_unique := us\<rparr>)"
    using row r(1) [unfolded q snd_conv] ixs us
    by (simp add: apply_insert_def row_ok_def q each_index_slot each_unique_def)
  moreover have "merged t ((row_at t)(pk \<mapsto> row)) ((row_at t)(pk \<mapsto> row)) 1 (?r\<lparr>tb_indexes := ixs, tb_unique := us\<rparr>)"
  proof (rule merged_step [OF inv])
    show "counted t \<and> length (tb_rows t) + 1 < 2 ^ 64 \<longrightarrow> counted ?r"
      using counted_put [of t pk row] inv by (auto simp: table_inv_def)
  qed (use inv ixs us r row put_length [of t pk row] in \<open>auto simp: table_inv_def split: if_splits\<close>)
  ultimately show ?thesis by blast
qed

section \<open>Integrity and scans\<close>

lemma sorted_entries: "bt_wf (m :: (bytes, PkBytes) btree) \<Longrightarrow> sorted m \<and> distinct m"
proof -
  assume wf: "bt_wf m"
  then have "sorted_wrt (\<lambda>x y. fst x < fst y) m" by (simp add: bt_wf_def sorted_wrt_map)
  then have "sorted m" by (rule sorted_wrt_mono_rel [rotated]) (auto simp: less_eq_prod_def)
  then show ?thesis using bt_wf_distinct [OF wf] by (simp add: distinct_map)
qed

lemma rebuilt_iff:
  assumes "bt_wf m" "distinct es"
  shows "m = sort es \<longleftrightarrow> set m = set (es :: (bytes \<times> PkBytes) list)"
proof
  assume "set m = set es"
  then show "m = sort es"
    using sorted_entries [OF assms(1)] assms(2) by (intro sorted_distinct_set_unique) auto
qed simp

lemma try_map_unit_iff: "try_map f xs = Inr us \<longleftrightarrow> (\<forall>x\<in>set xs. f x = Inr ()) \<and> us = map (\<lambda>_. ()) xs"
  by (induction xs arbitrary: us) (auto simp: rbind_eq_Inr_iff)

text \<open>Rows and trees a rebuild can be compared with: everything of the invariant but the contents of the structures.\<close>

definition table_rows_ok :: "TableState \<Rightarrow> bool" where
  "table_rows_ok t =
    (bt_wf (tb_rows t) \<and> (\<forall>pk row. row_at t pk = Some row \<longrightarrow> row_ok t pk row) \<and>
     (\<forall>(index_id, index)\<in>set (tb_indexes t). bt_wf (ix_tree index)) \<and>
     (\<forall>u\<in>set (tb_unique t). bt_wf (ux_tree u)))"

lemma rows_ok_typed:
  assumes "table_rows_ok t" "row_at t pk = Some row"
  shows "x \<in> set (tb_indexes t) \<Longrightarrow> typed_on (tb_schema t) (ix_columns (snd x)) row"
    and "u \<in> set (tb_unique t) \<Longrightarrow> typed_on (tb_schema t) (ux_columns u) row"
  using index_columns_typed [of t pk row x] unique_columns_typed [of t pk row u] assms
  by (auto simp: table_rows_ok_def)

lemma rows_set: "bt_wf (tb_rows t) \<Longrightarrow> set (tb_rows t) = {(pk, row). row_at t pk = Some row}"
  by (auto simp: row_at_def bt_get_Some_iff)

lemma index_rebuild_iff:
  assumes "table_rows_ok t" "x \<in> set (tb_indexes t)"
  shows "rbind (try_map (\<lambda>(pk, row). rmap (\<lambda>key. (key, pk)) (entry_key (snd x) row pk)) (tb_rows t)) (\<lambda>expected.
      if index_entries (snd x) = sort expected then Inr () else Inl e) = Inr () \<longleftrightarrow> index_holds (tb_schema t) x (row_at t)"
proof -
  obtain i ix where x: "x = (i, ix)" by (cases x)
  let ?es = "map (\<lambda>(pk, row). (columns_key (ix_columns ix) row @ pk, pk)) (tb_rows t)"
  have wf: "bt_wf (tb_rows t)" "bt_wf (ix_tree ix)" using assms by (auto simp: table_rows_ok_def x)
  have typed: "typed_on (tb_schema t) (ix_columns ix) row" if "row_at t pk = Some row" for pk row
    using rows_ok_typed(1) [OF assms(1) that assms(2)] by (simp add: x)
  have "try_map (\<lambda>(pk, row). rmap (\<lambda>key. (key, pk)) (entry_key ix row pk)) (tb_rows t) = Inr ?es"
    using rows_set [OF wf(1)]
    by (intro try_map_all_ok) (auto simp: entry_key_def dest: key_of_columns [OF typed])
  moreover have "distinct (map snd ?es)"
    using bt_wf_distinct [OF wf(1)] by (simp add: comp_def split_def)
  then have "distinct ?es" by (simp only: distinct_map)
  then have "index_entries ix = sort ?es \<longleftrightarrow> set (ix_tree ix) = set ?es"
    using rebuilt_iff [OF wf(2)] by (simp add: index_entries_def)
  moreover have "set (ix_tree ix) = set ?es \<longleftrightarrow> index_holds (tb_schema t) x (row_at t)"
  proof -
    have "set ?es = {(k, pk). \<exists>row. row_at t pk = Some row \<and> k = columns_key (ix_columns ix) row @ pk}"
      by (auto simp: rows_set [OF wf(1)] image_iff)
    moreover have "set (ix_tree ix) = {(k, pk). bt_get (ix_tree ix) k = Some pk}"
      by (auto simp: bt_get_Some_iff [OF wf(2)])
    ultimately show ?thesis using wf(2) typed by (auto simp: x index_holds_def set_eq_iff)
  qed
  ultimately show ?thesis by (simp add: x)
qed

lemma unique_rebuild_iff:
  assumes "table_rows_ok t" "u \<in> set (tb_unique t)"
  shows "rbind (try_map (\<lambda>(pk, row). rmap (\<lambda>key. (key, pk)) (key_of_values u row)) (tb_rows t)) (\<lambda>expected.
      if unique_entries u = sort expected then Inr () else Inl e) = Inr () \<longleftrightarrow> unique_holds (tb_schema t) u (row_at t)"
proof -
  let ?es = "map (\<lambda>(pk, row). (columns_key (ux_columns u) row, pk)) (tb_rows t)"
  have wf: "bt_wf (tb_rows t)" "bt_wf (ux_tree u)" using assms by (auto simp: table_rows_ok_def)
  have typed: "typed_on (tb_schema t) (ux_columns u) row" if "row_at t pk = Some row" for pk row
    using rows_ok_typed(2) [OF assms(1) that assms(2)] .
  have "try_map (\<lambda>(pk, row). rmap (\<lambda>key. (key, pk)) (key_of_values u row)) (tb_rows t) = Inr ?es"
    using rows_set [OF wf(1)]
    by (intro try_map_all_ok) (auto simp: key_of_values_def dest: key_of_columns [OF typed])
  moreover have "distinct (map snd ?es)"
    using bt_wf_distinct [OF wf(1)] by (simp add: comp_def split_def)
  then have "distinct ?es" by (simp only: distinct_map)
  then have "unique_entries u = sort ?es \<longleftrightarrow> set (ux_tree u) = set ?es"
    using rebuilt_iff [OF wf(2)] by (simp add: unique_entries_def)
  moreover have "set (ux_tree u) = set ?es \<longleftrightarrow> unique_holds (tb_schema t) u (row_at t)"
  proof -
    have "set ?es = {(k, pk). \<exists>row. row_at t pk = Some row \<and> k = columns_key (ux_columns u) row}"
      by (auto simp: rows_set [OF wf(1)] image_iff)
    moreover have "set (ux_tree u) = {(k, pk). bt_get (ux_tree u) k = Some pk}"
      by (auto simp: bt_get_Some_iff [OF wf(2)])
    ultimately show ?thesis using wf(2) typed by (auto simp: unique_holds_def set_eq_iff)
  qed
  ultimately show ?thesis by simp
qed

lemma integrity_iff:
  assumes "table_rows_ok t"
  shows "verify_index_integrity t = Inr () \<longleftrightarrow> table_wf t"
proof -
  have "verify_index_integrity t = Inr () \<longleftrightarrow>
      (\<forall>x\<in>set (tb_indexes t). index_holds (tb_schema t) x (row_at t)) \<and>
      (\<forall>u\<in>set (tb_unique t). unique_holds (tb_schema t) u (row_at t))"
    using index_rebuild_iff [OF assms] unique_rebuild_iff [OF assms]
    by (auto simp: verify_index_integrity_def Let_def rbind_eq_Inr_iff try_map_unit_iff split_def)
  then show ?thesis using assms by (auto simp: table_wf_def table_inv_def table_rows_ok_def)
qed

lemma table_wf_rows_ok: "table_wf t \<Longrightarrow> table_rows_ok t"
  by (auto simp: table_wf_def table_inv_def table_rows_ok_def index_holds_def unique_holds_def)

text \<open>What an index scan asks of a row.\<close>

definition scan_match :: "nat list \<Rightarrow> RowValue list \<Rightarrow> RowValue bound \<Rightarrow> RowValue bound \<Rightarrow> Row \<Rightarrow> bool" where
  "scan_match columns eq_values lower upper row =
    (take (length eq_values) (columns_of columns row) = eq_values \<and>
     (length eq_values < length columns \<longrightarrow>
       above lower (row ! (columns ! length eq_values)) \<and> below upper (row ! (columns ! length eq_values))))"

text \<open>Scan arguments that fit the columns of an index.\<close>

definition scan_args :: "TableSchema \<Rightarrow> nat list \<Rightarrow> RowValue list \<Rightarrow> RowValue bound \<Rightarrow> RowValue bound \<Rightarrow> bool" where
  "scan_args schema columns eq_values lower upper =
    (length eq_values \<le> length columns \<and> (\<forall>ordinal\<in>set columns. ordinal < length (ts_columns schema)) \<and>
     key_tuple (take (length eq_values) (column_types schema columns)) eq_values \<and>
     (if length eq_values < length columns
      then key_bound (column_types schema columns ! length eq_values) lower \<and>
        key_bound (column_types schema columns ! length eq_values) upper
      else lower = Unbounded \<and> upper = Unbounded))"

lemma in_planned_range:
  assumes args: "scan_args schema columns eq_values lower upper" and row: "typed_on schema columns row"
  shows "in_range (plan_scan (encode_tuple eq_values) (map_bound encode_value lower) (map_bound encode_value upper))
      (columns_key columns row @ rest) \<longleftrightarrow> scan_match columns eq_values lower upper row"
proof -
  let ?n = "length eq_values" and ?ts = "column_types schema columns" and ?vs = "columns_of columns row"
  have len: "length ?vs = length columns" "length ?ts = length columns" by (simp_all add: columns_of_def column_types_def)
  have tup: "key_tuple ?ts ?vs" using row by (rule typed_on_tuple)
  then have pre: "key_tuple (take ?n ?ts) (take ?n ?vs)" by (simp add: key_tuple_def list_all2_takeI)
  have eqs: "key_tuple (take ?n ?ts) eq_values" using args by (simp add: scan_args_def)
  show ?thesis
  proof (cases "?n < length columns")
    case True
    have "?vs = take ?n ?vs @ ?vs ! ?n # drop (Suc ?n) ?vs" using True len by (simp add: id_take_nth_drop)
    then have "columns_key columns row @ rest =
        encode_tuple (take ?n ?vs) @ encode_value (?vs ! ?n) @ (encode_tuple (drop (Suc ?n) ?vs) @ rest)"
      unfolding columns_key_def by (metis append.assoc concat.simps(2) concat_append encode_tuple_def list.simps(9) map_append)
    moreover have "key_value (?ts ! ?n) (?vs ! ?n)" using tup True len by (auto simp: key_tuple_def list_all2_conv_all_nth)
    moreover have "?vs ! ?n = row ! (columns ! ?n)" using True by (simp add: columns_of_def)
    ultimately show ?thesis
      using planned_range [OF pre eqs, of "?ts ! ?n" "?vs ! ?n" lower upper] args True
      by (simp add: scan_args_def scan_match_def)
  next
    case False
    then have n: "?n = length columns" "lower = Unbounded" "upper = Unbounded" using args by (auto simp: scan_args_def)
    then show ?thesis
      using planned_prefix [OF pre eqs, of rest] len by (simp add: columns_key_def scan_match_def)
  qed
qed

lemma check_index_value_ok:
  "ordinal < length (ts_columns (tb_schema t)) \<Longrightarrow> key_value (cs_ty (ts_columns (tb_schema t) ! ordinal)) v \<Longrightarrow>
   check_index_value t ordinal v = Inr v"
  by (simp add: check_index_value_def schema_column_def list_get_def key_value_def)

lemma scan_plan_ok:
  assumes args: "scan_args (tb_schema t) (ix_columns ix) eq_values lower upper"
    and ix: "bt_get (tb_indexes t) index_id = Some ix"
  shows "index_scan t index_id eq_values lower upper =
    Inr (List.map_filter (row_at t) (scan_pks (plan_scan (encode_tuple eq_values)
      (map_bound encode_value lower) (map_bound encode_value upper)) ix))"
proof -
  let ?n = "length eq_values" and ?cs = "ix_columns ix"
  have "try_map (\<lambda>(value, ordinal). rmap encode_value (check_index_value t ordinal value)) (zip eq_values ?cs) =
      Inr (map (\<lambda>(value, ordinal). encode_value value) (zip eq_values ?cs))"
  proof (rule try_map_all_ok)
    fix p assume "p \<in> set (zip eq_values ?cs)"
    then obtain i where i: "i < ?n" "i < length ?cs" "p = (eq_values ! i, ?cs ! i)" by (auto simp: set_zip)
    then have "key_value (cs_ty (ts_columns (tb_schema t) ! (?cs ! i))) (eq_values ! i)"
      using args by (auto simp: scan_args_def key_tuple_def list_all2_conv_all_nth column_types_def)
    then show "(\<lambda>(value, ordinal). rmap encode_value (check_index_value t ordinal value)) p =
        Inr ((\<lambda>(value, ordinal). encode_value value) p)"
      using args i check_index_value_ok [of "?cs ! i" t "eq_values ! i"] by (auto simp: scan_args_def)
  qed
  moreover have "map (\<lambda>(value, ordinal). encode_value value) (zip eq_values ?cs) = map encode_value eq_values"
    using args by (intro nth_equalityI) (auto simp: scan_args_def)
  moreover have "encode_bound t (list_get ?cs ?n) b = Inr (map_bound encode_value b)" if "b = lower \<or> b = upper" for b
  proof (cases "?n < length ?cs")
    case True
    have "key_bound (cs_ty (ts_columns (tb_schema t) ! (?cs ! ?n))) b"
      using args that True by (auto simp: scan_args_def column_types_def)
    moreover have "?cs ! ?n < length (ts_columns (tb_schema t))" using args True by (simp add: scan_args_def)
    ultimately show ?thesis using True by (cases b) (auto simp: encode_bound_def list_get_def check_index_value_ok)
  next
    case False
    then show ?thesis using args that by (auto simp: scan_args_def encode_bound_def)
  qed
  ultimately show ?thesis
    using args ix by (simp add: index_scan_def Let_def encode_tuple_def scan_args_def split: if_splits)
qed

lemma index_slot: "bt_get (tb_indexes t) index_id = Some ix \<Longrightarrow> (index_id, ix) \<in> set (tb_indexes t)"
  by (simp add: bt_get_def map_of_SomeD)

lemma index_scan_spec:
  assumes wf: "table_wf t" and ix: "bt_get (tb_indexes t) index_id = Some ix"
    and args: "scan_args (tb_schema t) (ix_columns ix) eq_values lower upper"
  shows "\<exists>pks. index_scan t index_id eq_values lower upper = Inr (map (\<lambda>pk. the (row_at t pk)) pks) \<and> distinct pks \<and>
    set pks = {pk. \<exists>row. row_at t pk = Some row \<and> scan_match (ix_columns ix) eq_values lower upper row} \<and>
    sorted_wrt (\<lambda>r s. \<not> lex_less key_less (columns_of (ix_columns ix) s) (columns_of (ix_columns ix) r))
      (map (\<lambda>pk. the (row_at t pk)) pks)"
proof -
  let ?cs = "ix_columns ix"
  let ?rng = "plan_scan (encode_tuple eq_values) (map_bound encode_value lower) (map_bound encode_value upper)"
  let ?es = "tree_scan ?rng (ix_tree ix)"
  have holds: "index_holds (tb_schema t) (index_id, ix) (row_at t)"
    using wf index_slot [OF ix] by (auto simp: table_wf_def table_inv_def)
  have tree: "bt_wf (ix_tree ix)" using holds by (simp add: index_holds_def)
  have es: "(k, pk) \<in> set ?es \<longleftrightarrow> (\<exists>row. row_at t pk = Some row \<and> k = columns_key ?cs row @ pk \<and>
      scan_match ?cs eq_values lower upper row)" for k pk
    using holds in_planned_range [OF args]
    by (auto simp: paged.scan_set [OF tree] index_holds_def)
  have entry: "\<exists>row. row_at t (snd e) = Some row \<and> typed_on (tb_schema t) ?cs row \<and> fst e = columns_key ?cs row @ snd e"
    if "e \<in> set ?es" for e
    using es [of "fst e" "snd e"] that holds by (auto simp: index_holds_def)
  have keys: "sorted_wrt (<) (map fst ?es)" using paged.scan_sorted [OF tree] .
  have "inj_on snd (set ?es)"
  proof (rule inj_onI)
    fix e f assume "e \<in> set ?es" "f \<in> set ?es" "snd e = snd f"
    then show "e = f" using entry [of e] entry [of f] by (auto intro: prod_eqI)
  qed
  moreover have "distinct ?es" using keys by (auto simp: strict_sorted_iff distinct_map)
  ultimately have dist: "distinct (map snd ?es)" by (simp add: distinct_map)
  have rows: "List.map_filter (row_at t) (map snd ?es) = map (\<lambda>pk. the (row_at t pk)) (map snd ?es)"
  proof -
    have "\<forall>pk\<in>set (map snd ?es). row_at t pk \<noteq> None" using entry by fastforce
    then show ?thesis by (simp add: List.map_filter_def filter_id_conv comp_def)
  qed
  have "sorted_wrt (\<lambda>e f. \<not> lex_less key_less (columns_of ?cs (the (row_at t (snd f)))) (columns_of ?cs (the (row_at t (snd e))))) ?es"
  proof (rule sorted_wrt_mono_rel)
    show "sorted_wrt (\<lambda>e f. fst e < fst f) ?es" using keys by (simp add: sorted_wrt_map)
  next
    fix e f assume a: "e \<in> set ?es" "f \<in> set ?es" "fst e < fst f"
    obtain r s where r: "row_at t (snd e) = Some r" "typed_on (tb_schema t) ?cs r" "fst e = columns_key ?cs r @ snd e"
      and s: "row_at t (snd f) = Some s" "typed_on (tb_schema t) ?cs s" "fst f = columns_key ?cs s @ snd f"
      using entry [OF a(1)] entry [OF a(2)] by blast
    have "fst f < fst e" if "lex_less key_less (columns_of ?cs s) (columns_of ?cs r)"
      using that tuple_code [OF typed_on_tuple [OF s(2)] typed_on_tuple [OF r(2)], of "snd f" "snd e"]
      by (simp add: r s columns_key_def)
    then show "\<not> lex_less key_less (columns_of ?cs (the (row_at t (snd f)))) (columns_of ?cs (the (row_at t (snd e))))"
      using a(3) r(1) s(1) by auto
  qed
  moreover have "set (map snd ?es) = {pk. \<exists>k. (k, pk) \<in> set ?es}" by force
  then have "set (map snd ?es) = {pk. \<exists>row. row_at t pk = Some row \<and> scan_match ?cs eq_values lower upper row}"
    by (simp add: es)
  ultimately show ?thesis
    using scan_plan_ok [OF args ix] rows dist
    by (intro exI [of _ "map snd ?es"]) (auto simp: scan_pks_def sorted_wrt_map)
qed

section \<open>Properties of tables\<close>

definition player_schema :: TableSchema where
  "player_schema = \<lparr>ts_name = ''player'',
    ts_columns = [\<lparr>cs_name = ''id'', cs_ty = TU64\<rparr>, \<lparr>cs_name = ''team'', cs_ty = TU8\<rparr>, \<lparr>cs_name = ''score'', cs_ty = TI16\<rparr>],
    ts_primary_key = [0], ts_auto_inc = Some 0, ts_access = Public, ts_partition_by = None,
    ts_unique = [[2]], ts_indexes = [BTree [1, 2]], ts_visibility = PublicAll\<rparr>"

definition player :: "u64 \<Rightarrow> u8 \<Rightarrow> u16 \<Rightarrow> Row" where
  "player i team score = [VU64 i, VU8 team, VI16 score]"

definition player_pk :: "u64 \<Rightarrow> PkBytes" where
  "player_pk i = to_le_bytes i"

definition empty_players :: TableState where
  "empty_players = \<lparr>tb_schema = player_schema, tb_rows = [], tb_row_count = 0,
    tb_indexes = [(7, \<lparr>ix_columns = [1, 2], ix_tree = []\<rparr>)], tb_unique = [\<lparr>ux_columns = [2], ux_tree = []\<rparr>], tb_high_water = 0\<rparr>"

definition player_ops :: "(PkBytes, PendingOp) btree" where
  "player_ops = [(player_pk 1, Insert (player 1 4 (- 3))), (player_pk 2, Insert (player 2 4 9)), (player_pk 3, Insert (player 3 5 0))]"

definition players :: TableState where
  "players = (case merge_table 1 player_ops empty_players of Inr (t, d) \<Rightarrow> t | Inl e \<Rightarrow> empty_players)"

lemma empty_players_wf: "table_wf empty_players"
  by (auto simp: table_wf_def table_inv_def empty_players_def row_at_def index_holds_def unique_holds_def)

lemma player_typed: "typed_on player_schema [0, 1, 2, 2] (player i team score)"
  by (auto simp: typed_on_def player_schema_def player_def key_value_def)

lemma player_row_ok:
  assumes "table_shape t = table_shape empty_players"
  shows "row_ok t (player_pk i) (player i team score)"
proof -
  have "encode_pk_of_row player_schema (player i team score) = Inr (player_pk i)"
    by (auto simp: encode_pk_of_row_iff player_schema_def player_def player_pk_def codec_simps)
  moreover have "key_columns empty_players = [0, 1, 2, 2]" "tb_schema empty_players = player_schema"
    by (simp_all add: key_columns_def table_shape_def empty_players_def index_shape_def player_schema_def)
  ultimately have "row_ok empty_players (player_pk i) (player i team score)"
    using player_typed by (simp add: row_ok_def)
  then show ?thesis using row_ok_shape [OF assms] by simp
qed

lemma player_score_key: "columns_key [2] (player i team score) = columns_key [2] (player i' team' score') \<longleftrightarrow> score = score'"
proof -
  have "encode_value (VI16 score) = encode_value (VI16 score') \<longleftrightarrow> score = score'"
    using key.unique_parse [of TI16 "VI16 score" "VI16 score'" "[]" "[]"] by (auto simp: key_value_def)
  then show ?thesis
    by (simp add: columns_key_def encode_tuple_def columns_of_def player_def del: encode_value.simps)
qed

lemma player_ops_ok: "ops_ok empty_players player_ops"
proof -
  have wf: "bt_wf player_ops" by (simp add: player_ops_def player_pk_def to_le_bytes_def)
  have none: "row_at empty_players pk = None" for pk by (simp add: row_at_def empty_players_def)
  have "\<forall>(pk, op)\<in>set player_ops. op_ok empty_players pk op"
    using player_row_ok [OF refl] none by (auto simp: player_ops_def op_ok_def)
  moreover have "inj_claims [2] (overlay (row_at empty_players) player_ops)"
  proof -
    have form: "\<exists>i team score. row = player i team score \<and> (pk, score) \<in> {(player_pk 1, - 3), (player_pk 2, 9), (player_pk 3, 0)}"
      if "overlay (row_at empty_players) player_ops pk = Some row" for pk row
      using that none by (auto simp: overlay_def player_ops_def op_row_def split: if_splits option.splits)
    have apart: "pk = pk'" if "(pk, score) \<in> {(player_pk 1, - 3), (player_pk 2, 9), (player_pk 3, 0)}"
      "(pk', score) \<in> {(player_pk 1, - 3), (player_pk 2, 9), (player_pk 3, 0)}" for pk pk' and score :: u16
      using that by auto
    show ?thesis
      unfolding inj_claims_def unclaimed_def
    proof (intro allI impI notI)
      fix pk row pk' row'
      assume a: "overlay (row_at empty_players) player_ops pk = Some row" "pk' \<noteq> pk"
        "overlay (row_at empty_players) player_ops pk' = Some row'" "columns_key [2] row' = columns_key [2] row"
      obtain i team score where r: "row = player i team score"
        "(pk, score) \<in> {(player_pk 1, - 3), (player_pk 2, 9), (player_pk 3, 0)}" using form [OF a(1)] by blast
      obtain i' team' score' where r': "row' = player i' team' score'"
        "(pk', score') \<in> {(player_pk 1, - 3), (player_pk 2, 9), (player_pk 3, 0)}" using form [OF a(3)] by blast
      have "score' = score" using a(4) by (simp add: r(1) r'(1) player_score_key)
      then show False using apart [OF r(2)] r'(2) a(2) by blast
    qed
  qed
  ultimately show ?thesis using wf by (simp add: ops_ok_def empty_players_def)
qed

lemma players_wf: "table_wf players" "row_at players = overlay (row_at empty_players) player_ops"
  "table_shape players = table_shape empty_players"
  using merge_table_ok [OF empty_players_wf player_ops_ok, of 1]
  by (auto simp: players_def merged_wf) (auto simp: merged_def)

text \<open>
  C7: an index scan is exact.  On a table whose indexes reflect its rows, a scan with equality
  values for the leading index columns and bounds on the next column returns every row that
  satisfies them, each once, and no other row, in ascending order of the index columns.
\<close>

theorem index_scan_exact:
  assumes "table_wf t" "bt_get (tb_indexes t) index_id = Some ix"
    and "scan_args (tb_schema t) (ix_columns ix) eq_values lower upper"
  shows "\<exists>pks. index_scan t index_id eq_values lower upper = Inr (map (\<lambda>pk. the (row_at t pk)) pks) \<and> distinct pks \<and>
    set pks = {pk. \<exists>row. row_at t pk = Some row \<and> scan_match (ix_columns ix) eq_values lower upper row} \<and>
    sorted_wrt (\<lambda>r s. \<not> lex_less key_less (columns_of (ix_columns ix) s) (columns_of (ix_columns ix) r))
      (map (\<lambda>pk. the (row_at t pk)) pks)"
  by (rule index_scan_spec [OF assms])

text \<open>
  C16: the integrity check is exact.  For a table whose rows sit at their own keys with well-typed
  key columns, \<open>verify_index_integrity\<close> succeeds if and only if every B-tree index holds exactly one
  entry per row under that row's key and every unique map exactly one per row, which also means that
  no two rows share a unique value.
\<close>

theorem integrity_check_exact:
  assumes "table_rows_ok t"
  shows "verify_index_integrity t = Inr () \<longleftrightarrow>
    (\<forall>(index_id, index)\<in>set (tb_indexes t). \<forall>k pk. bt_get (ix_tree index) k = Some pk \<longleftrightarrow>
      (\<exists>row. row_at t pk = Some row \<and> k = columns_key (ix_columns index) row @ pk)) \<and>
    (\<forall>u\<in>set (tb_unique t). \<forall>k pk. bt_get (ux_tree u) k = Some pk \<longleftrightarrow>
      (\<exists>row. row_at t pk = Some row \<and> k = columns_key (ux_columns u) row))"
proof -
  have "index_holds (tb_schema t) x (row_at t) \<longleftrightarrow>
      (case x of (index_id, index) \<Rightarrow> \<forall>k pk. bt_get (ix_tree index) k = Some pk \<longleftrightarrow>
        (\<exists>row. row_at t pk = Some row \<and> k = columns_key (ix_columns index) row @ pk))" if "x \<in> set (tb_indexes t)" for x
    using assms that rows_ok_typed(1) [OF assms _ that]
    by (auto simp: table_rows_ok_def index_holds_def)
  moreover have "unique_holds (tb_schema t) u (row_at t) \<longleftrightarrow>
      (\<forall>k pk. bt_get (ux_tree u) k = Some pk \<longleftrightarrow> (\<exists>row. row_at t pk = Some row \<and> k = columns_key (ux_columns u) row))"
    if "u \<in> set (tb_unique t)" for u
    using assms that rows_ok_typed(2) [OF assms _ that]
    by (auto simp: table_rows_ok_def unique_holds_def)
  ultimately show ?thesis
    using integrity_iff [OF assms] assms by (simp add: table_wf_def table_inv_def table_rows_ok_def)
qed


theorem index_scan_exact_witness:
  "\<exists>pks. index_scan players 7 [VU8 4] (Included (VI16 (- 5))) Unbounded = Inr (map (\<lambda>pk. the (row_at players pk)) pks) \<and>
    set pks = {pk. \<exists>row. row_at players pk = Some row \<and> scan_match [1, 2] [VU8 4] (Included (VI16 (- 5))) Unbounded row}"
proof -
  obtain ix where ix: "bt_get (tb_indexes players) 7 = Some ix" "ix_columns ix = [1, 2]"
    using players_wf(3) by (auto simp: table_shape_def empty_players_def index_shape_def map_eq_Cons_conv)
  have "tb_schema players = player_schema" using players_wf(3) by (simp add: table_shape_def empty_players_def)
  then have "scan_args (tb_schema players) (ix_columns ix) [VU8 4] (Included (VI16 (- 5))) Unbounded"
    by (simp add: ix scan_args_def player_schema_def column_types_def key_tuple_def key_value_def)
  from index_scan_exact [OF players_wf(1) ix(1) this] show ?thesis unfolding ix(2) by blast
qed

theorem integrity_check_exact_witness: "verify_index_integrity players = Inr ()"
proof -
  have "table_rows_ok players" using players_wf(1) by (rule table_wf_rows_ok)
  from integrity_check_exact [OF this] show ?thesis
    using players_wf(1) by (auto simp: table_wf_def table_inv_def index_holds_def unique_holds_def split_def)
qed


end
