(* ===== verification/LogFormat.thy ===== *)
theory LogFormat
  imports LogRecord
begin

text \<open>
  On-disk formats of the commit log, \<open>src/crates/fluxum-core/src/commitlog/format.rs\<close>, and the
  frame codec of \<open>commitlog/mod.rs\<close>.  CRC32C and the MessagePack serializer are third-party
  crates: they are the fields of \<open>log_env\<close>, which every function that reaches them takes as an
  argument.  All that is ever assumed of them is \<open>codec_ok\<close>: the serializer reads back what it
  wrote.
\<close>

section \<open>Third-party code\<close>

record log_env =
  crc32c :: "bytes \<Rightarrow> u32"
  record_encode :: "TxRecord \<Rightarrow> bytes result"
  record_decode :: "bytes \<Rightarrow> string + TxRecord"

definition codec_ok :: "log_env \<Rightarrow> bool" where
  "codec_ok env = (\<forall>r bs. record_encode env r = Inr bs \<longrightarrow> record_decode env bs = Inr r)"

section \<open>Segment header\<close>

definition SEGMENT_MAGIC :: bytes where
  "SEGMENT_MAGIC = [0x46, 0x4C, 0x58, 0x4D, 0x4C, 0x4F, 0x47, 0]"

definition LOG_FORMAT_VERSION :: u16 where "LOG_FORMAT_VERSION = 1"
definition CHECKSUM_CRC32C :: u8 where "CHECKSUM_CRC32C = 0"
definition SEGMENT_HEADER_LEN :: nat where "SEGMENT_HEADER_LEN = 24"
definition ENTRY_OVERHEAD :: nat where "ENTRY_OVERHEAD = 16"
definition MAX_BODY_LEN :: u32 where "MAX_BODY_LEN = 1073741824"

definition byte_slice :: "bytes \<Rightarrow> nat \<Rightarrow> nat \<Rightarrow> bytes" where
  "byte_slice bs a b = take (b - a) (drop a bs)"

definition encode_segment_header :: "log_env \<Rightarrow> u64 \<Rightarrow> bytes" where
  "encode_segment_header env epoch =
    (let h = SEGMENT_MAGIC @ to_le_bytes LOG_FORMAT_VERSION @ [CHECKSUM_CRC32C] @ [0] @ to_le_bytes epoch
     in h @ to_le_bytes (crc32c env h))"

definition decode_segment_header :: "log_env \<Rightarrow> bytes \<Rightarrow> string + u64" where
  "decode_segment_header env bs =
    (if length bs < SEGMENT_HEADER_LEN then Inl ''segment shorter than the header''
     else if crc32c env (byte_slice bs 0 20) \<noteq> from_le_bytes (byte_slice bs 20 24)
       then Inl ''segment header CRC32C mismatch''
     else if byte_slice bs 0 8 \<noteq> SEGMENT_MAGIC then Inl ''bad segment magic''
     else if from_le_bytes (byte_slice bs 8 10) \<noteq> LOG_FORMAT_VERSION then Inl ''unsupported log format version''
     else if bs ! 10 \<noteq> CHECKSUM_CRC32C then Inl ''unsupported checksum algorithm''
     else Inr (from_le_bytes (byte_slice bs 12 20)))"

section \<open>Entry frames\<close>

definition encode_entry :: "log_env \<Rightarrow> u64 \<Rightarrow> bytes \<Rightarrow> string + bytes" where
  "encode_entry env epoch body =
    (if length body < 2 ^ 32 \<and> word_of_nat (length body) \<le> MAX_BODY_LEN then
       let b = to_le_bytes (word_of_nat (length body) :: u32) @ to_le_bytes epoch @ body
       in Inr (b @ to_le_bytes (crc32c env b))
     else Inl ''entry body exceeds the limit'')"

datatype ScannedEntry =
    Entry u64 bytes nat
  | CleanEof
  | Torn string
  | Corrupt string

definition scan_entry :: "log_env \<Rightarrow> bytes \<Rightarrow> nat \<Rightarrow> ScannedEntry" where
  "scan_entry env bs offset =
    (let remaining = length bs - offset in
     if remaining = 0 then CleanEof
     else if remaining < ENTRY_OVERHEAD then Torn ''shorter than the envelope''
     else let len = from_le_bytes (byte_slice bs offset (offset + 4)) :: u32 in
       if len > MAX_BODY_LEN then Corrupt ''length prefix exceeds the body limit''
       else let frame_len = ENTRY_OVERHEAD + unat len in
         if remaining < frame_len then Torn ''entry frame truncated''
         else let end = offset + frame_len in
           if crc32c env (byte_slice bs offset (end - 4)) \<noteq> from_le_bytes (byte_slice bs (end - 4) end)
           then Corrupt ''entry CRC32C mismatch''
           else Entry (from_le_bytes (byte_slice bs (offset + 4) (offset + 12))) (byte_slice bs (offset + 12) (end - 4)) end)"

definition encode_entry_frame :: "log_env \<Rightarrow> u64 \<Rightarrow> TxRecord \<Rightarrow> bytes result" where
  "encode_entry_frame env epoch record =
    rbind (record_encode env record) (\<lambda>body. map_err Storage (encode_entry env epoch body))"

definition decode_entry_frame :: "log_env \<Rightarrow> bytes \<Rightarrow> (u64 \<times> TxRecord) result" where
  "decode_entry_frame env frame =
    (case scan_entry env frame 0 of
       Entry epoch body end \<Rightarrow>
         if end = length frame
         then rmap (\<lambda>record. (epoch, record)) (map_err Storage (record_decode env body))
         else Inl (Storage ''entry frame has trailing bytes'')
     | CleanEof \<Rightarrow> Inl (Storage ''empty entry frame'')
     | Torn reason \<Rightarrow> Inl (Storage reason)
     | Corrupt reason \<Rightarrow> Inl (Storage reason))"

section \<open>Segment file names\<close>

text \<open>Decimal formatting and \<open>str::parse\<close> for unsigned integers, as the standard library has them.\<close>

definition digit_char :: "nat \<Rightarrow> char" where
  "digit_char d = char_of (48 + d)"

fun dec_string :: "nat \<Rightarrow> string" where
  "dec_string n = (if n < 10 then [digit_char n] else dec_string (n div 10) @ [digit_char (n mod 10)])"

declare dec_string.simps [simp del]

definition pad_zeros :: "nat \<Rightarrow> string \<Rightarrow> string" where
  "pad_zeros w s = replicate (w - length s) (CHR ''0'') @ s"

fun parse_digits :: "nat \<Rightarrow> string \<Rightarrow> nat option" where
  "parse_digits acc [] = Some acc"
| "parse_digits acc (c # cs) =
    (let v = of_char c :: nat in
     if 48 \<le> v \<and> v < 58 then parse_digits (acc * 10 + (v - 48)) cs else None)"

definition parse_uint :: "nat \<Rightarrow> string \<Rightarrow> nat option" where
  "parse_uint bound s =
    (let ds = (case s of c # r \<Rightarrow> if c = CHR ''+'' \<and> r \<noteq> [] then r else s | [] \<Rightarrow> s) in
     if ds = [] then None
     else Option.bind (parse_digits 0 ds) (\<lambda>n. if n < bound then Some n else None))"

definition strip_prefix :: "string \<Rightarrow> string \<Rightarrow> string option" where
  "strip_prefix p s = (if prefix p s then Some (drop (length p) s) else None)"

definition strip_suffix :: "string \<Rightarrow> string \<Rightarrow> string option" where
  "strip_suffix p s = (if suffix p s then Some (take (length s - length p) s) else None)"

fun split_once :: "char \<Rightarrow> string \<Rightarrow> (string \<times> string) option" where
  "split_once d [] = None"
| "split_once d (c # cs) =
    (if c = d then Some ([], cs) else map_option (\<lambda>(a, b). (c # a, b)) (split_once d cs))"

definition segment_file_name :: "u32 \<Rightarrow> u64 \<Rightarrow> string" where
  "segment_file_name shard_id first_tx_id =
    ''shard-'' @ dec_string (unat shard_id) @ ''-'' @ pad_zeros 20 (dec_string (unat first_tx_id)) @ ''.log''"

definition parse_segment_file_name :: "string \<Rightarrow> u32 \<Rightarrow> u64 option" where
  "parse_segment_file_name name shard_id =
    Option.bind (strip_prefix ''shard-'' name) (\<lambda>r1.
    Option.bind (strip_suffix ''.log'' r1) (\<lambda>rest.
    Option.bind (split_once (CHR ''-'') rest) (\<lambda>(shard, tx).
    Option.bind (parse_uint (2 ^ 32) shard) (\<lambda>s.
      if s \<noteq> unat shard_id then None
      else map_option word_of_nat (parse_uint (2 ^ 64) tx)))))"

text \<open>A frame, byte by byte.\<close>

definition frame_bytes :: "log_env \<Rightarrow> u64 \<Rightarrow> bytes \<Rightarrow> bytes" where
  "frame_bytes env epoch body =
    (let b = to_le_bytes (word_of_nat (length body) :: u32) @ to_le_bytes epoch @ body
     in b @ to_le_bytes (crc32c env b))"

text \<open>A sample environment.\<close>

definition zero_env :: log_env where
  "zero_env = \<lparr>crc32c = (\<lambda>_. 0), record_encode = (\<lambda>_. Inl Io), record_decode = (\<lambda>_. Inl [])\<rparr>"

section \<open>Scanning inverts framing\<close>

lemma slice_at: "length p = a \<Longrightarrow> b = a + length q \<Longrightarrow> byte_slice (p @ q @ r) a b = q"
  by (simp add: byte_slice_def)

lemma slice_start: "b = length q \<Longrightarrow> byte_slice (q @ r) 0 b = q"
  by (simp add: byte_slice_def)

lemma slice_drop: "byte_slice bs (off + a) (off + b) = byte_slice (drop off bs) a b"
  by (simp add: byte_slice_def add.commute)

lemma length_magic [simp]: "length SEGMENT_MAGIC = 8"
  by (simp add: SEGMENT_MAGIC_def)

lemma length_header [simp]: "length (encode_segment_header env epoch) = 24"
  by (simp add: encode_segment_header_def Let_def)

lemma decode_encode_header:
  "decode_segment_header env (encode_segment_header env epoch @ rest) = Inr epoch"
proof -
  let ?v = "to_le_bytes LOG_FORMAT_VERSION" and ?e = "to_le_bytes epoch"
  let ?h = "SEGMENT_MAGIC @ ?v @ [CHECKSUM_CRC32C] @ [0] @ ?e"
  let ?c = "to_le_bytes (crc32c env ?h)"
  let ?bs = "encode_segment_header env epoch @ rest"
  have bs: "?bs = ?h @ ?c @ rest"
    by (simp add: encode_segment_header_def Let_def)
  have "byte_slice ?bs 0 20 = ?h" unfolding bs by (rule slice_start) simp
  moreover have "byte_slice ?bs 20 24 = ?c" unfolding bs by (rule slice_at) simp_all
  moreover have "byte_slice ?bs 0 8 = SEGMENT_MAGIC"
    unfolding bs append.assoc by (rule slice_start) simp
  moreover have "byte_slice ?bs 8 10 = ?v" unfolding bs append.assoc by (rule slice_at) simp_all
  moreover have "byte_slice ?bs 12 20 = ?e"
    using slice_at [of "SEGMENT_MAGIC @ ?v @ [CHECKSUM_CRC32C] @ [0]" 12 20 ?e "?c @ rest"]
    unfolding bs by simp
  moreover have "?bs ! 10 = CHECKSUM_CRC32C" unfolding bs by (simp add: nth_append)
  moreover have "length ?bs \<ge> SEGMENT_HEADER_LEN" by (simp add: SEGMENT_HEADER_LEN_def)
  ultimately show ?thesis
    by (simp add: decode_segment_header_def from_to_le_bytes)
qed

lemma encode_entry_iff:
  "encode_entry env epoch body = Inr frame \<longleftrightarrow> length body \<le> 2 ^ 30 \<and> frame = frame_bytes env epoch body"
proof -
  have "length body < 2 ^ 32 \<Longrightarrow> (word_of_nat (length body) :: u32) \<le> MAX_BODY_LEN \<longleftrightarrow> length body \<le> 2 ^ 30"
    by (simp add: MAX_BODY_LEN_def word_le_nat_alt unat_of_nat)
  then have "length body < 2 ^ 32 \<and> (word_of_nat (length body) :: u32) \<le> MAX_BODY_LEN \<longleftrightarrow> length body \<le> 2 ^ 30"
    by auto
  then show ?thesis by (auto simp: encode_entry_def frame_bytes_def Let_def)
qed

lemma length_frame [simp]: "length (frame_bytes env epoch body) = 16 + length body"
  by (simp add: frame_bytes_def Let_def)

lemma scan_entry_drop:
  "offset \<le> length bs \<Longrightarrow> scan_entry env bs offset =
    (case scan_entry env (drop offset bs) 0 of Entry e b n \<Rightarrow> Entry e b (offset + n) | x \<Rightarrow> x)"
  by (simp add: scan_entry_def Let_def byte_slice_def ENTRY_OVERHEAD_def ac_simps)

lemma scan_frame:
  assumes "length body \<le> 2 ^ 30"
  shows "scan_entry env (frame_bytes env epoch body @ rest) 0 = Entry epoch body (16 + length body)"
proof -
  let ?l = "to_le_bytes (word_of_nat (length body) :: u32)" and ?e = "to_le_bytes epoch"
  let ?b = "?l @ ?e @ body"
  let ?c = "to_le_bytes (crc32c env ?b)"
  let ?bs = "frame_bytes env epoch body @ rest"
  have bs: "?bs = ?b @ ?c @ rest" by (simp add: frame_bytes_def Let_def)
  have "unat (word_of_nat (length body) :: u32) = length body"
    using assms by (simp add: unat_of_nat)
  moreover have "byte_slice ?bs 0 4 = ?l" unfolding bs append.assoc by (rule slice_start) simp
  moreover have "byte_slice ?bs 4 12 = ?e" unfolding bs append.assoc by (rule slice_at) simp_all
  moreover have "byte_slice ?bs 12 (12 + length body) = body"
    using slice_at [of "?l @ ?e" 12 "12 + length body" body "?c @ rest"] unfolding bs by simp
  moreover have "byte_slice ?bs 0 (12 + length body) = ?b" unfolding bs by (rule slice_start) simp
  moreover have "byte_slice ?bs (12 + length body) (16 + length body) = ?c"
    unfolding bs by (rule slice_at) simp_all
  ultimately show ?thesis
    using assms
    by (simp add: scan_entry_def Let_def ENTRY_OVERHEAD_def MAX_BODY_LEN_def word_less_nat_alt from_to_le_bytes)
qed

lemma scan_torn:
  assumes "length body \<le> 2 ^ 30" "strict_prefix p (frame_bytes env epoch body)" "p \<noteq> []"
  shows "\<exists>reason. scan_entry env p 0 = Torn reason"
proof (cases "length p < 16")
  case True
  then show ?thesis using assms(3) by (simp add: scan_entry_def ENTRY_OVERHEAD_def)
next
  case False
  obtain q where q: "frame_bytes env epoch body = p @ q" and "q \<noteq> []"
    using assms(2) by (auto simp: strict_prefix_def prefix_def)
  then have lt: "length p < 16 + length body"
    using length_frame [of env epoch body] by (metis add_diff_cancel_left' length_append length_greater_0_conv zero_less_diff)
  let ?l = "to_le_bytes (word_of_nat (length body) :: u32)"
  have "take 4 p = take 4 (frame_bytes env epoch body)" using False q by simp
  also have "\<dots> = ?l" by (simp add: frame_bytes_def Let_def)
  finally have "byte_slice p 0 4 = ?l" by (simp add: byte_slice_def)
  moreover have "unat (word_of_nat (length body) :: u32) = length body"
    using assms(1) by (simp add: unat_of_nat)
  ultimately show ?thesis
    using False lt assms(1, 3)
    by (simp add: scan_entry_def Let_def ENTRY_OVERHEAD_def MAX_BODY_LEN_def word_less_nat_alt from_to_le_bytes)
qed

lemma scan_entry_sound:
  assumes "scan_entry env bs 0 = Entry epoch body n"
  shows "length body \<le> 2 ^ 30 \<and> n = 16 + length body \<and> prefix (frame_bytes env epoch body) bs"
proof -
  let ?l = "from_le_bytes (byte_slice bs 0 4) :: u32"
  let ?n = "unat ?l"
  have l30: "?n \<le> 2 ^ 30" and len: "16 + ?n \<le> length bs"
    and crc: "crc32c env (byte_slice bs 0 (12 + ?n)) = from_le_bytes (byte_slice bs (12 + ?n) (16 + ?n))"
    and e: "epoch = from_le_bytes (byte_slice bs 4 12)" and b: "body = byte_slice bs 12 (12 + ?n)"
    and n: "n = 16 + ?n"
    using assms by (auto simp: scan_entry_def Let_def ENTRY_OVERHEAD_def MAX_BODY_LEN_def word_less_nat_alt
      split: if_splits)
  have lb: "length body = ?n" using len by (simp add: b byte_slice_def)
  have l: "to_le_bytes (word_of_nat (length body) :: u32) = byte_slice bs 0 4"
    using len by (simp add: lb to_from_le_bytes byte_slice_def)
  have ep: "to_le_bytes epoch = byte_slice bs 4 12"
    using len by (simp add: e to_from_le_bytes byte_slice_def)
  have split: "byte_slice bs 0 (12 + ?n) = byte_slice bs 0 4 @ byte_slice bs 4 12 @ body"
    using take_add [of 4 "8 + ?n" bs] take_add [of 8 ?n "drop 4 bs"] by (simp add: b byte_slice_def)
  have "to_le_bytes (crc32c env (byte_slice bs 0 (12 + ?n))) = byte_slice bs (12 + ?n) (16 + ?n)"
    unfolding crc using len by (intro to_from_le_bytes) (simp_all add: byte_slice_def)
  then have "frame_bytes env epoch body = byte_slice bs 0 (12 + ?n) @ byte_slice bs (12 + ?n) (16 + ?n)"
    by (simp add: frame_bytes_def Let_def l ep split)
  also have "\<dots> = take (12 + ?n + 4) bs"
    by (subst take_add [of "12 + ?n" 4]) (simp add: byte_slice_def)
  also have "12 + ?n + 4 = 16 + ?n" by simp
  finally show ?thesis
    using l30 lb n by (simp add: take_is_prefix)
qed

lemma decode_entry_frame_iff:
  "decode_entry_frame env frame = Inr (epoch, r) \<longleftrightarrow>
   (\<exists>body. record_decode env body = Inr r \<and> encode_entry env epoch body = Inr frame)"
proof
  assume "decode_entry_frame env frame = Inr (epoch, r)"
  then obtain body where *: "scan_entry env frame 0 = Entry epoch body (length frame)"
    and "record_decode env body = Inr r"
    by (auto simp: decode_entry_frame_def result_simps split: ScannedEntry.splits if_splits)
  moreover have "frame = frame_bytes env epoch body"
    using scan_entry_sound [OF *] length_frame [of env epoch body] by (auto simp: prefix_def)
  ultimately show "\<exists>body. record_decode env body = Inr r \<and> encode_entry env epoch body = Inr frame"
    using scan_entry_sound [OF *] by (auto simp: encode_entry_iff)
next
  assume "\<exists>body. record_decode env body = Inr r \<and> encode_entry env epoch body = Inr frame"
  then show "decode_entry_frame env frame = Inr (epoch, r)"
    using scan_frame [of _ env epoch "[]"] by (auto simp: decode_entry_frame_def encode_entry_iff)
qed

section \<open>File names round trip\<close>

lemma of_digit_char [simp]: "d < 10 \<Longrightarrow> of_char (digit_char d) = 48 + d"
  by (simp add: digit_char_def of_char_of)

lemma parse_digits_append:
  "parse_digits acc (a @ b) = Option.bind (parse_digits acc a) (\<lambda>x. parse_digits x b)"
  by (induction acc a rule: parse_digits.induct) (auto simp: Let_def)

lemma parse_digits_dec:
  "parse_digits acc (dec_string n) = Some (acc * 10 ^ length (dec_string n) + n)"
proof (induction n arbitrary: acc rule: dec_string.induct)
  case (1 n)
  then show ?case
    by (subst (1 2) dec_string.simps) (auto simp: parse_digits_append algebra_simps)
qed

lemma parse_digits_zeros: "parse_digits 0 (replicate k (CHR ''0'') @ s) = parse_digits 0 s"
  by (induction k) (simp_all add: of_char_def Let_def)

lemma digits_of_dec: "c \<in> set (dec_string n) \<Longrightarrow> 48 \<le> (of_char c :: nat) \<and> (of_char c :: nat) < 58"
proof (induction n rule: dec_string.induct)
  case (1 n)
  have "set (dec_string n) = (if n < 10 then {digit_char n} else insert (digit_char (n mod 10)) (set (dec_string (n div 10))))"
    by (subst dec_string.simps) auto
  then show ?case using 1 by (auto split: if_splits)
qed

lemma dec_string_ne [simp]: "dec_string n \<noteq> []"
  by (subst dec_string.simps) simp

lemma sign_notin_dec: "CHR ''-'' \<notin> set (dec_string n)" "CHR ''+'' \<notin> set (dec_string n)"
  using digits_of_dec [of "CHR ''-''" n] digits_of_dec [of "CHR ''+''" n] by (auto simp: of_char_def)

lemma parse_uint_pad:
  "n < bound \<Longrightarrow> parse_uint bound (pad_zeros w (dec_string n)) = Some n"
proof -
  assume "n < bound"
  let ?s = "pad_zeros w (dec_string n)"
  have "CHR ''+'' \<notin> set ?s" using sign_notin_dec by (auto simp: pad_zeros_def)
  then have "(case ?s of c # r \<Rightarrow> if c = CHR ''+'' \<and> r \<noteq> [] then r else ?s | [] \<Rightarrow> ?s) = ?s"
    by (cases ?s) auto
  moreover have "?s \<noteq> []" by (simp add: pad_zeros_def)
  moreover have "parse_digits 0 ?s = Some n"
    using parse_digits_dec [of 0 n] by (simp add: pad_zeros_def parse_digits_zeros)
  ultimately show ?thesis using \<open>n < bound\<close> unfolding parse_uint_def Let_def by simp
qed

lemma pad_zeros_0: "pad_zeros 0 s = s"
  by (simp add: pad_zeros_def)

lemma split_once_append: "d \<notin> set a \<Longrightarrow> split_once d (a @ d # b) = Some (a, b)"
  by (induction a) auto

lemma parse_segment_name:
  "parse_segment_file_name (segment_file_name shard tx) s = (if s = shard then Some tx else None)"
proof -
  let ?a = "dec_string (unat shard)" and ?b = "pad_zeros 20 (dec_string (unat tx))"
  have "strip_prefix ''shard-'' (segment_file_name shard tx) = Some (?a @ ''-'' @ ?b @ ''.log'')"
    by (simp add: strip_prefix_def segment_file_name_def)
  moreover have "strip_suffix ''.log'' (?a @ ''-'' @ ?b @ ''.log'') = Some (?a @ ''-'' @ ?b)"
  proof -
    have "suffix ''.log'' ((?a @ ''-'' @ ?b) @ ''.log'')" by (rule suffixI) simp
    then show ?thesis by (simp add: strip_suffix_def)
  qed
  moreover have "split_once (CHR ''-'') (?a @ ''-'' @ ?b) = Some (?a, ?b)"
    using split_once_append [OF sign_notin_dec(1), of "unat shard" ?b] by simp
  moreover have "parse_uint (2 ^ 32) ?a = Some (unat shard)"
    using parse_uint_pad [of "unat shard" "2 ^ 32" 0] unat_bound [of shard] by (simp add: pad_zeros_0)
  moreover have "parse_uint (2 ^ 64) ?b = Some (unat tx)"
    using parse_uint_pad [of "unat tx" "2 ^ 64" 20] unat_bound [of tx] by simp
  ultimately show ?thesis
    by (auto simp: parse_segment_file_name_def word_unat_eq_iff)
qed

section \<open>Properties\<close>

text \<open>
  C23: the entry-frame codec accepts exactly what it writes.  A buffer decodes to an epoch and a
  record if and only if it is the frame \<open>encode_entry\<close> builds from that epoch and a body that the
  serializer reads as that record: length, epoch, body and checksum are all pinned, and a frame
  followed by further bytes or cut short is refused.
\<close>

theorem entry_frame_exact:
  "decode_entry_frame env frame = Inr (epoch, r) \<longleftrightarrow>
   (\<exists>body. record_decode env body = Inr r \<and> encode_entry env epoch body = Inr frame)"
  by (rule decode_entry_frame_iff)

text \<open>
  C30: a crash in the middle of an append is always recognised as a torn write.  Whatever non-empty
  proper prefix of an entry frame reached the file, scanning it reports \<open>Torn\<close>: it is never taken
  for an entry and never misreported as corruption, with any checksum function.
\<close>

theorem torn_append_detected:
  assumes "encode_entry env epoch body = Inr frame" "strict_prefix p frame" "p \<noteq> []"
    and "offset = length before"
  shows "\<exists>reason. scan_entry env (before @ p) offset = Torn reason"
  using scan_torn [of body p env epoch] assms scan_entry_drop [of offset "before @ p" env]
  by (auto simp: encode_entry_iff)

text \<open>
  C31: a segment file name names one shard and one transaction.  Parsing the name of a segment for
  shard \<open>s\<close> returns the first transaction id the name was built from when \<open>s\<close> is the segment's
  shard, and nothing otherwise.
\<close>

theorem segment_name_round_trip:
  "parse_segment_file_name (segment_file_name shard tx) s = (if s = shard then Some tx else None)"
  by (rule parse_segment_name)

theorem torn_append_detected_witness:
  "\<exists>reason. scan_entry zero_env ([7, 7] @ [1, 0, 0, 0, 5, 0, 0, 0, 0, 0, 0, 0, 9, 0, 0, 0]) 2 = Torn reason"
proof (rule torn_append_detected)
  show "encode_entry zero_env 5 [9] = Inr [1, 0, 0, 0, 5, 0, 0, 0, 0, 0, 0, 0, 9, 0, 0, 0, 0]"
    by (simp add: encode_entry_iff frame_bytes_def to_le_bytes_def zero_env_def Let_def)
  show "strict_prefix [1, 0, 0, 0, 5, 0, 0, 0, 0, 0, 0, 0, 9, 0, 0, 0] [1, 0, 0, 0, 5, 0, 0, 0, 0, 0, 0, 0, 9, 0, 0, 0, 0 :: u8]"
    by simp
qed simp_all

end
