(* ===== verification/Segment.thy ===== *)
theory Segment
  imports LogFormat
begin

text \<open>
  Segment files of the commit log: listing, validating scans and the non-destructive quarantine
  (\<open>src/crates/fluxum-core/src/commitlog/segment.rs\<close>), the read-only replay
  (\<open>commitlog/replay.rs\<close>), the replication stream source (\<open>commitlog/mod.rs\<close>) and log compaction
  (\<open>commitlog/writer.rs\<close>, \<open>checkpoint/compact.rs\<close>).  A directory is the list of its files, name
  and contents, in the order the operating system lists them; a visitor closure is a function on
  the state it captures.
\<close>

section \<open>Directories and segment listing\<close>

type_synonym directory = "(string \<times> bytes) list"

definition dir_read :: "directory \<Rightarrow> string \<Rightarrow> bytes result" where
  "dir_read d name = ok_or Io (map_of d name)"

definition dir_set :: "string \<Rightarrow> bytes \<Rightarrow> directory \<Rightarrow> directory" where
  "dir_set name bs d = map (\<lambda>(n, c). if n = name then (n, bs) else (n, c)) d"

definition dir_remove :: "string \<Rightarrow> directory \<Rightarrow> directory" where
  "dir_remove name d = filter (\<lambda>(n, c). n \<noteq> name) d"

record SegmentRef =
  seg_path :: string
  seg_first_tx_id :: u64

definition list_segments :: "directory \<Rightarrow> u32 \<Rightarrow> SegmentRef list" where
  "list_segments d shard_id =
    sort_key seg_first_tx_id (concat (map (\<lambda>(name, c).
      case parse_segment_file_name name shard_id of
        Some tx \<Rightarrow> [\<lparr>seg_path = name, seg_first_tx_id = tx\<rparr>]
      | None \<Rightarrow> []) d))"

section \<open>Validating scan\<close>

record ScanFault =
  fault_offset :: nat
  fault_reason :: string

record SegmentScan =
  scan_entries :: nat
  scan_last_tx :: "u64 option"
  scan_max_epoch :: u64
  scan_valid_len :: nat
  scan_fault :: "ScanFault option"

datatype ScanOutcome = Scanned SegmentScan | HeaderCorrupt string

definition with_fault :: "SegmentScan \<Rightarrow> nat \<Rightarrow> string \<Rightarrow> SegmentScan" where
  "with_fault scan offset reason = scan\<lparr>scan_fault := Some \<lparr>fault_offset = offset, fault_reason = reason\<rparr>\<rparr>"

text \<open>\<open>prev_tx.is_some_and(|prev| tx <= prev)\<close>\<close>

definition not_increasing :: "u64 option \<Rightarrow> u64 \<Rightarrow> bool" where
  "not_increasing prev_tx tx = (case prev_tx of None \<Rightarrow> False | Some prev \<Rightarrow> tx \<le> prev)"

definition scan_accept :: "SegmentScan \<Rightarrow> u64 \<Rightarrow> u64 \<Rightarrow> nat \<Rightarrow> SegmentScan" where
  "scan_accept scan tx epoch end = scan\<lparr>scan_last_tx := Some tx,
    scan_max_epoch := max (scan_max_epoch scan) epoch,
    scan_entries := scan_entries scan + 1, scan_valid_len := end\<rparr>"

lemma scan_entry_progress:
  "scan_entry env bs offset = Entry epoch body end \<Longrightarrow> offset < end \<and> end \<le> length bs"
  by (auto simp: scan_entry_def Let_def ENTRY_OVERHEAD_def split: if_splits)

function scan_loop :: "log_env \<Rightarrow> bytes \<Rightarrow> u32 \<Rightarrow> (u64 \<Rightarrow> TxRecord \<Rightarrow> 's \<Rightarrow> 's result) \<Rightarrow>
    u64 option \<Rightarrow> SegmentScan \<Rightarrow> nat \<Rightarrow> 's \<Rightarrow> (SegmentScan \<times> 's) result" where
  "scan_loop env bs shard_id visit prev_tx scan offset s =
    (case scan_entry env bs offset of
       CleanEof \<Rightarrow> Inr (scan, s)
     | Torn reason \<Rightarrow> Inr (with_fault scan offset reason, s)
     | Corrupt reason \<Rightarrow> Inr (with_fault scan offset reason, s)
     | Entry epoch body end \<Rightarrow>
         if epoch < scan_max_epoch scan then Inr (with_fault scan offset ''entry epoch regresses'', s)
         else (case record_decode env body of
           Inl reason \<Rightarrow> Inr (with_fault scan offset reason, s)
         | Inr record \<Rightarrow>
             if rec_shard_id record \<noteq> shard_id then Inr (with_fault scan offset ''entry shard_id'', s)
             else if not_increasing prev_tx (rec_tx_id record)
             then Inr (with_fault scan offset ''tx_id does not strictly increase'', s)
             else rbind (visit epoch record s) (\<lambda>s'.
               scan_loop env bs shard_id visit (Some (rec_tx_id record))
                 (scan_accept scan (rec_tx_id record) epoch end) end s')))"
  by pat_completeness auto
termination
  by (relation "measure (\<lambda>(env, bs, shard, visit, prev, scan, offset, s). length bs - offset)")
    (auto dest!: scan_entry_progress)

declare scan_loop.simps [simp del]

definition scan_segment_bytes :: "log_env \<Rightarrow> bytes \<Rightarrow> u32 \<Rightarrow> u64 option \<Rightarrow> u64 \<Rightarrow>
    (u64 \<Rightarrow> TxRecord \<Rightarrow> 's \<Rightarrow> 's result) \<Rightarrow> 's \<Rightarrow> (ScanOutcome \<times> 's) result" where
  "scan_segment_bytes env bs shard_id prev_tx min_epoch visit s =
    (case decode_segment_header env bs of
       Inl reason \<Rightarrow> Inr (HeaderCorrupt reason, s)
     | Inr header_epoch \<Rightarrow>
         let scan = \<lparr>scan_entries = 0, scan_last_tx = None, scan_max_epoch = max header_epoch min_epoch,
           scan_valid_len = SEGMENT_HEADER_LEN, scan_fault = None\<rparr> in
         if header_epoch < min_epoch
         then Inr (Scanned (with_fault scan 0 ''segment header epoch regresses''), s)
         else rmap (\<lambda>(sc, s'). (Scanned sc, s'))
           (scan_loop env bs shard_id visit prev_tx scan SEGMENT_HEADER_LEN s))"

section \<open>Quarantine\<close>

record QuarantineReport =
  q_segment :: string
  q_from_offset :: nat
  q_bytes :: nat
  q_sidecar :: string
  q_reason :: string

definition sidecar_path :: "directory \<Rightarrow> string \<Rightarrow> string" where
  "sidecar_path d path =
    (if path @ ''.torn'' \<notin> fst ` set d then path @ ''.torn''
     else the (find (\<lambda>c. c \<notin> fst ` set d)
       (map (\<lambda>n. path @ ''.torn-'' @ dec_string n) [2 ..< length d + 3])))"

definition set_len :: "nat \<Rightarrow> bytes \<Rightarrow> bytes" where
  "set_len n bs = take n bs @ replicate (n - length bs) 0"

definition quarantine_tail :: "directory \<Rightarrow> string \<Rightarrow> nat \<Rightarrow> string \<Rightarrow> (QuarantineReport \<times> directory) result" where
  "quarantine_tail d path from_offset reason =
    rbind (dir_read d path) (\<lambda>bs.
      let tail = drop from_offset bs; sidecar = sidecar_path d path in
      Inr (\<lparr>q_segment = path, q_from_offset = from_offset, q_bytes = length tail, q_sidecar = sidecar,
        q_reason = reason\<rparr>,
        dir_set path (set_len from_offset bs) (d @ [(sidecar, tail)])))"

definition quarantine_whole_file :: "directory \<Rightarrow> string \<Rightarrow> string \<Rightarrow> (QuarantineReport \<times> directory) result" where
  "quarantine_whole_file d path reason =
    rbind (dir_read d path) (\<lambda>bs.
      let sidecar = sidecar_path d path in
      Inr (\<lparr>q_segment = path, q_from_offset = 0, q_bytes = length bs, q_sidecar = sidecar, q_reason = reason\<rparr>,
        dir_remove path d @ [(sidecar, bs)]))"

section \<open>Replay\<close>

record Corruption =
  cor_segment :: string
  cor_offset :: nat
  cor_reason :: string

record ReplayReport =
  rep_records :: nat
  rep_last_tx_id :: "u64 option"
  rep_corruption :: "Corruption option"

definition next_tx_id :: "ReplayReport \<Rightarrow> u64" where
  "next_tx_id rep = (case rep_last_tx_id rep of None \<Rightarrow> 1 | Some tx \<Rightarrow> sat_add tx 1)"

definition option_or :: "'a option \<Rightarrow> 'a option \<Rightarrow> 'a option" where
  "option_or a b = (case a of Some x \<Rightarrow> Some x | None \<Rightarrow> b)"

definition replay_visit :: "(u64 \<Rightarrow> TxRecord \<Rightarrow> 's \<Rightarrow> 's result) \<Rightarrow>
    u64 \<Rightarrow> TxRecord \<Rightarrow> ReplayReport \<times> 's \<Rightarrow> (ReplayReport \<times> 's) result" where
  "replay_visit visit epoch record = (\<lambda>(rep, s). rmap (\<lambda>s'.
    (rep\<lparr>rep_records := rep_records rep + 1, rep_last_tx_id := Some (rec_tx_id record)\<rparr>, s'))
    (visit epoch record s))"

fun replay_loop :: "log_env \<Rightarrow> directory \<Rightarrow> u32 \<Rightarrow> (u64 \<Rightarrow> TxRecord \<Rightarrow> 's \<Rightarrow> 's result) \<Rightarrow>
    SegmentRef list \<Rightarrow> u64 option \<Rightarrow> u64 \<Rightarrow> ReplayReport \<times> 's \<Rightarrow> (ReplayReport \<times> 's) result" where
  "replay_loop env d shard_id visit [] prev_tx min_epoch st = Inr st"
| "replay_loop env d shard_id visit (seg # segs) prev_tx min_epoch st =
    rbind (dir_read d (seg_path seg)) (\<lambda>bs.
    rbind (scan_segment_bytes env bs shard_id prev_tx min_epoch (replay_visit visit) st) (\<lambda>(outcome, (rep, s)).
      case outcome of
        HeaderCorrupt reason \<Rightarrow>
          Inr (rep\<lparr>rep_corruption := Some \<lparr>cor_segment = seg_path seg, cor_offset = 0, cor_reason = reason\<rparr>\<rparr>, s)
      | Scanned scan \<Rightarrow>
          (case scan_fault scan of
             Some fault \<Rightarrow> Inr (rep\<lparr>rep_corruption := Some \<lparr>cor_segment = seg_path seg,
               cor_offset = fault_offset fault, cor_reason = fault_reason fault\<rparr>\<rparr>, s)
           | None \<Rightarrow> replay_loop env d shard_id visit segs (option_or (scan_last_tx scan) prev_tx)
               (max (scan_max_epoch scan) min_epoch) (rep, s))))"

definition replay :: "log_env \<Rightarrow> directory \<Rightarrow> u32 \<Rightarrow> (u64 \<Rightarrow> TxRecord \<Rightarrow> 's \<Rightarrow> 's result) \<Rightarrow>
    's \<Rightarrow> (ReplayReport \<times> 's) result" where
  "replay env d shard_id visit s =
    replay_loop env d shard_id visit (list_segments d shard_id) None 0
      (\<lparr>rep_records = 0, rep_last_tx_id = None, rep_corruption = None\<rparr>, s)"

section \<open>Replication stream source\<close>

definition first_available_tx_id :: "directory \<Rightarrow> u32 \<Rightarrow> u64 option" where
  "first_available_tx_id d shard_id =
    (case list_segments d shard_id of [] \<Rightarrow> None | seg # _ \<Rightarrow> Some (seg_first_tx_id seg))"

record stream_state =
  st_frames :: "bytes list"
  st_last_tx :: u64
  st_budget :: nat

text \<open>The inner loop of \<open>read_frames_after\<close>; the flag says that it returned early.\<close>

function stream_loop :: "log_env \<Rightarrow> bytes \<Rightarrow> u64 \<Rightarrow> nat \<Rightarrow> stream_state \<Rightarrow> (bool \<times> stream_state) result" where
  "stream_loop env bs after_tx offset st =
    (case scan_entry env bs offset of
       CleanEof \<Rightarrow> Inr (False, st)
     | Torn reason \<Rightarrow> Inr (False, st)
     | Corrupt reason \<Rightarrow> Inl (Storage ''corrupt entry while streaming'')
     | Entry epoch body end \<Rightarrow>
         (case record_decode env body of
            Inl reason \<Rightarrow> Inl (Storage reason)
          | Inr record \<Rightarrow>
              if after_tx < rec_tx_id record \<and> rec_tx_id record = st_last_tx st + 1 then
                let frame = byte_slice bs offset end in
                if st_frames st \<noteq> [] \<and> st_budget st < length frame then Inr (True, st)
                else stream_loop env bs after_tx end
                  \<lparr>st_frames = st_frames st @ [frame], st_last_tx = rec_tx_id record,
                   st_budget = st_budget st - length frame\<rparr>
              else stream_loop env bs after_tx end st))"
  by pat_completeness auto
termination
  by (relation "measure (\<lambda>(env, bs, after_tx, offset, st). length bs - offset)")
    (auto dest!: scan_entry_progress)

declare stream_loop.simps [simp del]

fun stream_segments :: "log_env \<Rightarrow> directory \<Rightarrow> u64 \<Rightarrow> SegmentRef list \<Rightarrow> stream_state \<Rightarrow> stream_state result" where
  "stream_segments env d after_tx [] st = Inr st"
| "stream_segments env d after_tx (seg # segs) st =
    rbind (dir_read d (seg_path seg)) (\<lambda>bs.
    rbind (stream_loop env bs after_tx SEGMENT_HEADER_LEN st) (\<lambda>(returned, st').
      if returned then Inr st' else stream_segments env d after_tx segs st'))"

definition read_frames_after :: "log_env \<Rightarrow> directory \<Rightarrow> u32 \<Rightarrow> u64 \<Rightarrow> nat \<Rightarrow> (bytes list \<times> u64) result" where
  "read_frames_after env d shard_id after_tx max_bytes =
    rmap (\<lambda>st. (st_frames st, st_last_tx st))
      (stream_segments env d after_tx (list_segments d shard_id)
        \<lparr>st_frames = [], st_last_tx = after_tx, st_budget = max_bytes\<rparr>)"

section \<open>Compaction\<close>

fun windows2 :: "'a list \<Rightarrow> ('a \<times> 'a) list" where
  "windows2 (x # y # xs) = (x, y) # windows2 (y # xs)"
| "windows2 _ = []"

definition removable :: "u64 \<Rightarrow> u64 option \<Rightarrow> SegmentRef \<times> SegmentRef \<Rightarrow> bool" where
  "removable covered_up_to_tx hold pair =
    (let next_first = seg_first_tx_id (snd pair);
         covered = next_first \<le> sat_add covered_up_to_tx 1;
         held = (case hold of None \<Rightarrow> False | Some h \<Rightarrow> next_first > h)
     in covered \<and> \<not> held)"

definition compact :: "directory \<Rightarrow> u32 \<Rightarrow> u64 option \<Rightarrow> u64 \<Rightarrow> string list \<times> directory" where
  "compact d shard_id hold covered_up_to_tx =
    fold (\<lambda>pair (deleted, d'). 
      if removable covered_up_to_tx hold pair
      then (deleted @ [seg_path (fst pair)], dir_remove (seg_path (fst pair)) d')
      else (deleted, d')) (windows2 (list_segments d shard_id)) ([], d)"

text \<open>\<open>DirectoryArchive::archive\<close> copies the segment into the archive directory under its own name.\<close>

definition archive_segment :: "directory \<Rightarrow> string \<Rightarrow> directory option \<Rightarrow> directory option result" where
  "archive_segment d path archive =
    (case archive of
       None \<Rightarrow> Inr None
     | Some a \<Rightarrow> rmap (\<lambda>bs. Some (dir_remove path a @ [(path, bs)])) (dir_read d path))"

definition compact_covered :: "directory \<Rightarrow> u32 \<Rightarrow> u64 \<Rightarrow> u64 option \<Rightarrow> directory option \<Rightarrow>
    (string list \<times> directory \<times> directory option) result" where
  "compact_covered d shard_id covered_up_to_tx retention_hold archive =
    try_fold (\<lambda>pair (removed, d', a).
      if removable covered_up_to_tx retention_hold pair
      then rmap (\<lambda>a'. (removed @ [seg_path (fst pair)], dir_remove (seg_path (fst pair)) d', a'))
        (archive_segment d' (seg_path (fst pair)) a)
      else Inr (removed, d', a)) (windows2 (list_segments d shard_id)) ([], d, archive)"

end
