(* ===== verification/Blobs.thy ===== *)
theory Blobs
  imports Segment
begin

text \<open>
  The content-addressed blob store, \<open>src/crates/fluxum-core/src/commitlog/blob.rs\<close>: object files
  named by the hexadecimal form of their hash, reference counts, retention holds, upload leases and
  reclamation.  SHA-256 is a function argument, the clock an argument of the operations that read it,
  and the outcome of writing or deleting an object file an argument too, so that I/O failures are
  branches of the operations.  Hash sets are duplicate-free lists.
\<close>

section \<open>Object names\<close>

type_synonym BlobHash = bytes

definition hex_char :: "nat \<Rightarrow> char" where
  "hex_char d = (if d < 10 then char_of (48 + d) else char_of (87 + d))"

definition hash_name :: "BlobHash \<Rightarrow> string" where
  "hash_name h = concat (map (\<lambda>b. [hex_char (unat b div 16), hex_char (unat b mod 16)]) h)"

definition hex_value :: "char \<Rightarrow> nat option" where
  "hex_value c =
    (let v = of_char c in
     if 48 \<le> v \<and> v < 58 then Some (v - 48)
     else if 97 \<le> v \<and> v < 103 then Some (v - 87)
     else if 65 \<le> v \<and> v < 71 then Some (v - 55)
     else None)"

text \<open>\<open>u8::from_str_radix\<close> on two characters; a leading plus sign is part of its grammar.\<close>

definition from_hex_pair :: "char \<Rightarrow> char \<Rightarrow> u8 option" where
  "from_hex_pair a b =
    (if a = CHR ''+'' then map_option word_of_nat (hex_value b)
     else Option.bind (hex_value a) (\<lambda>x. map_option (\<lambda>y. word_of_nat (16 * x + y)) (hex_value b)))"

fun parse_pairs :: "string \<Rightarrow> bytes option" where
  "parse_pairs [] = Some []"
| "parse_pairs [c] = None"
| "parse_pairs (a # b # cs) =
    Option.bind (from_hex_pair a b) (\<lambda>x. map_option (\<lambda>xs. x # xs) (parse_pairs cs))"

definition parse_hash :: "string \<Rightarrow> BlobHash option" where
  "parse_hash name = (if length name \<noteq> 64 then None else parse_pairs name)"

section \<open>The store\<close>

record BlobStore =
  bs_dir :: directory
  bs_refcounts :: "(BlobHash, u64) btree"
  bs_holds :: "(u64, BlobHash list) btree"
  bs_uploads :: "(BlobHash, u64 \<times> nat) btree"
  bs_next_upload_holder :: u64

definition blob_open :: "directory \<Rightarrow> BlobStore" where
  "blob_open d =
    \<lparr>bs_dir = d,
     bs_refcounts = fold (\<lambda>(name, c) m. case parse_hash name of Some h \<Rightarrow> bt_insert h 0 m | None \<Rightarrow> m) d [],
     bs_holds = [], bs_uploads = [], bs_next_upload_holder = 0\<rparr>"

text \<open>
  How writing an object ends: stored, failed with some bytes in the temporary file, or renamed with
  the directory sync failing after it.
\<close>

datatype object_io = Stored | Torn bytes | Unsynced

definition dir_put :: "string \<Rightarrow> bytes \<Rightarrow> directory \<Rightarrow> directory" where
  "dir_put name bs d = dir_remove name d @ [(name, bs)]"

definition write_object :: "object_io \<Rightarrow> BlobHash \<Rightarrow> bytes \<Rightarrow> directory \<Rightarrow> directory \<times> unit result" where
  "write_object io h bs d =
    (if map_of d (hash_name h) \<noteq> None then (d, Inr ())
     else case io of
       Stored \<Rightarrow> (dir_put (hash_name h) bs d, Inr ())
     | Torn part \<Rightarrow> (dir_put (hash_name h @ ''.tmp'') part d, Inl Io)
     | Unsynced \<Rightarrow> (dir_put (hash_name h) bs d, Inl Io))"

definition count_of :: "BlobStore \<Rightarrow> BlobHash \<Rightarrow> u64" where
  "count_of s h = (case bt_get (bs_refcounts s) h of None \<Rightarrow> 0 | Some n \<Rightarrow> n)"

definition blob_put :: "(bytes \<Rightarrow> BlobHash) \<Rightarrow> object_io \<Rightarrow> bytes \<Rightarrow> BlobStore \<Rightarrow> BlobStore \<times> BlobHash result" where
  "blob_put sha io bs s =
    (let h = sha bs; n = count_of s h; s = s\<lparr>bs_refcounts := bt_insert h n (bs_refcounts s)\<rparr>;
       (d, written) = (if n = 0 then write_object io h bs (bs_dir s) else (bs_dir s, Inr ()));
       s = s\<lparr>bs_dir := d\<rparr>
     in case written of
          Inl e \<Rightarrow> (s, Inl e)
        | Inr _ \<Rightarrow> (s\<lparr>bs_refcounts := bt_insert h (n + 1) (bs_refcounts s)\<rparr>, Inr h))"

definition blob_stage :: "(bytes \<Rightarrow> BlobHash) \<Rightarrow> object_io \<Rightarrow> nat \<Rightarrow> bytes \<Rightarrow> BlobStore \<Rightarrow> BlobStore \<times> BlobHash result" where
  "blob_stage sha io now bs s =
    (let h = sha bs; s = s\<lparr>bs_refcounts := bt_insert h (count_of s h) (bs_refcounts s)\<rparr>;
       (d, written) = write_object io h bs (bs_dir s); s = s\<lparr>bs_dir := d\<rparr>
     in case written of
          Inl e \<Rightarrow> (s, Inl e)
        | Inr _ \<Rightarrow>
            if bt_get (bs_uploads s) h \<noteq> None then (s, Inr h)
            else let holder = (- 1) - bs_next_upload_holder s;
                held = (case bt_get (bs_holds s) holder of None \<Rightarrow> [] | Some hs \<Rightarrow> hs)
              in (s\<lparr>bs_next_upload_holder := bs_next_upload_holder s + 1,
                bs_holds := bt_insert holder (List.insert h held) (bs_holds s),
                bs_uploads := bt_insert h (holder, now) (bs_uploads s)\<rparr>, Inr h))"

definition blob_contains :: "BlobStore \<Rightarrow> BlobHash \<Rightarrow> bool" where
  "blob_contains s h = (bt_get (bs_refcounts s) h \<noteq> None)"

definition release_lease :: "BlobHash \<Rightarrow> BlobStore \<Rightarrow> BlobStore" where
  "release_lease h s =
    (case bt_get (bs_uploads s) h of
       None \<Rightarrow> s
     | Some (holder, _) \<Rightarrow> s\<lparr>bs_uploads := bt_remove h (bs_uploads s), bs_holds := bt_remove holder (bs_holds s)\<rparr>)"

definition blob_incref :: "BlobHash \<Rightarrow> BlobStore \<Rightarrow> BlobStore \<times> u64 result" where
  "blob_incref h s =
    (case bt_get (bs_refcounts s) h of
       None \<Rightarrow> (s, Inl (Storage ''incref of unknown blob''))
     | Some n \<Rightarrow> (release_lease h (s\<lparr>bs_refcounts := bt_insert h (n + 1) (bs_refcounts s)\<rparr>), Inr (n + 1)))"

definition rebuild_refcounts :: "BlobHash list \<Rightarrow> BlobStore \<Rightarrow> BlobStore" where
  "rebuild_refcounts references s =
    (let zeroed = map (\<lambda>(h, n). (h, 0)) (bs_refcounts s) in
     s\<lparr>bs_refcounts := fold (\<lambda>h m. bt_insert h ((case bt_get m h of None \<Rightarrow> 0 | Some n \<Rightarrow> n) + 1) m) references zeroed\<rparr>)"

definition blob_get :: "BlobStore \<Rightarrow> BlobHash \<Rightarrow> bytes option result" where
  "blob_get s h =
    (if \<not> blob_contains s h then Inr None else rmap Some (dir_read (bs_dir s) (hash_name h)))"

definition blob_unref :: "BlobHash \<Rightarrow> BlobStore \<Rightarrow> BlobStore \<times> unit result" where
  "blob_unref h s =
    (case bt_get (bs_refcounts s) h of
       None \<Rightarrow> (s, Inl (Storage ''unref of unknown blob''))
     | Some n \<Rightarrow> (s\<lparr>bs_refcounts := bt_insert h (sat_sub n 1) (bs_refcounts s)\<rparr>, Inr ()))"

definition blob_hold :: "u64 \<Rightarrow> BlobHash list \<Rightarrow> BlobStore \<Rightarrow> BlobStore" where
  "blob_hold holder hashes s =
    (let held = (case bt_get (bs_holds s) holder of None \<Rightarrow> [] | Some hs \<Rightarrow> hs)
     in s\<lparr>bs_holds := bt_insert holder (fold List.insert hashes held) (bs_holds s)\<rparr>)"

definition release_hold :: "u64 \<Rightarrow> BlobStore \<Rightarrow> BlobStore" where
  "release_hold holder s = s\<lparr>bs_holds := bt_remove holder (bs_holds s)\<rparr>"

definition held :: "BlobStore \<Rightarrow> BlobHash \<Rightarrow> bool" where
  "held s h = (\<exists>(holder, hs)\<in>set (bs_holds s). h \<in> set hs)"

definition candidates :: "BlobStore \<Rightarrow> BlobHash list" where
  "candidates s = map fst (filter (\<lambda>(h, n). n = 0 \<and> \<not> held s h) (bs_refcounts s))"

text \<open>\<open>stuck h\<close>: removing the object file of \<open>h\<close> fails.\<close>

fun reclaim_loop :: "(BlobHash \<Rightarrow> bool) \<Rightarrow> BlobHash list \<Rightarrow> BlobStore \<Rightarrow> BlobStore \<times> unit result" where
  "reclaim_loop stuck [] s = (s, Inr ())"
| "reclaim_loop stuck (h # hs) s =
    (if map_of (bs_dir s) (hash_name h) \<noteq> None \<and> stuck h then (s, Inl Io)
     else reclaim_loop stuck hs
       (s\<lparr>bs_dir := dir_remove (hash_name h) (bs_dir s), bs_refcounts := bt_remove h (bs_refcounts s)\<rparr>))"

definition reclaim :: "(BlobHash \<Rightarrow> bool) \<Rightarrow> BlobStore \<Rightarrow> BlobStore \<times> BlobHash list result" where
  "reclaim stuck s =
    (let cs = candidates s; (s, r) = reclaim_loop stuck cs s in (s, rmap (\<lambda>_. cs) r))"

definition blob_gc :: "(BlobHash \<Rightarrow> bool) \<Rightarrow> nat \<Rightarrow> nat \<Rightarrow> BlobStore \<Rightarrow> BlobStore \<times> BlobHash list result" where
  "blob_gc stuck now orphan_after s =
    (let stale = map fst (filter (\<lambda>(h, holder, staged_at). orphan_after \<le> now - staged_at) (bs_uploads s))
     in reclaim stuck (fold release_lease stale s))"

section \<open>Names and contents\<close>

lemma hex_value_char: "d < 16 \<Longrightarrow> hex_value (hex_char d) = Some d \<and> hex_char d \<noteq> CHR ''+''"
proof -
  assume d: "d < 16"
  have "hex_value (hex_char d) = Some d"
    using d by (auto simp: hex_value_def hex_char_def Let_def of_char_of)
  moreover have "hex_value (CHR ''+'') = None" by (simp add: hex_value_def)
  ultimately show ?thesis by auto
qed

lemma parse_pairs_name: "parse_pairs (hash_name h @ cs) = map_option ((@) h) (parse_pairs cs)"
proof (induction h)
  case Nil
  then show ?case by (simp add: hash_name_def option.map_ident)
next
  case (Cons b h)
  have b: "unat b < 256" using unat_bound [of b] by simp
  have "word_of_nat (16 * (unat b div 16) + unat b mod 16) = b" by simp
  then have "from_hex_pair (hex_char (unat b div 16)) (hex_char (unat b mod 16)) = Some b"
    using hex_value_char [of "unat b div 16"] hex_value_char [of "unat b mod 16"] b
    by (simp add: from_hex_pair_def del: of_nat_add of_nat_mult mult_div_mod_eq)
  then show ?case
    using Cons by (simp add: hash_name_def option.map_comp comp_def)
qed

lemma length_hash_name [simp]: "length (hash_name h) = 2 * length h"
  by (induction h) (auto simp: hash_name_def)

lemma parse_hash_name: "length h = 32 \<Longrightarrow> parse_hash (hash_name h) = Some h"
  using parse_pairs_name [of h "[]"] by (simp add: parse_hash_def)

lemma hash_name_inj [simp]: "hash_name h = hash_name h' \<longleftrightarrow> h = h'"
proof -
  have "parse_pairs (hash_name h) = Some h" for h using parse_pairs_name [of h "[]"] by simp
  then show ?thesis by (metis option.inject)
qed

lemma map_of_dir_remove: "map_of (dir_remove n d) m = (if m = n then None else map_of d m)"
  by (induction d) (auto simp: dir_remove_def)

lemma map_of_dir_put: "map_of (dir_put n bs d) m = (if m = n then Some bs else map_of d m)"
  by (auto simp: dir_put_def map_of_dir_remove map_add_def split: option.splits)

text \<open>Object files carry the content their name says, and every counted hash has one.\<close>

definition contents_ok :: "(bytes \<Rightarrow> BlobHash) \<Rightarrow> directory \<Rightarrow> bool" where
  "contents_ok sha d = (\<forall>h bs. length h = 32 \<longrightarrow> map_of d (hash_name h) = Some bs \<longrightarrow> sha bs = h)"

definition blob_inv :: "(bytes \<Rightarrow> BlobHash) \<Rightarrow> BlobStore \<Rightarrow> bool" where
  "blob_inv sha s =
    (bt_wf (bs_refcounts s) \<and> bt_wf (bs_holds s) \<and> bt_wf (bs_uploads s) \<and> contents_ok sha (bs_dir s) \<and>
     (\<forall>h. blob_contains s h \<longrightarrow> length h = 32 \<and> map_of (bs_dir s) (hash_name h) \<noteq> None))"

text \<open>A directory that also names its object files canonically.\<close>

definition dir_ok :: "(bytes \<Rightarrow> BlobHash) \<Rightarrow> directory \<Rightarrow> bool" where
  "dir_ok sha d =
    (contents_ok sha d \<and> (\<forall>(name, bs)\<in>set d. \<forall>h. parse_hash name = Some h \<longrightarrow> name = hash_name h))"

inductive blob_step :: "(bytes \<Rightarrow> BlobHash) \<Rightarrow> object_io set \<Rightarrow> BlobStore \<Rightarrow> BlobStore \<Rightarrow> bool" for sha ios where
  put: "io \<in> ios \<Longrightarrow> blob_step sha ios s (fst (blob_put sha io bs s))"
| stage: "io \<in> ios \<Longrightarrow> blob_step sha ios s (fst (blob_stage sha io now bs s))"
| incref: "blob_step sha ios s (fst (blob_incref h s))"
| unref: "blob_step sha ios s (fst (blob_unref h s))"
| rebuild: "\<forall>h\<in>set refs. blob_contains s h \<Longrightarrow> blob_step sha ios s (rebuild_refcounts refs s)"
| hold: "blob_step sha ios s (blob_hold holder hs s)"
| release: "blob_step sha ios s (release_hold holder s)"
| reclaim: "blob_step sha ios s (fst (reclaim stuck s))"
| gc: "blob_step sha ios s (fst (blob_gc stuck now orphan_after s))"

lemma parse_pairs_length: "parse_pairs cs = Some h \<Longrightarrow> length cs = 2 * length h"
  by (induction cs arbitrary: h rule: parse_pairs.induct) (auto simp: bind_eq_Some_conv)

lemma open_inv:
  assumes "dir_ok sha d"
  shows "blob_inv sha (blob_open d)"
proof -
  let ?f = "\<lambda>(name, c) m. case parse_hash name of Some h \<Rightarrow> bt_insert h 0 m | None \<Rightarrow> m"
  have ok: "length h = 32 \<and> map_of d (hash_name h) \<noteq> None" if "(name, c) \<in> set d" "parse_hash name = Some h" for name c h
  proof -
    have "length h = 32" using that(2) parse_pairs_length by (auto simp: parse_hash_def split: if_splits)
    moreover have "name = hash_name h" using assms that by (auto simp: dir_ok_def)
    moreover have "name \<in> fst ` set d" using that(1) by (rule image_eqI [rotated]) simp
    ultimately show ?thesis by (simp add: map_of_eq_None_iff)
  qed
  let ?P = "\<lambda>m :: (BlobHash, u64) btree. bt_wf m \<and> (\<forall>h. bt_get m h \<noteq> None \<longrightarrow> length h = 32 \<and> map_of d (hash_name h) \<noteq> None)"
  have "?P (fold ?f d [])"
  proof (rule fold_invariant [where Q = "\<lambda>x. x \<in> set d" and P = ?P])
    fix x and m :: "(BlobHash, u64) btree" assume x: "x \<in> set d" and m: "?P m"
    obtain name c where n: "x = (name, c)" by (cases x)
    show "?P (?f x m)"
    proof (cases "parse_hash name")
      case (Some h)
      have "length h = 32 \<and> map_of d (hash_name h) \<noteq> None" using ok [OF x [unfolded n] Some] .
      then show ?thesis using m Some by (simp add: n bt_get_insert)
    qed (use m in \<open>simp add: n\<close>)
  qed simp_all
  then show ?thesis
    using assms [unfolded dir_ok_def] by (simp add: blob_inv_def blob_open_def blob_contains_def)
qed

lemma write_object_keeps:
  assumes "contents_ok sha d" "length (sha bs) = 32" "\<And>p. io \<noteq> Torn p"
  shows "contents_ok sha (fst (write_object io (sha bs) bs d))"
    and "map_of (fst (write_object io (sha bs) bs d)) (hash_name (sha bs)) \<noteq> None"
    and "map_of d n \<noteq> None \<Longrightarrow> map_of (fst (write_object io (sha bs) bs d)) n \<noteq> None"
proof -
  have io: "io = Stored \<or> io = Unsynced" using assms(3) by (cases io) auto
  show "contents_ok sha (fst (write_object io (sha bs) bs d))"
    using io assms(1) by (elim disjE) (simp_all add: write_object_def contents_ok_def map_of_dir_put)
  show "map_of (fst (write_object io (sha bs) bs d)) (hash_name (sha bs)) \<noteq> None"
    using io by (elim disjE) (simp_all add: write_object_def map_of_dir_put)
  show "map_of (fst (write_object io (sha bs) bs d)) n \<noteq> None" if "map_of d n \<noteq> None"
    using io that by (elim disjE) (simp_all add: write_object_def map_of_dir_put)
qed

lemma put_inv:
  assumes inv: "blob_inv sha s" and sha: "\<And>bs. length (sha bs) = 32" and io: "\<And>p. io \<noteq> Torn p"
  shows "blob_inv sha (fst (blob_put sha io bs s))"
proof -
  have "bt_get (bs_refcounts s) (sha bs) \<noteq> None" if "count_of s (sha bs) \<noteq> 0"
    using that by (cases "bt_get (bs_refcounts s) (sha bs)") (auto simp: count_of_def)
  then show ?thesis
    using inv write_object_keeps [of sha "bs_dir s" bs io, OF _ sha io] sha
    by (auto simp: blob_put_def blob_inv_def blob_contains_def Let_def split_def bt_get_insert split: sum.splits)
qed

lemma stage_inv:
  assumes inv: "blob_inv sha s" and sha: "\<And>bs. length (sha bs) = 32" and io: "\<And>p. io \<noteq> Torn p"
  shows "blob_inv sha (fst (blob_stage sha io now bs s))"
  using inv write_object_keeps [of sha "bs_dir s" bs io, OF _ sha io] sha
  by (auto simp: blob_stage_def blob_inv_def blob_contains_def Let_def split_def bt_get_insert split: sum.splits)

lemma lease_inv: "blob_inv sha s \<Longrightarrow> blob_inv sha (release_lease h s)"
  by (auto simp: release_lease_def blob_inv_def blob_contains_def split: option.splits prod.splits)

lemma lease_same [simp]: "bs_refcounts (release_lease h s) = bs_refcounts s" "bs_dir (release_lease h s) = bs_dir s"
  by (auto simp: release_lease_def split: option.splits)

lemma refcount_inv:
  "blob_inv sha s \<Longrightarrow> blob_contains s h \<Longrightarrow> blob_inv sha (s\<lparr>bs_refcounts := bt_insert h n (bs_refcounts s)\<rparr>)"
  by (auto simp: blob_inv_def blob_contains_def bt_get_insert)

lemma rebuild_inv:
  assumes inv: "blob_inv sha s" and refs: "\<forall>h\<in>set refs. blob_contains s h"
  shows "blob_inv sha (rebuild_refcounts refs s)"
proof -
  let ?f = "\<lambda>h m. bt_insert h ((case bt_get m h of None \<Rightarrow> 0 | Some n \<Rightarrow> n) + 1) m"
  let ?P = "\<lambda>m :: (BlobHash, u64) btree. bt_wf m \<and> (\<forall>h. bt_get m h \<noteq> None \<longrightarrow> blob_contains s h)"
  let ?zero = "map (\<lambda>(h, n). (h, 0 :: u64)) (bs_refcounts s)"
  have "bt_wf ?zero" using inv by (simp add: blob_inv_def bt_wf_def comp_def split_def)
  moreover have "bt_get ?zero h \<noteq> None \<longleftrightarrow> blob_contains s h" for h
    by (simp add: blob_contains_def bt_get_None_iff image_image split_def del: not_None_eq)
  ultimately have "?P (fold ?f refs ?zero)"
    using refs by (intro fold_invariant [where Q = "\<lambda>h. blob_contains s h" and P = ?P]) (simp_all add: bt_get_insert)
  then show ?thesis
    using inv by (simp add: blob_inv_def rebuild_refcounts_def Let_def blob_contains_def [of "s\<lparr>bs_refcounts := _\<rparr>"])
qed

lemma dir_remove_contents: "contents_ok sha d \<Longrightarrow> contents_ok sha (dir_remove n d)"
  by (auto simp: contents_ok_def map_of_dir_remove)

lemma reclaim_loop_inv: "blob_inv sha s \<Longrightarrow> blob_inv sha (fst (reclaim_loop stuck hs s))"
proof (induction stuck hs s rule: reclaim_loop.induct)
  case (2 stuck h hs s)
  let ?s = "s\<lparr>bs_dir := dir_remove (hash_name h) (bs_dir s), bs_refcounts := bt_remove h (bs_refcounts s)\<rparr>"
  have "blob_inv sha ?s"
    using 2(2) by (simp add: blob_inv_def blob_contains_def dir_remove_contents map_of_dir_remove bt_get_remove)
  then show ?case using 2 by (cases "map_of (bs_dir s) (hash_name h) \<noteq> None \<and> stuck h") simp_all
qed simp

lemma reclaim_inv: "blob_inv sha s \<Longrightarrow> blob_inv sha (fst (reclaim stuck s))"
  using reclaim_loop_inv [of sha s stuck "candidates s"] by (simp add: reclaim_def Let_def split_def)

lemma leases_inv: "blob_inv sha s \<Longrightarrow> blob_inv sha (fold release_lease hs s)"
  by (induction hs arbitrary: s) (auto intro: lease_inv)

lemma blob_step_inv:
  assumes "blob_step sha ios s s'" "blob_inv sha s" "\<And>bs. length (sha bs) = 32" "\<And>p. Torn p \<notin> ios"
  shows "blob_inv sha s'"
  using assms
proof (induction rule: blob_step.induct)
  case (incref s h)
  then show ?case
    by (auto simp: blob_incref_def blob_contains_def intro!: lease_inv refcount_inv split: option.splits)
next
  case (unref s h)
  then show ?case by (auto simp: blob_unref_def blob_contains_def intro!: refcount_inv split: option.splits)
next
  case (gc s stuck now orphan_after)
  then show ?case by (simp add: blob_gc_def Let_def reclaim_inv leases_inv)
next
  case (put io s bs)
  then show ?case by (intro put_inv) auto
next
  case (stage io s now bs)
  then show ?case by (intro stage_inv) auto
next
  case (rebuild refs s)
  then show ?case by (intro rebuild_inv)
next
  case (reclaim s stuck)
  then show ?case by (intro reclaim_inv)
next
  case (hold s holder hs)
  then show ?case by (simp add: blob_hold_def blob_inv_def blob_contains_def Let_def)
next
  case (release s holder)
  then show ?case by (simp add: release_hold_def blob_inv_def blob_contains_def)
qed

section \<open>Properties of the blob store\<close>

lemma reclaim_loop_frame:
  "h \<notin> set hs \<Longrightarrow> bt_wf (bs_refcounts s) \<Longrightarrow>
   bt_get (bs_refcounts (fst (reclaim_loop stuck hs s))) h = bt_get (bs_refcounts s) h \<and>
   map_of (bs_dir (fst (reclaim_loop stuck hs s))) (hash_name h) = map_of (bs_dir s) (hash_name h)"
proof (induction stuck hs s rule: reclaim_loop.induct)
  case (2 stuck x hs s)
  then show ?case by (simp add: map_of_dir_remove bt_get_remove)
qed simp

lemma reclaim_loop_done:
  "snd (reclaim_loop stuck hs s) = Inr () \<Longrightarrow> bt_wf (bs_refcounts s) \<Longrightarrow> h \<in> set hs \<Longrightarrow>
   bt_get (bs_refcounts (fst (reclaim_loop stuck hs s))) h = None"
proof (induction stuck hs s rule: reclaim_loop.induct)
  case (2 stuck x hs s)
  show ?case
  proof (cases "h \<in> set hs")
    case True
    then show ?thesis using 2 by (auto split: if_splits)
  next
    case False
    then show ?thesis
      using 2 reclaim_loop_frame [of h hs "s\<lparr>bs_dir := dir_remove (hash_name x) (bs_dir s), bs_refcounts := bt_remove x (bs_refcounts s)\<rparr>" stuck]
      by (auto simp: bt_get_remove split: if_splits)
  qed
qed simp

lemma candidates_iff: "bt_wf (bs_refcounts s) \<Longrightarrow> h \<in> set (candidates s) \<longleftrightarrow> bt_get (bs_refcounts s) h = Some 0 \<and> \<not> held s h"
  by (force simp: candidates_def bt_get_Some_iff)

lemma blob_get_cong:
  "bt_get (bs_refcounts s') h = bt_get (bs_refcounts s) h \<Longrightarrow> map_of (bs_dir s') (hash_name h) = map_of (bs_dir s) (hash_name h) \<Longrightarrow>
   blob_get s' h = blob_get s h"
  by (simp add: blob_get_def blob_contains_def dir_read_def)

lemma leases_same [simp]:
  "bs_refcounts (fold release_lease hs s) = bs_refcounts s" "bs_dir (fold release_lease hs s) = bs_dir s"
  by (induction hs arbitrary: s) simp_all

text \<open>
  C11: reclamation deletes exactly the garbage.  A blob that a row references, or that a retention
  hold pins, reads the same before and after \<open>reclaim\<close>, whatever I/O fails on the way; when \<open>reclaim\<close>
  succeeds, it reports and forgets exactly the known blobs with no reference and no hold.  A
  garbage collection, which first drops expired upload leases, leaves every referenced blob readable
  as before.
\<close>

theorem reclaim_exact:
  assumes "bt_wf (bs_refcounts s)"
  shows "(count_of s h \<noteq> 0 \<or> held s h \<longrightarrow> blob_get (fst (reclaim stuck s)) h = blob_get s h) \<and>
    (snd (reclaim stuck s) = Inr hs \<longrightarrow>
      set hs = {h. bt_get (bs_refcounts s) h = Some 0 \<and> \<not> held s h} \<and>
      (blob_contains (fst (reclaim stuck s)) h \<longleftrightarrow> blob_contains s h \<and> h \<notin> set hs)) \<and>
    (count_of s h \<noteq> 0 \<longrightarrow> blob_get (fst (blob_gc stuck now orphan_after s)) h = blob_get s h)"
proof -
  have keep: "blob_get (fst (reclaim stuck s')) h = blob_get s' h"
    if "bt_wf (bs_refcounts s')" "count_of s' h \<noteq> 0 \<or> held s' h" for s'
  proof -
    have "h \<notin> set (candidates s')" using that by (auto simp: candidates_iff count_of_def)
    then show ?thesis
      using reclaim_loop_frame [OF _ that(1)] by (auto simp: reclaim_def Let_def split_def intro: blob_get_cong)
  qed
  let ?stale = "map fst (filter (\<lambda>(h, holder, staged_at). orphan_after \<le> now - staged_at) (bs_uploads s))"
  have "blob_get (fst (blob_gc stuck now orphan_after s)) h = blob_get s h" if "count_of s h \<noteq> 0"
    using keep [of "fold release_lease ?stale s"] assms that
    by (simp add: blob_gc_def Let_def count_of_def blob_get_def blob_contains_def dir_read_def)
  moreover have "set hs = {h. bt_get (bs_refcounts s) h = Some 0 \<and> \<not> held s h} \<and>
      (blob_contains (fst (reclaim stuck s)) h \<longleftrightarrow> blob_contains s h \<and> h \<notin> set hs)" if ok: "snd (reclaim stuck s) = Inr hs"
  proof -
    have hs: "hs = candidates s" and fin: "snd (reclaim_loop stuck (candidates s) s) = Inr ()"
      using ok by (auto simp: reclaim_def Let_def split_def rmap_eq_Inr_iff)
    have "blob_contains (fst (reclaim stuck s)) h \<longleftrightarrow> blob_contains s h \<and> h \<notin> set hs"
      using reclaim_loop_frame [of h "candidates s" s stuck] reclaim_loop_done [OF fin assms, of h] assms
      by (cases "h \<in> set (candidates s)") (auto simp: hs reclaim_def Let_def split_def blob_contains_def)
    then show ?thesis using candidates_iff [OF assms] by (auto simp: hs)
  qed
  ultimately show ?thesis using keep [OF assms] by blast
qed


text \<open>
  C35: a failed upload leaves a phantom.  When staging a new blob fails while writing its temporary
  file, the call returns the I/O error, yet the store now answers that it contains the hash: a row may
  reference it, and reading it fails.
\<close>

theorem failed_stage_phantom:
  assumes "length (sha bs) = 32" "map_of (bs_dir s) (hash_name (sha bs)) = None"
  shows "snd (blob_stage sha (Torn part) now bs s) = Inl Io \<and>
    blob_contains (fst (blob_stage sha (Torn part) now bs s)) (sha bs) \<and>
    blob_get (fst (blob_stage sha (Torn part) now bs s)) (sha bs) = Inl Io"
proof -
  have "hash_name (sha bs) @ ''.tmp'' \<noteq> hash_name (sha bs)" by simp
  then show ?thesis
    using assms
    by (simp add: blob_stage_def Let_def split_def write_object_def blob_contains_def bt_get_insert blob_get_def dir_read_def
      map_of_dir_put)
qed

definition demo_sha :: "bytes \<Rightarrow> BlobHash" where
  "demo_sha bs = take 32 (bs @ replicate 32 0)"

definition demo_blobs :: BlobStore where
  "demo_blobs = fst (blob_put demo_sha Stored [1, 2] (blob_open []))"

lemma demo_sha_length: "length (demo_sha bs) = 32"
  by (simp add: demo_sha_def)

theorem reclaim_exact_witness:
  "blob_get (fst (reclaim (\<lambda>h. True) demo_blobs)) (demo_sha [1, 2]) = Inr (Some [1, 2])"
proof -
  have wf: "bt_wf (bs_refcounts demo_blobs)" and n: "count_of demo_blobs (demo_sha [1, 2]) \<noteq> 0"
    and g: "blob_get demo_blobs (demo_sha [1, 2]) = Inr (Some [1, 2])"
    by (simp_all add: demo_blobs_def blob_put_def blob_open_def count_of_def write_object_def Let_def bt_get_insert
      blob_get_def blob_contains_def dir_read_def map_of_dir_put)
  show ?thesis using reclaim_exact [OF wf] n g by metis
qed


theorem failed_stage_phantom_witness:
  "blob_get (fst (blob_stage demo_sha (Torn []) 0 [7] (blob_open []))) (demo_sha [7]) = Inl Io"
  using failed_stage_phantom [of demo_sha "[7]" "blob_open []" "[]" 0] by (simp add: demo_sha_length blob_open_def)

end
