(* ===== verification/Store.thy ===== *)
theory Store
  imports Tables Blobs
begin

text \<open>
  The transactional store, \<open>src/crates/fluxum-core/src/store/memstore.rs\<close> with its children
  \<open>memstore/tx.rs\<close> and \<open>memstore/build.rs\<close>, and the write buffer of \<open>store/tx.rs\<close>.

  A transaction holds the writer's state, the committed tables it began on and its buffered
  operations; an operation that fails returns its error together with the transaction, since buffered
  operations and counter advances made before the error stay.  Link-time registrations (computed
  columns, checks, foreign keys, triggers) and the attached column transforms are fields that hold
  functions.  Hash maps are sorted association lists.  Spatial and full-text indexes are left out.
\<close>

section \<open>Equality of values\<close>

text \<open>The derived \<open>PartialEq\<close>: floats compare by IEEE 754, everything else structurally.\<close>

unbundle bit_operations_syntax

definition f32_nan :: "u32 \<Rightarrow> bool" where
  "f32_nan b = (b AND 0x7F800000 = 0x7F800000 \<and> b AND 0x007FFFFF \<noteq> 0)"

definition f32_eq :: "u32 \<Rightarrow> u32 \<Rightarrow> bool" where
  "f32_eq a b = (\<not> f32_nan a \<and> \<not> f32_nan b \<and> (a = b \<or> (a AND 0x7FFFFFFF = 0 \<and> b AND 0x7FFFFFFF = 0)))"

definition f64_nan :: "u64 \<Rightarrow> bool" where
  "f64_nan b = (b AND 0x7FF0000000000000 = 0x7FF0000000000000 \<and> b AND 0x000FFFFFFFFFFFFF \<noteq> 0)"

definition f64_eq :: "u64 \<Rightarrow> u64 \<Rightarrow> bool" where
  "f64_eq a b = (\<not> f64_nan a \<and> \<not> f64_nan b \<and>
    (a = b \<or> (a AND 0x7FFFFFFFFFFFFFFF = 0 \<and> b AND 0x7FFFFFFFFFFFFFFF = 0)))"

fun value_eq :: "RowValue \<Rightarrow> RowValue \<Rightarrow> bool" where
  "value_eq (VF32 a) w = (case w of VF32 b \<Rightarrow> f32_eq a b | _ \<Rightarrow> False)"
| "value_eq (VF64 a) w = (case w of VF64 b \<Rightarrow> f64_eq a b | _ \<Rightarrow> False)"
| "value_eq (VOptional (Some a)) w = (case w of VOptional (Some b) \<Rightarrow> value_eq a b | _ \<Rightarrow> False)"
| "value_eq (VList a) w = (case w of VList b \<Rightarrow> list_all2 value_eq a b | _ \<Rightarrow> False)"
| "value_eq (VEnum t a) w = (case w of VEnum u b \<Rightarrow> t = u \<and> list_all2 value_eq a b | _ \<Rightarrow> False)"
| "value_eq (VStruct a) w = (case w of VStruct b \<Rightarrow> list_all2 value_eq a b | _ \<Rightarrow> False)"
| "value_eq v w = (v = w)"

definition row_eq :: "Row \<Rightarrow> Row \<Rightarrow> bool" where
  "row_eq a b = list_all2 value_eq a b"

section \<open>Counters\<close>

record AutoIncCounter =
  next_id :: u64
  ctr_high_water :: u64

definition counter_new :: AutoIncCounter where
  "counter_new = \<lparr>next_id = 1, ctr_high_water = 0\<rparr>"

definition allocate :: "u64 \<Rightarrow> AutoIncCounter \<Rightarrow> (u64 \<times> bool) \<times> AutoIncCounter" where
  "allocate step c =
    (let advanced = next_id c > ctr_high_water c;
       high_water = (if advanced then sat_add (next_id c) (step - 1) else ctr_high_water c)
     in ((next_id c, advanced), \<lparr>next_id = sat_add (next_id c) 1, ctr_high_water = high_water\<rparr>))"

definition observe_explicit :: "u64 \<Rightarrow> AutoIncCounter \<Rightarrow> bool \<times> AutoIncCounter" where
  "observe_explicit value c =
    (let c = (if value \<ge> next_id c then c\<lparr>next_id := sat_add value 1\<rparr> else c)
     in if value > ctr_high_water c then (True, c\<lparr>ctr_high_water := value\<rparr>) else (False, c))"

definition resumed :: "u64 \<Rightarrow> AutoIncCounter" where
  "resumed high_water = \<lparr>next_id = sat_add high_water 1, ctr_high_water = high_water\<rparr>"

record WriterState =
  next_tx_id :: u64
  next_version :: u64
  counters :: "(TableId, AutoIncCounter) btree"
  high_water_dirty :: "TableId list"

section \<open>The store\<close>

type_synonym tables = "(TableId, TableState) btree"

datatype RefAction = Restrict | Cascade | SetNull

record ResolvedFk =
  fk_child :: TableId
  fk_child_schema :: TableSchema
  fk_child_ordinal :: nat
  fk_parent :: TableId
  fk_parent_schema :: TableSchema
  fk_on_delete :: RefAction

record TransformEngine =
  te_touches :: "TableId \<Rightarrow> bool"
  te_on_write :: "TableId \<Rightarrow> Row \<Rightarrow> PkBytes \<Rightarrow> Row result"
  te_on_read :: "TableId \<Rightarrow> Row \<Rightarrow> PkBytes \<Rightarrow> Row result"

type_synonym history_entry = "u64 \<times> u64 \<times> tables"

record MemStore =
  ms_catalog :: "(TableId, TableSchema) btree"
  ms_committed :: tables
  ms_version :: u64
  ms_writer :: WriterState
  ms_step :: u64
  ms_window :: nat
  ms_window_max_bytes :: u64
  ms_blobs :: "BlobStore option"
  ms_transforms :: "TransformEngine option"
  ms_computed :: "(TableId, (nat \<times> (Row \<Rightarrow> RowValue result)) list) btree"
  ms_checks :: "(TableId, (Row \<Rightarrow> bool result) list) btree"
  ms_not_null :: "(TableId, nat list) btree"
  ms_fks_out :: "(TableId, ResolvedFk list) btree"
  ms_fks_in :: "(TableId, ResolvedFk list) btree"
  ms_history :: "history_entry list"
  ms_global_writes_allowed :: bool
  ms_has_triggers :: "TableId \<Rightarrow> bool"

definition schema_of :: "MemStore \<Rightarrow> TableId \<Rightarrow> TableSchema result" where
  "schema_of st table = ok_or (Storage ''unknown table id'') (bt_get (ms_catalog st) table)"

definition state_table :: "tables \<Rightarrow> TableId \<Rightarrow> TableState result" where
  "state_table tables table = ok_or (Storage ''unknown table id'') (bt_get tables table)"

definition registered :: "(TableId, 'a list) btree \<Rightarrow> TableId \<Rightarrow> 'a list" where
  "registered m table = (case bt_get m table of None \<Rightarrow> [] | Some xs \<Rightarrow> xs)"

section \<open>Transactions\<close>

datatype TriggerKind = TInsert | TUpdate | TDelete

record TriggerEvent =
  ev_table :: TableId
  ev_kind :: TriggerKind
  ev_old :: "Row option"
  ev_new :: "Row option"

record Tx =
  tx_base :: tables
  tx_writer :: WriterState
  tx_id :: u64
  tx_tables :: "(TableId, (PkBytes, PendingOp) btree) btree"
  tx_events :: "TriggerEvent list"

definition begin_tx :: "MemStore \<Rightarrow> Tx" where
  "begin_tx st =
    \<lparr>tx_base = ms_committed st, tx_writer = ms_writer st, tx_id = next_tx_id (ms_writer st),
     tx_tables = [], tx_events = []\<rparr>"

definition table_ops :: "Tx \<Rightarrow> TableId \<Rightarrow> (PkBytes, PendingOp) btree" where
  "table_ops tx table = (case bt_get (tx_tables tx) table of None \<Rightarrow> [] | Some ops \<Rightarrow> ops)"

definition set_ops :: "TableId \<Rightarrow> (PkBytes, PendingOp) btree \<Rightarrow> Tx \<Rightarrow> Tx" where
  "set_ops table ops tx = tx\<lparr>tx_tables := bt_insert table ops (tx_tables tx)\<rparr>"

text \<open>\<open>for x in xs { f(x)?; }\<close> over a state that keeps what happened before an error.\<close>

fun run_each :: "('a \<Rightarrow> 's \<Rightarrow> 's \<times> ('e + unit)) \<Rightarrow> 'a list \<Rightarrow> 's \<Rightarrow> 's \<times> ('e + unit)" where
  "run_each f [] s = (s, Inr ())"
| "run_each f (x # xs) s =
    (case f x s of
       (s', Inl e) \<Rightarrow> (s', Inl e)
     | (s', Inr _) \<Rightarrow> run_each f xs s')"

fun try_each :: "('a \<Rightarrow> 'e + unit) \<Rightarrow> 'a list \<Rightarrow> 'e + unit" where
  "try_each f [] = Inr ()"
| "try_each f (x # xs) = rbind (f x) (\<lambda>_. try_each f xs)"

definition global_guard :: "MemStore \<Rightarrow> TableSchema \<Rightarrow> unit result" where
  "global_guard st schema =
    (if ts_access schema = Global \<and> \<not> ms_global_writes_allowed st
     then Inl (Reducer ''global table writes must execute on the authoritative shard'') else Inr ())"

definition derive_computed :: "(nat \<times> (Row \<Rightarrow> RowValue result)) list \<Rightarrow> Row \<Rightarrow> Row result" where
  "derive_computed cols values =
    try_fold (\<lambda>(ordinal, compute) values. rmap (\<lambda>derived. values[ordinal := derived]) (compute values)) cols values"

definition blob_ordinals :: "TableSchema \<Rightarrow> nat list" where
  "blob_ordinals schema = filter (\<lambda>i. cs_ty (ts_columns schema ! i) = TBlob) [0 ..< length (ts_columns schema)]"

definition check_blobs :: "MemStore \<Rightarrow> TableSchema \<Rightarrow> Row \<Rightarrow> unit result" where
  "check_blobs st schema values =
    try_each (\<lambda>ordinal.
      case list_get values ordinal of
        Some (VBlob blob) \<Rightarrow>
          (case ms_blobs st of
             None \<Rightarrow> Inl (Storage ''no blob store attached'')
           | Some blobs \<Rightarrow> if blob_contains blobs blob then Inr () else Inl (Storage ''names no stored object''))
      | _ \<Rightarrow> Inr ()) (blob_ordinals schema)"

definition assign_auto_inc :: "MemStore \<Rightarrow> TableId \<Rightarrow> TableSchema \<Rightarrow> Row \<Rightarrow> WriterState \<Rightarrow> (WriterState \<times> Row) result" where
  "assign_auto_inc st table schema values w =
    (case ts_auto_inc schema of
       None \<Rightarrow> Inr (w, values)
     | Some idx \<Rightarrow>
         (case list_get values idx of
            Some (VU64 current) \<Rightarrow>
              let counter = (case bt_get (counters w) table of None \<Rightarrow> counter_new | Some c \<Rightarrow> c);
                (advanced, counter, values) =
                  (if current = 0
                   then let ((assigned, advanced), c) = allocate (ms_step st) counter in (advanced, c, values[idx := VU64 assigned])
                   else let (advanced, c) = observe_explicit current counter in (advanced, c, values));
                w = w\<lparr>counters := bt_insert table counter (counters w)\<rparr>
              in Inr (if advanced then w\<lparr>high_water_dirty := insort_insert table (high_water_dirty w)\<rparr> else w, values)
          | _ \<Rightarrow> Inl (Storage ''auto_inc column must be u64'')))"

definition parent_exists :: "Tx \<Rightarrow> ResolvedFk \<Rightarrow> RowValue \<Rightarrow> bool result" where
  "parent_exists tx fk value =
    rbind (encode_pk_values (fk_parent_schema fk) [value]) (\<lambda>pk.
      case bt_get (table_ops tx (fk_parent fk)) pk of
        Some (Insert _) \<Rightarrow> Inr True
      | Some (Update _) \<Rightarrow> Inr True
      | Some Delete \<Rightarrow> Inr False
      | None \<Rightarrow> rmap (\<lambda>t. contains_pk t pk) (state_table (tx_base tx) (fk_parent fk)))"

definition check_constraints :: "MemStore \<Rightarrow> Tx \<Rightarrow> TableId \<Rightarrow> Row \<Rightarrow> unit result" where
  "check_constraints st tx table values =
    rbind (try_each (\<lambda>ordinal.
        if list_get values ordinal = Some (VOptional None)
        then Inl (Query TXN_NOT_NULL_VIOLATION ''not_null'' None) else Inr ()) (registered (ms_not_null st) table)) (\<lambda>_.
    rbind (try_each (\<lambda>check.
        rbind (check values) (\<lambda>ok. if ok then Inr () else Inl (Query TXN_CHECK_VIOLATION ''check'' None)))
        (registered (ms_checks st) table)) (\<lambda>_.
    try_each (\<lambda>fk.
        let require = (\<lambda>target. rbind (parent_exists tx fk target) (\<lambda>ok.
          if ok then Inr () else Inl (Query TXN_FK_VIOLATION ''references'' None)))
        in case list_get values (fk_child_ordinal fk) of
             None \<Rightarrow> Inr ()
           | Some (VOptional None) \<Rightarrow> Inr ()
           | Some (VOptional (Some inner)) \<Rightarrow> require inner
           | Some other \<Rightarrow> require other)
        (registered (ms_fks_out st) table)))"

definition check_unique :: "Tx \<Rightarrow> TableId \<Rightarrow> Row \<Rightarrow> PkBytes \<Rightarrow> unit result" where
  "check_unique tx table values pk =
    rbind (state_table (tx_base tx) table) (\<lambda>base.
      try_each (\<lambda>constraint.
        rbind (key_of_values constraint values) (\<lambda>key.
        rbind (try_each (\<lambda>(other_pk, op).
            if other_pk = pk then Inr ()
            else case op_row op of
                None \<Rightarrow> Inr ()
              | Some row \<Rightarrow> rbind (key_of_values constraint row) (\<lambda>k. if k = key then Inl violation_error else Inr ()))
            (table_ops tx table)) (\<lambda>_.
          case owner constraint key of
            None \<Rightarrow> Inr ()
          | Some own \<Rightarrow>
              if own = pk \<or> (case bt_get (table_ops tx table) own of Some Delete \<Rightarrow> True | Some (Update _) \<Rightarrow> True | _ \<Rightarrow> False)
              then Inr () else Inl violation_error)))
        (tb_unique base))"

definition seal :: "MemStore \<Rightarrow> TableId \<Rightarrow> Row \<Rightarrow> PkBytes \<Rightarrow> Row result" where
  "seal st table values pk =
    (case ms_transforms st of
       Some engine \<Rightarrow> if te_touches engine table then te_on_write engine table values pk else Inr values
     | None \<Rightarrow> Inr values)"

definition unseal :: "MemStore \<Rightarrow> TableId \<Rightarrow> TableSchema \<Rightarrow> Row \<Rightarrow> Row result" where
  "unseal st table schema values =
    (case ms_transforms st of
       Some engine \<Rightarrow>
         if te_touches engine table
         then rbind (encode_pk_of_row schema values) (te_on_read engine table values) else Inr values
     | None \<Rightarrow> Inr values)"

text \<open>The row visible to constraints: pending operations over the committed row.\<close>

definition visible :: "Tx \<Rightarrow> TableId \<Rightarrow> TableState \<Rightarrow> PkBytes \<Rightarrow> Row option" where
  "visible tx table base pk =
    (case bt_get (table_ops tx table) pk of
       Some (Insert row) \<Rightarrow> Some row
     | Some (Update row) \<Rightarrow> Some row
     | Some Delete \<Rightarrow> None
     | None \<Rightarrow> row_at base pk)"

definition push_event :: "MemStore \<Rightarrow> TriggerEvent \<Rightarrow> Tx \<Rightarrow> Tx" where
  "push_event st ev tx = (if ms_has_triggers st (ev_table ev) then tx\<lparr>tx_events := tx_events tx @ [ev]\<rparr> else tx)"

text \<open>The checks of \<open>write\<close> that run before the counter advances, and those that run after it.\<close>

definition prepare_write :: "MemStore \<Rightarrow> Tx \<Rightarrow> TableId \<Rightarrow> Row \<Rightarrow> (TableSchema \<times> Row) result" where
  "prepare_write st tx table values =
    rbind (schema_of st table) (\<lambda>schema.
    rbind (global_guard st schema) (\<lambda>_.
    rbind (derive_computed (registered (ms_computed st) table) values) (\<lambda>values.
    rbind (check_blobs st schema values) (\<lambda>_.
    rbind (check_row schema values) (\<lambda>_.
    rbind (state_table (tx_base tx) table) (\<lambda>_. Inr (schema, values)))))))"

definition validate_write ::
  "MemStore \<Rightarrow> Tx \<Rightarrow> TableId \<Rightarrow> TableSchema \<Rightarrow> Row \<Rightarrow> bool \<Rightarrow> (PkBytes \<times> Row \<times> TableState) result" where
  "validate_write st tx table schema values replace =
    rbind (check_constraints st tx table values) (\<lambda>_.
    rbind (encode_pk_of_row schema values) (\<lambda>pk.
    rbind (seal st table values pk) (\<lambda>values.
    rbind (state_table (tx_base tx) table) (\<lambda>base.
    if visible tx table base pk \<noteq> None \<and> \<not> replace then Inl (Storage ''primary key conflict'')
    else rbind (check_unique tx table values pk) (\<lambda>_. Inr (pk, values, base))))))"

text \<open>Buffering the operation; the boolean says whether anything changed.\<close>

definition buffer_write ::
  "TableId \<Rightarrow> TableState \<Rightarrow> PkBytes \<Rightarrow> Row \<Rightarrow> Tx \<Rightarrow> Tx \<times> (Row \<times> bool) result" where
  "buffer_write table base pk values tx =
    (let ops = table_ops tx table; store = (\<lambda>op. (set_ops table (bt_insert pk op ops) tx, Inr (values, True))) in
     case bt_get ops pk of
       Some Delete \<Rightarrow>
         (case row_at base pk of
            None \<Rightarrow> (set_ops table ops tx, Inl (Storage ''Delete op for pk absent from CommittedState''))
          | Some committed \<Rightarrow>
              if row_eq committed values then (set_ops table (bt_remove pk ops) tx, Inr (committed, True))
              else store (Update values))
     | Some (Insert _) \<Rightarrow> store (Insert values)
     | Some (Update _) \<Rightarrow> store (Update values)
     | None \<Rightarrow>
         (case row_at base pk of
            Some committed \<Rightarrow>
              if row_eq committed values then (set_ops table ops tx, Inr (committed, False)) else store (Update values)
          | None \<Rightarrow> store (Insert values)))"

definition tx_write :: "MemStore \<Rightarrow> TableId \<Rightarrow> Row \<Rightarrow> bool \<Rightarrow> Tx \<Rightarrow> Tx \<times> Row result" where
  "tx_write st table values replace tx =
    (case prepare_write st tx table values of
       Inl e \<Rightarrow> (tx, Inl e)
     | Inr (schema, values) \<Rightarrow>
         (case assign_auto_inc st table schema values (tx_writer tx) of
            Inl e \<Rightarrow> (tx, Inl e)
          | Inr (w, values) \<Rightarrow>
              let tx = tx\<lparr>tx_writer := w\<rparr> in
              (case validate_write st tx table schema values replace of
                 Inl e \<Rightarrow> (tx, Inl e)
               | Inr (pk, values, base) \<Rightarrow>
                   let old = visible tx table base pk in
                   (case buffer_write table base pk values tx of
                      (tx, Inl e) \<Rightarrow> (tx, Inl e)
                    | (tx, Inr (stored, changed)) \<Rightarrow>
                        (if changed
                         then push_event st \<lparr>ev_table = table, ev_kind = (if old \<noteq> None then TUpdate else TInsert),
                           ev_old = old, ev_new = Some stored\<rparr> tx
                         else tx, Inr stored)))))"

definition tx_insert :: "MemStore \<Rightarrow> TableId \<Rightarrow> Row \<Rightarrow> Tx \<Rightarrow> Tx \<times> Row result" where
  "tx_insert st table values tx = tx_write st table values False tx"

definition tx_upsert :: "MemStore \<Rightarrow> TableId \<Rightarrow> Row \<Rightarrow> Tx \<Rightarrow> Tx \<times> Row result" where
  "tx_upsert st table values tx = tx_write st table values True tx"

section \<open>Reads\<close>

definition tx_query_pk :: "TableId \<Rightarrow> RowValue list \<Rightarrow> Tx \<Rightarrow> Row option result" where
  "tx_query_pk table pk_values tx =
    rbind (state_table (tx_base tx) table) (\<lambda>t. rmap (row_at t) (encode_pk_values (tb_schema t) pk_values))"

definition tx_scan :: "TableId \<Rightarrow> Tx \<Rightarrow> Row list result" where
  "tx_scan table tx = rmap all_rows (state_table (tx_base tx) table)"

definition scan_pending :: "TableId \<Rightarrow> Tx \<Rightarrow> Row list result" where
  "scan_pending table tx =
    rmap (\<lambda>_. List.map_filter (\<lambda>(pk, op). op_row op) (table_ops tx table)) (state_table (tx_base tx) table)"

definition scan_all :: "TableId \<Rightarrow> Tx \<Rightarrow> Row list result" where
  "scan_all table tx =
    rmap (\<lambda>base.
      List.map_filter (\<lambda>(pk, row).
        case bt_get (table_ops tx table) pk of None \<Rightarrow> Some row | Some (Update r) \<Rightarrow> Some r | Some _ \<Rightarrow> None)
        (tree_scan all_range (tb_rows base)) @
      List.map_filter (\<lambda>(pk, op). case op of Insert row \<Rightarrow> Some row | _ \<Rightarrow> None) (table_ops tx table))
      (state_table (tx_base tx) table)"

section \<open>Deletes\<close>

definition delete_one :: "MemStore \<Rightarrow> TableId \<Rightarrow> RowValue list \<Rightarrow> Tx \<Rightarrow> Tx \<times> Row option result" where
  "delete_one st table pk_values tx =
    (case rbind (schema_of st table) (\<lambda>schema.
        rbind (global_guard st schema) (\<lambda>_.
        rbind (encode_pk_values schema pk_values) (\<lambda>pk.
        rbind (state_table (tx_base tx) table) (\<lambda>base. Inr (pk, row_at base pk))))) of
       Inl e \<Rightarrow> (tx, Inl e)
     | Inr (pk, committed_row) \<Rightarrow>
         let ops = table_ops tx table;
           (ops, old) = (case bt_get ops pk of
             Some (Insert row) \<Rightarrow> (bt_remove pk ops, Some row)
           | Some (Update row) \<Rightarrow> (bt_insert pk Delete ops, Some row)
           | Some Delete \<Rightarrow> (ops, None)
           | None \<Rightarrow> (if committed_row \<noteq> None then bt_insert pk Delete ops else ops, committed_row));
           tx = set_ops table ops tx
         in (case old of
               None \<Rightarrow> tx
             | Some _ \<Rightarrow> push_event st \<lparr>ev_table = table, ev_kind = TDelete, ev_old = old, ev_new = None\<rparr> tx, Inr old))"

definition fk_value_matches :: "RowValue option \<Rightarrow> RowValue \<Rightarrow> bool" where
  "fk_value_matches value parent =
    (case value of
       Some (VOptional (Some inner)) \<Rightarrow> value_eq inner parent
     | Some other \<Rightarrow> value_eq other parent
     | None \<Rightarrow> False)"

text \<open>The worklist is a stack whose top is the head of the list.\<close>

type_synonym worklist = "(TableId \<times> Row) list"

definition ref_action :: "MemStore \<Rightarrow> ResolvedFk \<Rightarrow> Row \<Rightarrow> Tx \<times> worklist \<Rightarrow> (Tx \<times> worklist) \<times> unit result" where
  "ref_action st fk child = (\<lambda>(tx, deleted).
    case fk_on_delete fk of
      Restrict \<Rightarrow> ((tx, deleted), Inl (Query TXN_FK_VIOLATION ''delete restricted'' None))
    | Cascade \<Rightarrow>
        (case delete_one st (fk_child fk) (map ((!) child) (ts_primary_key (fk_child_schema fk))) tx of
           (tx, Inl e) \<Rightarrow> ((tx, deleted), Inl e)
         | (tx, Inr None) \<Rightarrow> ((tx, deleted), Inr ())
         | (tx, Inr (Some old)) \<Rightarrow> ((tx, (fk_child fk, old) # deleted), Inr ()))
    | SetNull \<Rightarrow>
        (case unseal st (fk_child fk) (fk_child_schema fk) child of
           Inl e \<Rightarrow> ((tx, deleted), Inl e)
         | Inr vals \<Rightarrow>
             (case tx_write st (fk_child fk) (vals[fk_child_ordinal fk := VOptional None]) True tx of
                (tx, Inl e) \<Rightarrow> ((tx, deleted), Inl e)
              | (tx, Inr _) \<Rightarrow> ((tx, deleted), Inr ()))))"

definition apply_ref_action :: "MemStore \<Rightarrow> RowValue \<Rightarrow> ResolvedFk \<Rightarrow> Tx \<times> worklist \<Rightarrow> (Tx \<times> worklist) \<times> unit result" where
  "apply_ref_action st parent_value fk = (\<lambda>(tx, deleted).
    case scan_all (fk_child fk) tx of
      Inl e \<Rightarrow> ((tx, deleted), Inl e)
    | Inr rows \<Rightarrow>
        run_each (ref_action st fk)
          (filter (\<lambda>row. fk_value_matches (list_get row (fk_child_ordinal fk)) parent_value) rows) (tx, deleted))"

definition fan_out :: "MemStore \<Rightarrow> TableId \<Rightarrow> Row \<Rightarrow> Tx \<times> worklist \<Rightarrow> (Tx \<times> worklist) \<times> unit result" where
  "fan_out st parent old_row =
    run_each (\<lambda>fk s.
      case ts_primary_key (fk_parent_schema fk) of
        [pk_ord] \<Rightarrow> apply_ref_action st (old_row ! pk_ord) fk s
      | _ \<Rightarrow> (s, Inr ())) (registered (ms_fks_in st) parent)"

partial_function (option) delete_loop :: "MemStore \<Rightarrow> worklist \<Rightarrow> Tx \<Rightarrow> (Tx \<times> unit result) option" where
  "delete_loop st work tx =
    (case work of
       [] \<Rightarrow> Some (tx, Inr ())
     | (parent, old_row) # rest \<Rightarrow>
         (case fan_out st parent old_row (tx, rest) of
            ((tx, rest), Inl e) \<Rightarrow> Some (tx, Inl e)
          | ((tx, rest), Inr _) \<Rightarrow> delete_loop st rest tx))"

definition tx_delete :: "MemStore \<Rightarrow> TableId \<Rightarrow> RowValue list \<Rightarrow> Tx \<Rightarrow> (Tx \<times> bool result) option" where
  "tx_delete st table pk_values tx =
    (case delete_one st table pk_values tx of
       (tx, Inl e) \<Rightarrow> Some (tx, Inl e)
     | (tx, Inr None) \<Rightarrow> Some (tx, Inr False)
     | (tx, Inr (Some old)) \<Rightarrow>
         map_option (\<lambda>(tx, r). (tx, rmap (\<lambda>_. True) r)) (delete_loop st [(table, old)] tx))"

section \<open>Publishing\<close>

definition count_trim :: "nat \<Rightarrow> history_entry list \<Rightarrow> history_entry list" where
  "count_trim window history = drop (length history - window) history"

text \<open>
  The evicted snapshots are dropped only after the loop, so they stay pinned and the reclaimer's pending
  bytes do not change while it runs.
\<close>

fun budget_trim :: "u64 \<Rightarrow> u64 \<Rightarrow> history_entry list \<Rightarrow> history_entry list" where
  "budget_trim retained max_bytes [] = []"
| "budget_trim retained max_bytes (h # hs) =
    (if retained > max_bytes then budget_trim retained max_bytes hs else h # hs)"

definition retain_in_temporal_window :: "u64 \<Rightarrow> u64 \<Rightarrow> u64 \<Rightarrow> tables \<Rightarrow> MemStore \<Rightarrow> MemStore" where
  "retain_in_temporal_window retained committed_id at_micros published st =
    (if ms_window st = 0 then st
     else st\<lparr>ms_history := budget_trim retained (ms_window_max_bytes st)
       (count_trim (ms_window st) (ms_history st @ [(committed_id, at_micros, published)]))\<rparr>)"

definition publish_versioned :: "WriterState \<Rightarrow> tables \<Rightarrow> MemStore \<Rightarrow> MemStore" where
  "publish_versioned w tables st =
    st\<lparr>ms_committed := tables, ms_version := next_version w,
      ms_writer := w\<lparr>next_version := sat_add (next_version w) 1\<rparr>\<rparr>"

definition blob_values :: "nat list \<Rightarrow> Row \<Rightarrow> BlobHash list" where
  "blob_values ordinals row =
    List.map_filter (\<lambda>ordinal. case list_get row ordinal of Some (VBlob blob) \<Rightarrow> Some blob | _ \<Rightarrow> None) ordinals"

definition apply_blob_diff :: "(TableId, TableSchema) btree \<Rightarrow> TableDiff \<Rightarrow> BlobStore \<Rightarrow> BlobStore" where
  "apply_blob_diff catalog d blobs =
    (case bt_get catalog (td_table_id d) of
       None \<Rightarrow> blobs
     | Some schema \<Rightarrow>
         let ordinals = blob_ordinals schema;
           blobs = fold (\<lambda>h s. fst (blob_incref h s)) (concat (map (blob_values ordinals) (td_inserts d))) blobs
         in fold (\<lambda>h s. fst (blob_unref h s)) (concat (map (\<lambda>(pk, row). blob_values ordinals row) (td_deletes d))) blobs)"

definition apply_blob_refcounts :: "(TableId, TableSchema) btree \<Rightarrow> TableDiff list \<Rightarrow> BlobStore \<Rightarrow> BlobStore" where
  "apply_blob_refcounts catalog diffs blobs = fold (apply_blob_diff catalog) diffs blobs"

definition count_blobs :: "TableDiff list \<Rightarrow> MemStore \<Rightarrow> MemStore" where
  "count_blobs diffs st = st\<lparr>ms_blobs := map_option (apply_blob_refcounts (ms_catalog st) diffs) (ms_blobs st)\<rparr>"

section \<open>Commit\<close>

definition merge_one ::
  "TableId \<times> (PkBytes, PendingOp) btree \<Rightarrow> tables \<times> TableDiff list \<Rightarrow> (tables \<times> TableDiff list) result" where
  "merge_one = (\<lambda>(table_id, ops) (tables, diffs).
    if ops = [] then Inr (tables, diffs)
    else rbind (ok_or (Storage ''touched table missing from CommittedState'') (bt_get tables table_id)) (\<lambda>t.
      rmap (\<lambda>(t, d). (bt_insert table_id t tables, diffs @ [d])) (merge_table table_id ops t)))"

definition merge_tables ::
  "(TableId, (PkBytes, PendingOp) btree) btree \<Rightarrow> tables \<Rightarrow> (tables \<times> TableDiff list) result" where
  "merge_tables touched base = try_fold merge_one touched (base, [])"

definition mark_one ::
  "(TableId, AutoIncCounter) btree \<Rightarrow> TableId \<Rightarrow> tables \<times> (TableId \<times> u64) list \<Rightarrow> (tables \<times> (TableId \<times> u64) list) result" where
  "mark_one cs table_id = (\<lambda>(tables, auto_inc).
    let high_water = (case bt_get cs table_id of None \<Rightarrow> 0 | Some c \<Rightarrow> ctr_high_water c) in
    rmap (\<lambda>t. (bt_insert table_id (t\<lparr>tb_high_water := high_water\<rparr>) tables, auto_inc @ [(table_id, high_water)]))
      (ok_or (Storage ''auto-inc table missing from CommittedState'') (bt_get tables table_id)))"

definition publish_marks ::
  "(TableId, AutoIncCounter) btree \<Rightarrow> TableId list \<Rightarrow> tables \<Rightarrow> (tables \<times> (TableId \<times> u64) list) result" where
  "publish_marks cs dirty tables = try_fold (mark_one cs) dirty (tables, [])"

text \<open>
  What a publish reads of its surroundings: whether the reclaimer frees the superseded pages without an
  error, the clock, and the bytes of superseded pages that live snapshots still pin.
\<close>

record PublishEnv =
  env_retire_ok :: bool
  env_now :: u64
  env_retained :: u64

definition commit :: "PublishEnv \<Rightarrow> MemStore \<Rightarrow> Tx \<Rightarrow> MemStore \<times> TxDiff result" where
  "commit env st tx =
    (case merge_tables (tx_tables tx) (tx_base tx) of
       Inl e \<Rightarrow> (st\<lparr>ms_writer := tx_writer tx\<rparr>, Inl e)
     | Inr (tables, diffs) \<Rightarrow>
         let w = tx_writer tx; dirty = high_water_dirty w; w = w\<lparr>high_water_dirty := []\<rparr> in
         (case publish_marks (counters w) dirty tables of
            Inl e \<Rightarrow> (st\<lparr>ms_writer := w\<rparr>, Inl e)
          | Inr (tables, auto_inc) \<Rightarrow>
              let w = w\<lparr>next_tx_id := sat_add (tx_id tx) 1\<rparr>; st = publish_versioned w tables st in
              if \<not> env_retire_ok env then (st, Inl Io)
              else let st = count_blobs diffs (retain_in_temporal_window (env_retained env) (tx_id tx) (env_now env) tables st) in
                (st, Inr \<lparr>diff_tx_id = tx_id tx, diff_tables = diffs, diff_auto_inc = auto_inc\<rparr>)))"

definition rollback :: "MemStore \<Rightarrow> Tx \<Rightarrow> MemStore" where
  "rollback st tx = st\<lparr>ms_writer := tx_writer tx\<rparr>"

section \<open>Replicated state\<close>

definition apply_mutation :: "MemStore \<Rightarrow> TableMutation \<Rightarrow> tables \<times> TableDiff list \<Rightarrow> (tables \<times> TableDiff list) result" where
  "apply_mutation st m = (\<lambda>(tables, diffs).
    let table_id = tm_table_id m in
    rbind (schema_of st table_id) (\<lambda>schema.
    rbind (ok_or (Storage ''record references a missing table'') (bt_get tables table_id)) (\<lambda>t.
    rbind (try_fold apply_delete (delete_pks m) (t, [])) (\<lambda>(t, deletes).
    rbind (insert_rows m) (\<lambda>rows.
    rbind (try_fold (apply_insert schema) rows t) (\<lambda>t.
      Inr (bt_insert table_id t tables,
        diffs @ [\<lparr>td_table_id = table_id, td_inserts = rows, td_deletes = deletes\<rparr>])))))))"

definition set_global_replica :: "MemStore \<Rightarrow> MemStore" where
  "set_global_replica st = st\<lparr>ms_global_writes_allowed := False\<rparr>"

text \<open>Global tables are replicated to the other shards as diffs, outside the log.\<close>

definition replicate_table :: "MemStore \<Rightarrow> TableDiff \<Rightarrow> tables \<times> bool \<Rightarrow> (tables \<times> bool) result" where
  "replicate_table st d = (\<lambda>(tables, touched).
    case bt_get (ms_catalog st) (td_table_id d) of
      None \<Rightarrow> Inr (tables, touched)
    | Some schema \<Rightarrow>
        if ts_access schema \<noteq> Global then Inr (tables, touched)
        else (case bt_get tables (td_table_id d) of
          None \<Rightarrow> Inr (tables, touched)
        | Some t \<Rightarrow>
            rbind (try_fold apply_delete (map fst (td_deletes d)) (t, [])) (\<lambda>(t, removed).
            rmap (\<lambda>t. (bt_insert (td_table_id d) t tables, True)) (try_fold (apply_insert schema) (td_inserts d) t))))"

definition apply_replicated_diff :: "PublishEnv \<Rightarrow> TxDiff \<Rightarrow> MemStore \<Rightarrow> MemStore \<times> unit result" where
  "apply_replicated_diff env diff st =
    (case try_fold (replicate_table st) (diff_tables diff) (ms_committed st, False) of
       Inl e \<Rightarrow> (st, Inl e)
     | Inr (tables, touched) \<Rightarrow>
         if \<not> touched then (st, Inr ())
         else (publish_versioned (ms_writer st) tables st, if env_retire_ok env then Inr () else Inl Io))"

definition resume_counter :: "TableId \<times> u64 \<Rightarrow> WriterState \<times> tables \<Rightarrow> WriterState \<times> tables" where
  "resume_counter = (\<lambda>(table_id, high_water) (w, tables).
    (w\<lparr>counters := bt_insert table_id (resumed high_water) (counters w)\<rparr>,
     case bt_get tables table_id of
       None \<Rightarrow> tables
     | Some t \<Rightarrow> bt_insert table_id (t\<lparr>tb_high_water := high_water\<rparr>) tables))"

definition apply_replica_record :: "PublishEnv \<Rightarrow> TxRecord \<Rightarrow> MemStore \<Rightarrow> MemStore \<times> TxDiff result" where
  "apply_replica_record env r st =
    (let w = ms_writer st in
     if rec_tx_id r \<noteq> next_tx_id w then (st, Inl (Storage ''replicated tx_id does not continue the log''))
     else case try_fold (apply_mutation st) (rec_mutations r) (ms_committed st, []) of
       Inl e \<Rightarrow> (st, Inl e)
     | Inr (tables, diffs) \<Rightarrow>
         let (w, tables) = fold resume_counter (rec_auto_inc r) (w, tables);
           w = w\<lparr>next_tx_id := sat_add (rec_tx_id r) 1\<rparr>; st = publish_versioned w tables st
         in if \<not> env_retire_ok env then (st, Inl Io)
            else let st = count_blobs diffs (retain_in_temporal_window (env_retained env) (rec_tx_id r) (rec_timestamp r) tables st) in
              (st, Inr \<lparr>diff_tx_id = rec_tx_id r, diff_tables = diffs, diff_auto_inc = rec_auto_inc r\<rparr>))"

definition resume_auto :: "TableId \<times> TableState \<Rightarrow> WriterState \<Rightarrow> WriterState" where
  "resume_auto = (\<lambda>(table, t) w.
    if ts_auto_inc (tb_schema t) \<noteq> None then w\<lparr>counters := bt_insert table (resumed (tb_high_water t)) (counters w)\<rparr> else w)"

definition install_recovered :: "tables \<Rightarrow> u64 \<Rightarrow> MemStore \<Rightarrow> MemStore \<times> unit result" where
  "install_recovered state resume_at st =
    (if resume_at = 0 then (st, Inl (Storage ''recovered next_tx_id must be >= 1''))
     else if length state \<noteq> length (ms_catalog st) \<or> \<not> list_all (\<lambda>(table, schema). bt_get state table \<noteq> None) (ms_catalog st)
     then (st, Inl (Storage ''recovered state does not cover the schema''))
     else let w = ms_writer st in
       if next_tx_id w \<noteq> 1 then (st, Inl (Storage ''recovery must run before the first transaction''))
       else let w = fold resume_auto state w
         in (publish_versioned (w\<lparr>next_tx_id := resume_at\<rparr>) state st, Inr ()))"

datatype AsOfPoint = AsOfTx u64 | AsOfTimestamp u64

definition at_or_before :: "AsOfPoint \<Rightarrow> history_entry \<Rightarrow> bool" where
  "at_or_before point = (\<lambda>(id, us, state). case point of AsOfTx want \<Rightarrow> id \<le> want | AsOfTimestamp want \<Rightarrow> us \<le>s want)"

definition snapshot_as_of :: "AsOfPoint \<Rightarrow> MemStore \<Rightarrow> tables result" where
  "snapshot_as_of point st =
    (case ms_history st of
       [] \<Rightarrow> Inl (Query 3020 ''no commits are retained'' None)
     | oldest # rest \<Rightarrow>
         if at_or_before point (last (ms_history st)) then Inr (ms_committed st)
         else if \<not> at_or_before point oldest then Inl (Query 3020 ''older than the retained window'' None)
         else rmap (\<lambda>(id, us, state). state)
           (ok_or (Query 3020 ''precedes every retained commit'' None) (find (at_or_before point) (rev (ms_history st)))))"

section \<open>Assembly\<close>

text \<open>Identifiers are ASCII, so their UTF-8 bytes are their character codes.\<close>

definition name_bytes :: "string \<Rightarrow> bytes" where
  "name_bytes name = map (\<lambda>c. word_of_nat (of_char c)) name"

definition build_btree_indexes :: "TableSchema \<Rightarrow> (IndexId, BTreeIndex) btree result" where
  "build_btree_indexes schema =
    try_fold (\<lambda>index indexes.
      case index of
        BTree columns \<Rightarrow>
          rbind (try_map (\<lambda>ordinal. rmap (\<lambda>c. name_bytes (cs_name c))
              (ok_or (Schema_err ''index ordinal out of range'') (schema_column schema ordinal))) columns) (\<lambda>names.
            let id = IndexId_of (name_bytes (ts_name schema)) names in
            if bt_get indexes id \<noteq> None then Inl (Schema_err ''IndexId collision'')
            else Inr (bt_insert id \<lparr>ix_columns = columns, ix_tree = []\<rparr> indexes))
      | _ \<Rightarrow> Inr indexes) (ts_indexes schema) []"

definition build_table :: "TableSchema \<Rightarrow> TableState result" where
  "build_table schema =
    rmap (\<lambda>indexes. \<lparr>tb_schema = schema, tb_rows = [], tb_row_count = 0, tb_indexes = indexes,
      tb_unique = map (\<lambda>columns. \<lparr>ux_columns = columns, ux_tree = []\<rparr>) (ts_unique schema), tb_high_water = 0\<rparr>)
      (build_btree_indexes schema)"

definition build_tables ::
  "TableSchema list \<Rightarrow> ((TableId, TableSchema) btree \<times> tables \<times> (TableId, AutoIncCounter) btree) result" where
  "build_tables schemas =
    try_fold (\<lambda>schema (catalog, tables, cs).
      let id = TableId_of (name_bytes (ts_name schema)) in
      if bt_get catalog id \<noteq> None then Inl (Schema_err ''TableId collision'')
      else rmap (\<lambda>t. (bt_insert id schema catalog, bt_insert id t tables,
          if ts_auto_inc schema \<noteq> None then bt_insert id counter_new cs else cs)) (build_table schema))
      schemas ([], [], [])"

record ForeignKeyDef =
  fkd_table :: string
  fkd_ordinal :: nat
  fkd_parent_table :: string
  fkd_parent_column :: string
  fkd_on_delete :: RefAction

definition invalid_fk :: FluxumError where
  "invalid_fk = Query SCHEMA_INVALID ''invalid references'' None"

definition resolve_fk :: "(TableId, TableSchema) btree \<Rightarrow> ForeignKeyDef \<Rightarrow> ResolvedFk option result" where
  "resolve_fk catalog def =
    (let child = TableId_of (name_bytes (fkd_table def)); parent = TableId_of (name_bytes (fkd_parent_table def)) in
     case bt_get catalog child of
       None \<Rightarrow> Inr None
     | Some child_schema \<Rightarrow>
         rbind (ok_or invalid_fk (bt_get catalog parent)) (\<lambda>parent_schema.
           case ts_primary_key parent_schema of
             [parent_pk_ord] \<Rightarrow>
               (let parent_col = ts_columns parent_schema ! parent_pk_ord in
                if cs_name parent_col \<noteq> fkd_parent_column def then Inl invalid_fk
                else rbind (ok_or invalid_fk (list_get (ts_columns child_schema) (fkd_ordinal def))) (\<lambda>child_col.
                  let child_ty = (case cs_ty child_col of TOption inner \<Rightarrow> inner | other \<Rightarrow> other) in
                  if child_ty \<noteq> cs_ty parent_col then Inl invalid_fk
                  else if fkd_on_delete def = SetNull \<and> (case cs_ty child_col of TOption _ \<Rightarrow> False | _ \<Rightarrow> True)
                  then Inl invalid_fk
                  else Inr (Some \<lparr>fk_child = child, fk_child_schema = child_schema, fk_child_ordinal = fkd_ordinal def,
                    fk_parent = parent, fk_parent_schema = parent_schema, fk_on_delete = fkd_on_delete def\<rparr>)))
           | _ \<Rightarrow> Inl invalid_fk))"

definition add_registered :: "TableId \<Rightarrow> 'a \<Rightarrow> (TableId, 'a list) btree \<Rightarrow> (TableId, 'a list) btree" where
  "add_registered table x m = bt_insert table (registered m table @ [x]) m"

definition build_foreign_keys ::
  "(TableId, TableSchema) btree \<Rightarrow> ForeignKeyDef list \<Rightarrow>
   ((TableId, ResolvedFk list) btree \<times> (TableId, ResolvedFk list) btree) result" where
  "build_foreign_keys catalog defs =
    try_fold (\<lambda>def (fks_out, fks_in).
      rmap (\<lambda>r. case r of
          None \<Rightarrow> (fks_out, fks_in)
        | Some fk \<Rightarrow> (add_registered (fk_child fk) fk fks_out, add_registered (fk_parent fk) fk fks_in))
        (resolve_fk catalog def)) defs ([], [])"

record StoreOptions =
  opt_auto_inc_allocation_step :: u64
  opt_temporal_window :: nat
  opt_window_max_bytes :: u64

definition build_store ::
  "TableSchema list \<Rightarrow> StoreOptions \<Rightarrow> ForeignKeyDef list \<Rightarrow> (TableId \<Rightarrow> bool) \<Rightarrow>
   (TableId, (nat \<times> (Row \<Rightarrow> RowValue result)) list) btree \<Rightarrow> (TableId, (Row \<Rightarrow> bool result) list) btree \<Rightarrow>
   (TableId, nat list) btree \<Rightarrow> MemStore result" where
  "build_store schemas options fk_defs has_triggers computed checks not_null =
    (if opt_auto_inc_allocation_step options = 0 then Inl (Storage ''auto_inc_allocation_step must be >= 1'')
     else rbind (build_tables schemas) (\<lambda>(catalog, tables, cs).
       rbind (build_foreign_keys catalog fk_defs) (\<lambda>(fks_out, fks_in).
         Inr \<lparr>ms_catalog = catalog, ms_committed = tables, ms_version = 0,
           ms_writer = \<lparr>next_tx_id = 1, next_version = 1, counters = cs, high_water_dirty = []\<rparr>,
           ms_step = opt_auto_inc_allocation_step options, ms_window = opt_temporal_window options,
           ms_window_max_bytes = opt_window_max_bytes options, ms_blobs = None,
           ms_transforms = None, ms_computed = computed, ms_checks = checks, ms_not_null = not_null,
           ms_fks_out = fks_out, ms_fks_in = fks_in, ms_history = [], ms_global_writes_allowed = True,
           ms_has_triggers = has_triggers\<rparr>)))"

end
