(* ===== verification/StoreInvariant.thy ===== *)
theory StoreInvariant
  imports Store
begin

text \<open>
  The invariant of the transactional store and of a transaction in flight, kept by every operation:
  buffered operations always agree with the committed tables, so a commit never fails, publishes the
  overlay the transaction saw, and leaves every index a rebuild of the rows.
\<close>

section \<open>Exact types\<close>

text \<open>Types without floats, whose values are equal only when they are identical.\<close>

fun exact_type :: "FluxType \<Rightarrow> bool" and exact_variant :: "VariantSchema \<Rightarrow> bool" and exact_field :: "FieldSchema \<Rightarrow> bool" where
  "exact_type TF32 = False"
| "exact_type TF64 = False"
| "exact_type (TOption t) = exact_type t"
| "exact_type (TList t) = exact_type t"
| "exact_type (TEnum n vs) = list_all exact_variant vs"
| "exact_type (TStruct n fs) = list_all exact_field fs"
| "exact_type _ = True"
| "exact_variant (VariantSchema n ts) = list_all exact_type ts"
| "exact_field (FieldSchema n t) = exact_type t"

lemma value_eq_list:
  "(\<And>x t y. x \<in> set xs \<Longrightarrow> matches_type x t \<Longrightarrow> exact_type t \<Longrightarrow> value_eq x y \<longleftrightarrow> x = y) \<Longrightarrow>
   \<forall>x\<in>set xs. \<exists>t. matches_type x t \<and> exact_type t \<Longrightarrow> list_all2 value_eq xs ys \<longleftrightarrow> xs = ys"
proof (induction xs arbitrary: ys)
  case (Cons x xs)
  obtain t where t: "matches_type x t" "exact_type t" using Cons.prems(2) by auto
  have "value_eq x y \<longleftrightarrow> x = y" for y using Cons.prems(1) [of x t y] t by simp
  moreover have "list_all2 value_eq xs zs \<longleftrightarrow> xs = zs" for zs
    using Cons.IH Cons.prems by auto
  ultimately show ?case by (cases ys) auto
qed auto

lemma exact_variant_payload: "exact_variant v \<longleftrightarrow> list_all exact_type (variant_payload v)"
  by (cases v) simp

lemma exact_field_ty: "exact_field f \<longleftrightarrow> exact_type (field_ty f)"
  by (cases f) simp

lemma list_all2_member: "list_all2 P xs ys \<Longrightarrow> x \<in> set xs \<Longrightarrow> \<exists>y\<in>set ys. P x y"
  by (induction rule: list_all2_induct) auto

lemma list_all_member: "list_all P xs \<Longrightarrow> x \<in> set xs \<Longrightarrow> P x"
  by (simp add: list_all_iff)

lemma value_eq_exact: "matches_type v ty \<Longrightarrow> exact_type ty \<Longrightarrow> value_eq v w \<longleftrightarrow> v = w"
proof (induction v arbitrary: ty w)
  case (VOptional v)
  show ?case
  proof (cases v)
    case (Some x)
    then obtain t where "ty = TOption t" "matches_type x t"
      using VOptional.prems(1) by (auto split: FluxType.splits)
    then have "value_eq x y \<longleftrightarrow> x = y" for y using VOptional Some by auto
    then show ?thesis by (auto simp: Some split: RowValue.splits option.splits)
  qed simp
next
  case (VList xs)
  then obtain t where t: "ty = TList t" "list_all (\<lambda>x. matches_type x t) xs" by (auto split: FluxType.splits)
  then have "list_all2 value_eq xs ys \<longleftrightarrow> xs = ys" for ys
    using VList by (intro value_eq_list) (auto simp: list_all_iff)
  then show ?case by (auto split: RowValue.splits)
next
  case (VEnum tag xs)
  then obtain n vs v where t: "ty = TEnum n vs" "list_get vs (unat tag) = Some v" "list_all2 matches_type xs (variant_payload v)"
    by (auto split: FluxType.splits option.splits)
  then have "list_all exact_type (variant_payload v)"
    using VEnum.prems(2) by (auto simp: list_get_def exact_variant_payload list_all_iff split: if_splits)
  then have "list_all2 value_eq xs ys \<longleftrightarrow> xs = ys" for ys
    using VEnum.IH list_all2_member [OF t(3)] by (intro value_eq_list) (blast dest: list_all_member)+
  then show ?case by (auto split: RowValue.splits)
next
  case (VStruct xs)
  then obtain n fs where t: "ty = TStruct n fs" "list_all2 matches_type xs (map field_ty fs)" by (auto split: FluxType.splits)
  then have "list_all exact_type (map field_ty fs)"
    using VStruct.prems(2) by (auto simp: exact_field_ty list_all_iff)
  then have "list_all2 value_eq xs ys \<longleftrightarrow> xs = ys" for ys
    using VStruct.IH list_all2_member [OF t(2)] by (intro value_eq_list) (blast dest: list_all_member)+
  then show ?case by (auto split: RowValue.splits)
qed auto

lemma row_eq_columns:
  assumes "row_eq committed values" "typed_on schema columns committed"
    and "\<forall>i\<in>set columns. exact_type (cs_ty (ts_columns schema ! i))"
  shows "columns_key columns committed = columns_key columns values"
proof -
  have "committed ! i = values ! i" if i: "i \<in> set columns" for i
  proof -
    have "i < length committed" "matches_type (committed ! i) (cs_ty (ts_columns schema ! i))"
      using assms(2) i by (auto simp: typed_on_def key_value_def)
    moreover have "value_eq (committed ! i) (values ! i)"
      using assms(1) calculation(1) by (auto simp: row_eq_def list_all2_conv_all_nth)
    ultimately show ?thesis using value_eq_exact assms(3) i by blast
  qed
  then have "columns_of columns committed = columns_of columns values" by (auto simp: columns_of_def)
  then show ?thesis by (simp add: columns_key_def)
qed

section \<open>The invariants\<close>

definition row_wf :: "Row \<Rightarrow> bool" where
  "row_wf row = list_all wf_value row"

definition table_ok :: "MemStore \<Rightarrow> TableId \<Rightarrow> TableState \<Rightarrow> bool" where
  "table_ok st table t =
    (table_wf t \<and> bt_get (ms_catalog st) table = Some (tb_schema t) \<and>
     (\<forall>i\<in>set (key_columns t). i < length (ts_columns (tb_schema t))) \<and>
     (\<forall>u\<in>set (tb_unique t). \<forall>i\<in>set (ux_columns u). exact_type (cs_ty (ts_columns (tb_schema t) ! i))) \<and>
     (\<forall>pk row. row_at t pk = Some row \<longrightarrow> row_wf row))"

text \<open>Column transforms produce well-formed rows of the same arity and leave key columns alone.\<close>

definition transforms_ok :: "MemStore \<Rightarrow> bool" where
  "transforms_ok st =
    (\<forall>engine table t row pk row'. ms_transforms st = Some engine \<longrightarrow> bt_get (ms_committed st) table = Some t \<longrightarrow> row_wf row \<longrightarrow>
      (te_on_write engine table row pk = Inr row' \<longrightarrow> row_wf row' \<and> length row' = length row \<and>
        (\<forall>i\<in>set (key_columns t). row' ! i = row ! i)) \<and>
      (te_on_read engine table row pk = Inr row' \<longrightarrow> row_wf row' \<and> length row' = length row \<and>
        (\<forall>i\<in>set (key_columns t). row' ! i = row ! i)))"

definition computed_ok :: "MemStore \<Rightarrow> bool" where
  "computed_ok st =
    (\<forall>table. \<forall>(ordinal, compute)\<in>set (registered (ms_computed st) table).
      \<forall>row v. row_wf row \<longrightarrow> compute row = Inr v \<longrightarrow> wf_value v)"

definition store_ok :: "MemStore \<Rightarrow> bool" where
  "store_ok st =
    (bt_wf (ms_committed st) \<and> (\<forall>table t. bt_get (ms_committed st) table = Some t \<longrightarrow> table_ok st table t) \<and>
     (\<forall>table\<in>set (high_water_dirty (ms_writer st)). bt_get (ms_committed st) table \<noteq> None) \<and>
     transforms_ok st \<and> computed_ok st)"

definition ops_wf :: "(PkBytes \<times> PendingOp) list \<Rightarrow> bool" where
  "ops_wf ops = (\<forall>pk op row. (pk, op) \<in> set ops \<longrightarrow> op_row op = Some row \<longrightarrow> row_wf row)"

definition tx_ok :: "MemStore \<Rightarrow> Tx \<Rightarrow> bool" where
  "tx_ok st tx =
    (tx_base tx = ms_committed st \<and> tx_id tx = next_tx_id (ms_writer st) \<and> bt_wf (tx_tables tx) \<and>
     (\<forall>table\<in>set (high_water_dirty (tx_writer tx)). bt_get (ms_committed st) table \<noteq> None) \<and>
     (\<forall>table ops. bt_get (tx_tables tx) table = Some ops \<longrightarrow>
       (\<exists>t. bt_get (ms_committed st) table = Some t \<and> ops_ok t ops \<and>
         ops_wf ops)))"

lemma begin_ok: "store_ok st \<Longrightarrow> tx_ok st (begin_tx st)"
  by (simp add: tx_ok_def begin_tx_def store_ok_def)

lemma table_wf_inj: "table_wf t \<Longrightarrow> u \<in> set (tb_unique t) \<Longrightarrow> inj_claims (ux_columns u) (row_at t)"
  unfolding inj_claims_def unclaimed_def
proof (intro allI impI notI)
  fix pk row pk' row'
  assume t: "table_wf t" "u \<in> set (tb_unique t)" and a: "row_at t pk = Some row" "row_at t pk' = Some row'" "pk' \<noteq> pk"
    "columns_key (ux_columns u) row' = columns_key (ux_columns u) row"
  have "unique_holds (tb_schema t) u (row_at t)" using t by (simp add: table_wf_def table_inv_def)
  then have "bt_get (ux_tree u) (columns_key (ux_columns u) row) = Some pk"
    "bt_get (ux_tree u) (columns_key (ux_columns u) row) = Some pk'"
    using a by (auto simp: unique_holds_def)
  then show False using a(3) by simp
qed

lemma ops_ok_Nil: "table_wf t \<Longrightarrow> ops_ok t []"
  using table_wf_inj by (simp add: ops_ok_def)

lemma table_ops_ok:
  assumes "tx_ok st tx" "store_ok st" "bt_get (ms_committed st) table = Some t"
  shows "ops_ok t (table_ops tx table)" "ops_wf (table_ops tx table)"
proof -
  have t: "table_wf t" using assms by (auto simp: store_ok_def table_ok_def)
  have "ops_ok t (table_ops tx table) \<and> ops_wf (table_ops tx table)"
  proof (cases "bt_get (tx_tables tx) table")
    case None
    then show ?thesis using ops_ok_Nil [OF t] by (simp add: table_ops_def ops_wf_def)
  next
    case (Some ops)
    then have "\<exists>t. bt_get (ms_committed st) table = Some t \<and> ops_ok t ops \<and> ops_wf ops"
      using assms(1) by (simp add: tx_ok_def)
    then show ?thesis using assms(3) Some by (simp add: table_ops_def)
  qed
  then show "ops_ok t (table_ops tx table)" "ops_wf (table_ops tx table)" by simp_all
qed

lemma visible_overlay: "visible tx table base = overlay (row_at base) (table_ops tx table)"
  by (rule ext) (simp add: visible_def overlay_def op_row_def split: option.split PendingOp.split)

lemma inj_claims_upd:
  "inj_claims columns C \<Longrightarrow> unclaimed columns C pk row \<Longrightarrow> inj_claims columns (C(pk \<mapsto> row))"
  unfolding inj_claims_def unclaimed_def by (auto split: if_splits) metis

lemma inj_claims_del: "inj_claims columns C \<Longrightarrow> inj_claims columns (C(pk := None))"
  unfolding inj_claims_def unclaimed_def by (auto split: if_splits)

lemma overlay_insert: "overlay C (bt_insert pk op ops) = (overlay C ops)(pk := op_row op)"
  by (rule ext) (simp add: overlay_def bt_get_insert)

lemma overlay_remove: "bt_wf ops \<Longrightarrow> overlay C (bt_remove pk ops) = (overlay C ops)(pk := C pk)"
  by (rule ext) (simp add: overlay_def bt_get_remove)

lemma set_bt_insert: "bt_wf m \<Longrightarrow> (k', v') \<in> set (bt_insert k v m) \<longleftrightarrow> (if k' = k then v' = v else (k', v') \<in> set m)"
  using bt_get_insert [of k v m k'] by (auto simp: bt_get_Some_iff [symmetric])

lemma set_bt_remove: "bt_wf m \<Longrightarrow> (k', v') \<in> set (bt_remove k m) \<longleftrightarrow> k' \<noteq> k \<and> (k', v') \<in> set m"
  using bt_get_remove [of m k k'] by (auto simp: bt_get_Some_iff [symmetric])

section \<open>Writes\<close>

lemma row_wf_update: "row_wf vs \<Longrightarrow> wf_value v \<Longrightarrow> row_wf (vs[i := v])"
  by (auto simp: row_wf_def list_all_iff dest!: set_update_subset_insert [THEN subsetD])

text \<open>What a transaction sees of a table: its pending operations over the committed rows.\<close>

definition tx_view :: "Tx \<Rightarrow> TableId \<Rightarrow> claims" where
  "tx_view tx table = (case bt_get (tx_base tx) table of None \<Rightarrow> (\<lambda>_. None) | Some t \<Rightarrow> visible tx table t)"

lemma try_each_iff: "try_each f xs = Inr () \<longleftrightarrow> (\<forall>x\<in>set xs. f x = Inr ())"
  by (induction xs) (auto simp: rbind_eq_Inr_iff)

lemma seq_ok: "rbind r (\<lambda>_. k) = Inr () \<longleftrightarrow> r = Inr () \<and> k = Inr ()" for r :: "'e + unit"
  by (cases r) auto

lemma derive_wf:
  assumes "\<forall>(ordinal, compute)\<in>set cols. \<forall>row v. row_wf row \<longrightarrow> compute row = Inr v \<longrightarrow> wf_value v"
    and "derive_computed cols values = Inr values'" "row_wf values"
  shows "row_wf values'"
proof -
  have "row_wf (vs[ordinal := v])" if "row_wf vs" "(ordinal, compute) \<in> set cols" "compute vs = Inr v" for vs ordinal compute v
    using assms(1) that row_wf_update by blast
  then show ?thesis
    using assms(2, 3) unfolding derive_computed_def
    by (elim try_fold_invariant [rotated -1]) (auto simp: rmap_eq_Inr_iff)
qed

lemma prepare_write_ok:
  assumes "store_ok st" "tx_ok st tx" "row_wf values" "prepare_write st tx table values = Inr (schema, values')"
  obtains t where "bt_get (ms_committed st) table = Some t" "schema = tb_schema t" "row_wf values'" "check_row schema values' = Inr ()"
proof -
  have p: "bt_get (ms_catalog st) table = Some schema" "check_row schema values' = Inr ()"
    "derive_computed (registered (ms_computed st) table) values = Inr values'" "bt_get (ms_committed st) table \<noteq> None"
    using assms(2, 4) by (auto simp: prepare_write_def schema_of_def state_table_def tx_ok_def result_simps)
  then obtain t where t: "bt_get (ms_committed st) table = Some t" by auto
  have "row_wf values'"
    using derive_wf [OF _ p(3)] assms(1, 3) by (simp add: store_ok_def computed_ok_def)
  then show ?thesis using that [OF t] assms(1) t p by (auto simp: store_ok_def table_ok_def)
qed

lemma assign_ok:
  assumes "assign_auto_inc st table schema values w = Inr (w', values')" "row_wf values" "check_row schema values = Inr ()"
  shows "row_wf values' \<and> check_row schema values' = Inr () \<and> set (high_water_dirty w') \<subseteq> insert table (set (high_water_dirty w))"
proof -
  consider "values' = values" | idx v v' where "values' = values[idx := VU64 v]" "list_get values idx = Some (VU64 v')"
    using assms(1) by (auto simp: assign_auto_inc_def Let_def split: option.splits RowValue.splits if_splits prod.splits)
  then have "row_wf values' \<and> check_row schema values' = Inr ()"
  proof cases
    case 2
    then have i: "idx < length values" "values ! idx = VU64 v'" by (auto simp: list_get_def split: if_splits)
    have "row_wf values'" using assms(2) by (simp add: 2(1) row_wf_update)
    moreover have "check_row schema values' = Inr ()"
      using assms(3) i unfolding 2(1) check_row_iff list_all2_conv_all_nth by (auto simp: nth_list_update)
    ultimately show ?thesis by simp
  qed (use assms in auto)
  moreover have "set (high_water_dirty w') \<subseteq> insert table (set (high_water_dirty w))"
    using assms(1) by (auto simp: assign_auto_inc_def Let_def set_insort_insert split: option.splits RowValue.splits if_splits prod.splits)
  ultimately show ?thesis by blast
qed

lemma row_ok_checked:
  assumes "table_ok st table t" "row_wf values" "check_row (tb_schema t) values = Inr ()" "encode_pk_of_row (tb_schema t) values = Inr pk"
  shows "row_ok t pk values"
  using assms by (auto simp: row_ok_def table_ok_def typed_on_def key_value_def row_wf_def list_all_length check_row_iff
      list_all2_conv_all_nth)

lemma pk_key_columns: "set (ts_primary_key (tb_schema t)) \<subseteq> set (key_columns t)"
  by (simp add: key_columns_def table_shape_def)

lemma row_ok_agree:
  assumes "row_ok t pk row" "length row' = length row"
    and "\<forall>i\<in>set (key_columns t). row' ! i = row ! i"
  shows "row_ok t pk row'"
proof -
  have "concat (map (\<lambda>i. enc_value (row' ! i)) (ts_primary_key (tb_schema t))) =
      concat (map (\<lambda>i. enc_value (row ! i)) (ts_primary_key (tb_schema t)))"
    using assms(3) pk_key_columns [of t] by (intro arg_cong [where f = concat] map_cong) auto
  moreover have "list_all (\<lambda>i. i < length row' \<and> fits_value (row' ! i)) (ts_primary_key (tb_schema t))"
    using assms pk_key_columns [of t] by (auto simp: row_ok_def encode_pk_of_row_iff list_all_iff)
  ultimately show ?thesis using assms by (simp add: row_ok_def encode_pk_of_row_iff typed_on_def)
qed

lemma seal_ok:
  assumes "store_ok st" "bt_get (ms_committed st) table = Some t" "row_wf values" "row_ok t pk values"
    and "seal st table values pk = Inr values'"
  shows "row_wf values' \<and> row_ok t pk values' \<and>
    (\<forall>i\<in>set (key_columns t). values' ! i = values ! i)"
proof (cases "\<exists>engine. ms_transforms st = Some engine \<and> te_touches engine table")
  case True
  then obtain engine where e: "ms_transforms st = Some engine" "te_on_write engine table values pk = Inr values'"
    using assms(5) by (auto simp: seal_def)
  have "transforms_ok st" using assms(1) by (simp add: store_ok_def)
  then have "row_wf values'" "length values' = length values"
    "\<forall>i\<in>set (key_columns t). values' ! i = values ! i"
    using e assms(2, 3) unfolding transforms_ok_def by blast+
  then show ?thesis using row_ok_agree [OF assms(4)] by blast
next
  case False
  then show ?thesis using assms by (auto simp: seal_def split: option.splits if_splits)
qed

lemma check_unique_unclaimed:
  assumes "bt_get (tx_base tx) table = Some t" "table_wf t" "ops_ok t (table_ops tx table)" "row_ok t pk values"
    and "check_unique tx table values pk = Inr ()" "u \<in> set (tb_unique t)"
  shows "unclaimed (ux_columns u) (visible tx table t) pk values"
  unfolding unclaimed_def
proof (intro allI impI notI)
  fix pk' row'
  let ?ops = "table_ops tx table" and ?key = "columns_key (ux_columns u) values"
  assume v: "visible tx table t pk' = Some row'" and ne: "pk' \<noteq> pk" and eq: "columns_key (ux_columns u) row' = ?key"
  have key: "key_of_values u r = Inr (columns_key (ux_columns u) r)" if "row_ok t p r" for p r
    unfolding key_of_values_def by (rule key_of_columns [OF unique_columns_typed [OF that assms(6)]])
  have uh: "unique_holds (tb_schema t) u (row_at t)" using assms(2, 6) by (simp add: table_wf_def table_inv_def)
  have "rbind (try_each (\<lambda>(other_pk, op).
      if other_pk = pk then Inr ()
      else case op_row op of
          None \<Rightarrow> Inr ()
        | Some row \<Rightarrow> rbind (key_of_values u row) (\<lambda>k. if k = ?key then Inl violation_error else Inr ())) ?ops) (\<lambda>_.
    case owner u ?key of
      None \<Rightarrow> Inr ()
    | Some own \<Rightarrow>
        if own = pk \<or> (case bt_get ?ops own of Some Delete \<Rightarrow> True | Some (Update _) \<Rightarrow> True | _ \<Rightarrow> False)
        then Inr () else Inl violation_error) = Inr ()"
    using bspec [OF assms(5) [unfolded check_unique_def state_table_def assms(1) ok_or_simps rbind.simps try_each_iff] assms(6)]
    by (simp add: key [OF assms(4)])
  then have chk: "\<forall>x\<in>set ?ops. (\<lambda>(other_pk, op). if other_pk = pk then Inr ()
      else case op_row op of
          None \<Rightarrow> Inr ()
        | Some row \<Rightarrow> rbind (key_of_values u row) (\<lambda>k. if k = ?key then Inl violation_error else Inr ())) x = Inr ()"
    and own: "(case owner u ?key of
      None \<Rightarrow> Inr ()
    | Some own \<Rightarrow>
        if own = pk \<or> (case bt_get ?ops own of Some Delete \<Rightarrow> True | Some (Update _) \<Rightarrow> True | _ \<Rightarrow> False)
        then Inr () else Inl violation_error) = Inr ()"
    unfolding seq_ok try_each_iff by blast+
  show False
  proof (cases "bt_get ?ops pk'")
    case None
    then have "row_at t pk' = Some row'" using v by (simp add: visible_def)
    then have "owner u ?key = Some pk'" using uh eq by (auto simp: unique_holds_def owner_def)
    then show False using own ne None by simp
  next
    case (Some op)
    then have op: "(pk', op) \<in> set ?ops" "op_row op = Some row'"
      using assms(3) v by (auto simp: ops_ok_def bt_get_Some_iff visible_overlay overlay_def)
    then have "op_ok t pk' op" using assms(3) by (auto simp: ops_ok_def)
    then have "row_ok t pk' row'" using op(2) by (auto simp: op_ok_def op_row_def split: PendingOp.splits)
    then show False using bspec [OF chk op(1)] op(2) ne key eq by simp
  qed
qed

lemma store_table: "store_ok st \<Longrightarrow> bt_get (ms_committed st) table = Some t \<Longrightarrow> table_ok st table t"
  by (simp add: store_ok_def)

lemma table_ok_wf: "table_ok st table t \<Longrightarrow> table_wf t"
  by (simp add: table_ok_def)

lemma ops_put_ok:
  assumes "ops_ok t ops" "op_ok t pk op"
    and "\<And>u row. u \<in> set (tb_unique t) \<Longrightarrow> op_row op = Some row \<Longrightarrow> unclaimed (ux_columns u) (overlay (row_at t) ops) pk row"
  shows "ops_ok t (bt_insert pk op ops)"
proof -
  have "inj_claims (ux_columns u) ((overlay (row_at t) ops)(pk := op_row op))" if u: "u \<in> set (tb_unique t)" for u
  proof -
    have inj: "inj_claims (ux_columns u) (overlay (row_at t) ops)" using assms(1) u by (simp add: ops_ok_def)
    show ?thesis
      by (cases "op_row op") (simp_all add: inj_claims_del [OF inj] inj_claims_upd [OF inj assms(3) [OF u]])
  qed
  then show ?thesis using assms(1, 2) by (auto simp: ops_ok_def overlay_insert set_bt_insert split: if_splits)
qed

lemma ops_drop_ok:
  assumes "ops_ok t ops"
    and "\<And>u row. u \<in> set (tb_unique t) \<Longrightarrow> row_at t pk = Some row \<Longrightarrow> unclaimed (ux_columns u) (overlay (row_at t) ops) pk row"
  shows "ops_ok t (bt_remove pk ops)"
proof -
  have "inj_claims (ux_columns u) ((overlay (row_at t) ops)(pk := row_at t pk))" if u: "u \<in> set (tb_unique t)" for u
  proof -
    have inj: "inj_claims (ux_columns u) (overlay (row_at t) ops)" using assms(1) u by (simp add: ops_ok_def)
    show ?thesis
      by (cases "row_at t pk") (simp_all add: inj_claims_del [OF inj] inj_claims_upd [OF inj assms(2) [OF u]])
  qed
  then show ?thesis using assms(1) by (auto simp: ops_ok_def overlay_remove set_bt_remove)
qed

lemma table_ops_set: "table_ops (set_ops table ops tx) table' = (if table' = table then ops else table_ops tx table')"
  by (simp add: table_ops_def set_ops_def bt_get_insert)

text \<open>Replacing the pending operations of one table.\<close>

lemma set_ops_ok:
  assumes "tx_ok st tx" "bt_get (ms_committed st) table = Some t" "ops_ok t ops"
    and "ops_wf ops"
  shows "tx_ok st (set_ops table ops tx)"
    "tx_view (set_ops table ops tx) = (tx_view tx)(table := overlay (row_at t) ops)"
proof -
  show "tx_ok st (set_ops table ops tx)" using assms by (simp add: tx_ok_def set_ops_def bt_get_insert)
  have "tx_base tx = ms_committed st" "tx_base (set_ops table ops tx) = tx_base tx"
    using assms(1) by (simp_all add: tx_ok_def set_ops_def)
  then show "tx_view (set_ops table ops tx) = (tx_view tx)(table := overlay (row_at t) ops)"
    using assms(2) by (intro ext) (simp add: tx_view_def visible_overlay table_ops_set split: option.split)
qed

lemma tx_view_table:
  "tx_ok st tx \<Longrightarrow> bt_get (ms_committed st) table = Some t \<Longrightarrow> tx_view tx table = overlay (row_at t) (table_ops tx table)"
  by (simp add: tx_view_def tx_ok_def visible_overlay)

lemma store_op_ok:
  assumes "store_ok st" "tx_ok st tx" "bt_get (ms_committed st) table = Some t" "op_ok t pk op"
    and "\<And>u row. u \<in> set (tb_unique t) \<Longrightarrow> op_row op = Some row \<Longrightarrow> unclaimed (ux_columns u) (visible tx table t) pk row"
    and "\<forall>row. op_row op = Some row \<longrightarrow> row_wf row"
  shows "tx_ok st (set_ops table (bt_insert pk op (table_ops tx table)) tx)"
    "tx_view (set_ops table (bt_insert pk op (table_ops tx table)) tx) =
      (tx_view tx)(table := (tx_view tx table)(pk := op_row op))"
proof -
  note ops = table_ops_ok(1) [OF assms(2, 1, 3)] and rows = table_ops_ok(2) [OF assms(2, 1, 3)]
  have "ops_ok t (bt_insert pk op (table_ops tx table))"
    by (rule ops_put_ok [OF ops assms(4)]) (use assms(5) in \<open>simp add: visible_overlay\<close>)
  moreover have "ops_wf (bt_insert pk op (table_ops tx table))"
    using rows assms(6) ops by (auto simp: ops_wf_def set_bt_insert ops_ok_def split: if_splits)
  ultimately show "tx_ok st (set_ops table (bt_insert pk op (table_ops tx table)) tx)"
    "tx_view (set_ops table (bt_insert pk op (table_ops tx table)) tx) =
      (tx_view tx)(table := (tx_view tx table)(pk := op_row op))"
    using set_ops_ok [OF assms(2, 3)] by (simp_all add: overlay_insert tx_view_table [OF assms(2, 3)])
qed

lemma drop_op_ok:
  assumes "store_ok st" "tx_ok st tx" "bt_get (ms_committed st) table = Some t"
    and "\<And>u row. u \<in> set (tb_unique t) \<Longrightarrow> row_at t pk = Some row \<Longrightarrow> unclaimed (ux_columns u) (visible tx table t) pk row"
  shows "tx_ok st (set_ops table (bt_remove pk (table_ops tx table)) tx)"
    "tx_view (set_ops table (bt_remove pk (table_ops tx table)) tx) =
      (tx_view tx)(table := (tx_view tx table)(pk := row_at t pk))"
proof -
  note ops = table_ops_ok(1) [OF assms(2, 1, 3)] and rows = table_ops_ok(2) [OF assms(2, 1, 3)]
  have w: "bt_wf (table_ops tx table)" using ops by (simp add: ops_ok_def)
  have "ops_ok t (bt_remove pk (table_ops tx table))"
    by (rule ops_drop_ok [OF ops]) (use assms(4) in \<open>simp add: visible_overlay\<close>)
  moreover have "ops_wf (bt_remove pk (table_ops tx table))"
    using rows w by (auto simp: ops_wf_def set_bt_remove)
  ultimately show "tx_ok st (set_ops table (bt_remove pk (table_ops tx table)) tx)"
    "tx_view (set_ops table (bt_remove pk (table_ops tx table)) tx) =
      (tx_view tx)(table := (tx_view tx table)(pk := row_at t pk))"
    using set_ops_ok [OF assms(2, 3)] by (simp_all add: overlay_remove [OF w] tx_view_table [OF assms(2, 3)])
qed

lemma keep_ops_ok:
  assumes "store_ok st" "tx_ok st tx" "bt_get (ms_committed st) table = Some t"
  shows "tx_ok st (set_ops table (table_ops tx table) tx)" "tx_view (set_ops table (table_ops tx table) tx) = tx_view tx"
  using set_ops_ok [OF assms(2, 3) table_ops_ok(1) [OF assms(2, 1, 3)] table_ops_ok(2) [OF assms(2, 1, 3)]]
  by (simp_all add: tx_view_table [OF assms(2, 3), symmetric])

lemma op_at: "store_ok st \<Longrightarrow> tx_ok st tx \<Longrightarrow> bt_get (ms_committed st) table = Some t \<Longrightarrow>
    bt_get (table_ops tx table) pk = Some op \<Longrightarrow> op_ok t pk op \<and> (\<forall>row. op_row op = Some row \<longrightarrow> row_wf row)"
  using table_ops_ok [of st tx table t] by (auto simp: ops_ok_def bt_get_Some_iff ops_wf_def)

lemma row_eq_unclaimed:
  assumes "table_ok st table t" "row_at t pk = Some committed" "row_eq committed values" "u \<in> set (tb_unique t)"
    and "unclaimed (ux_columns u) C pk values"
  shows "unclaimed (ux_columns u) C pk committed"
proof -
  have "row_ok t pk committed" using assms(1, 2) by (auto simp: table_ok_def table_wf_def table_inv_def)
  then have "columns_key (ux_columns u) committed = columns_key (ux_columns u) values"
    using row_eq_columns [OF assms(3) unique_columns_typed] assms(1, 4) by (simp add: table_ok_def)
  then show ?thesis using assms(5) by (simp add: unclaimed_def)
qed

lemma buffer_write_ok:
  assumes "store_ok st" "tx_ok st tx" "bt_get (ms_committed st) table = Some t" "row_ok t pk values" "row_wf values"
    and un: "\<And>u. u \<in> set (tb_unique t) \<Longrightarrow> unclaimed (ux_columns u) (visible tx table t) pk values"
  shows "\<exists>tx' stored changed. buffer_write table t pk values tx = (tx', Inr (stored, changed)) \<and> tx_ok st tx' \<and>
    tx_view tx' = (tx_view tx)(table := (tx_view tx table)(pk \<mapsto> stored)) \<and>
    (stored = values \<or> row_at t pk = Some stored \<and> row_eq stored values) \<and> tx_writer tx' = tx_writer tx"
proof -
  let ?ops = "table_ops tx table"
  have wr: "tx_writer (set_ops table ops tx) = tx_writer tx" for ops by (simp add: set_ops_def)
  have put: "tx_ok st (set_ops table (bt_insert pk op ?ops) tx) \<and>
      tx_view (set_ops table (bt_insert pk op ?ops) tx) = (tx_view tx)(table := (tx_view tx table)(pk \<mapsto> values))"
    if "op_ok t pk op" "op_row op = Some values" for op
    using store_op_ok [OF assms(1-3) that(1)] un assms(5) that(2) by auto
  have same: "unclaimed (ux_columns u) (visible tx table t) pk c"
    if "u \<in> set (tb_unique t)" "row_at t pk = Some c" "row_eq c values" for u c
    using row_eq_unclaimed [OF store_table [OF assms(1, 3)] that(2, 3, 1) un [OF that(1)]] .
  show ?thesis
  proof (cases "bt_get ?ops pk")
    case None
    then have view: "tx_view tx table pk = row_at t pk" by (simp add: tx_view_table [OF assms(2, 3)] overlay_def)
    show ?thesis
    proof (cases "row_at t pk")
      case Nope: None
      then show ?thesis using put [of "Insert values"] assms(4) None
        by (auto simp: buffer_write_def op_ok_def op_row_def wr)
    next
      case (Some c)
      show ?thesis
      proof (cases "row_eq c values")
        case True
        have "(tx_view tx)(table := (tx_view tx table)(pk \<mapsto> c)) = tx_view tx" using view Some by (simp add: fun_upd_idem)
        then show ?thesis using keep_ops_ok [OF assms(1-3)] None Some True by (auto simp: buffer_write_def wr)
      next
        case False
        then show ?thesis using put [of "Update values"] assms(4) None Some
          by (auto simp: buffer_write_def op_ok_def op_row_def wr)
      qed
    qed
  next
    case (Some op)
    then have op: "op_ok t pk op" using op_at [OF assms(1-3)] by blast
    show ?thesis
    proof (cases op)
      case Delete
      then obtain c where c: "row_at t pk = Some c" using op by (auto simp: op_ok_def)
      show ?thesis
      proof (cases "row_eq c values")
        case True
        have "unclaimed (ux_columns u) (visible tx table t) pk row" if "u \<in> set (tb_unique t)" "row_at t pk = Some row" for u row
          using same [OF that(1) c True] that(2) c by simp
        note drop_op_ok [OF assms(1-3) this]
        then show ?thesis using c Some Delete True by (simp add: buffer_write_def wr) blast
      next
        case False
        then show ?thesis using put [of "Update values"] assms(4) c Some Delete
          by (auto simp: buffer_write_def op_ok_def op_row_def wr)
      qed
    qed (use put [of "Insert values"] put [of "Update values"] assms(4) op Some in
        \<open>auto simp: buffer_write_def op_ok_def op_row_def wr\<close>)
  qed
qed

lemma tx_ok_writer:
  "tx_ok st tx \<Longrightarrow> set (high_water_dirty w) \<subseteq> insert table (set (high_water_dirty (tx_writer tx))) \<Longrightarrow>
   bt_get (ms_committed st) table \<noteq> None \<Longrightarrow> tx_ok st (tx\<lparr>tx_writer := w\<rparr>)"
  unfolding tx_ok_def by auto

lemma tx_view_writer [simp]: "tx_view (tx\<lparr>tx_writer := w\<rparr>) = tx_view tx"
  by (rule ext) (simp add: tx_view_def visible_def table_ops_def fun_eq_iff split: option.split)

lemma push_event_ok [simp]: "tx_ok st (push_event st' ev tx) = tx_ok st tx" "tx_view (push_event st' ev tx) = tx_view tx"
  "tx_writer (push_event st' ev tx) = tx_writer tx"
  by (simp_all add: push_event_def tx_ok_def tx_view_def visible_def table_ops_def fun_eq_iff split: option.split)

lemma validate_write_ok:
  assumes "store_ok st" "tx_ok st tx" "bt_get (ms_committed st) table = Some t" "row_wf values"
    and "check_row (tb_schema t) values = Inr ()"
    and "validate_write st tx table (tb_schema t) values replace = Inr (pk, values', base)"
  shows "base = t" "row_ok t pk values'" "row_wf values'" "\<not> replace \<Longrightarrow> visible tx table t pk = None"
    "u \<in> set (tb_unique t) \<Longrightarrow> unclaimed (ux_columns u) (visible tx table t) pk values'"
proof -
  have b: "bt_get (tx_base tx) table = Some t" using assms(2, 3) by (simp add: tx_ok_def)
  have v: "encode_pk_of_row (tb_schema t) values = Inr pk" "seal st table values pk = Inr values'" "base = t"
    "\<not> replace \<longrightarrow> visible tx table t pk = None" "check_unique tx table values' pk = Inr ()"
    using assms(6) b by (auto simp: validate_write_def state_table_def result_simps split: if_splits)
  note row = row_ok_checked [OF store_table [OF assms(1, 3)] assms(4, 5) v(1)]
  show "base = t" "\<not> replace \<Longrightarrow> visible tx table t pk = None" using v by simp_all
  show r: "row_ok t pk values'" and "row_wf values'" using seal_ok [OF assms(1, 3, 4) row v(2)] by simp_all
  show "u \<in> set (tb_unique t) \<Longrightarrow> unclaimed (ux_columns u) (visible tx table t) pk values'"
    using check_unique_unclaimed [OF b table_ok_wf [OF store_table [OF assms(1, 3)]] table_ops_ok(1) [OF assms(2, 1, 3)] r v(5)] .
qed

text \<open>How a write moves the writer's counters: not at all, or by one assignment.\<close>

definition counter_step :: "MemStore \<Rightarrow> TableId \<Rightarrow> WriterState \<Rightarrow> WriterState \<Rightarrow> bool" where
  "counter_step st table w w' =
    (w' = w \<or> (\<exists>t vs us. bt_get (ms_committed st) table = Some t \<and> check_row (tb_schema t) vs = Inr () \<and>
      assign_auto_inc st table (tb_schema t) vs w = Inr (w', us)))"

text \<open>The stages of a write that stored a row: derived values, assigned values, sealed values.\<close>

definition write_stages ::
  "MemStore \<Rightarrow> Tx \<Rightarrow> TableId \<Rightarrow> Row \<Rightarrow> TableState \<Rightarrow> PkBytes \<Rightarrow> Row \<Rightarrow> Row \<Rightarrow> Row \<Rightarrow> Row \<Rightarrow> WriterState \<Rightarrow> bool" where
  "write_stages st tx table values t pk derived assigned sealed stored w =
    (bt_get (ms_committed st) table = Some t \<and>
     prepare_write st tx table values = Inr (tb_schema t, derived) \<and>
     check_row (tb_schema t) derived = Inr () \<and> check_row (tb_schema t) assigned = Inr () \<and>
     assign_auto_inc st table (tb_schema t) derived (tx_writer tx) = Inr (w, assigned) \<and>
     check_constraints st (tx\<lparr>tx_writer := w\<rparr>) table assigned = Inr () \<and>
     encode_pk_of_row (tb_schema t) assigned = Inr pk \<and> row_wf assigned \<and>
     seal st table assigned pk = Inr sealed \<and> row_ok t pk stored \<and> row_wf stored \<and>
     (stored = sealed \<or> row_at t pk = Some stored \<and> row_eq stored sealed))"

lemma tx_write_cases:
  assumes "store_ok st" "tx_ok st tx" "row_wf values"
  obtains (err) tx' e where "tx_write st table values replace tx = (tx', Inl e)" "tx_ok st tx'" "tx_view tx' = tx_view tx"
    "counter_step st table (tx_writer tx) (tx_writer tx')"
  | (ok) tx' stored t pk derived assigned sealed where "tx_write st table values replace tx = (tx', Inr stored)" "tx_ok st tx'"
    "write_stages st tx table values t pk derived assigned sealed stored (tx_writer tx')" "\<not> replace \<Longrightarrow> tx_view tx table pk = None"
    "tx_view tx' = (tx_view tx)(table := (tx_view tx table)(pk \<mapsto> stored))"
proof (cases "prepare_write st tx table values")
  case (Inl e)
  show ?thesis by (rule err [of tx e]) (use Inl assms in \<open>simp_all add: tx_write_def counter_step_def\<close>)
next
  case (Inr r)
  then obtain schema vs where p: "prepare_write st tx table values = Inr (schema, vs)" by (cases r) auto
  obtain t where t: "bt_get (ms_committed st) table = Some t" "schema = tb_schema t" "row_wf vs" "check_row schema vs = Inr ()"
    using prepare_write_ok [OF assms p] .
  show ?thesis
  proof (cases "assign_auto_inc st table schema vs (tx_writer tx)")
    case (Inl e)
    show ?thesis by (rule err [of tx e]) (use p Inl assms in \<open>simp_all add: tx_write_def counter_step_def\<close>)
  next
    case (Inr r)
    then obtain w us where a: "assign_auto_inc st table schema vs (tx_writer tx) = Inr (w, us)" by (cases r) auto
    let ?tx = "tx\<lparr>tx_writer := w\<rparr>"
    have us: "row_wf us" "check_row (tb_schema t) us = Inr ()" and tx: "tx_ok st ?tx"
      using assign_ok [OF a t(3, 4)] tx_ok_writer [OF assms(2)] t by auto
    show ?thesis
    proof (cases "validate_write st ?tx table schema us replace")
      case (Inl e)
      show ?thesis
        by (rule err [of ?tx e]) (use p a t Inl tx in \<open>auto simp: tx_write_def counter_step_def\<close>)
    next
      case (Inr r)
      then obtain pk xs base where v: "validate_write st ?tx table schema us replace = Inr (pk, xs, base)" by (cases r) auto
      note vw = validate_write_ok [OF assms(1) tx t(1) us v [unfolded t(2)]]
      obtain tx' stored changed where b: "buffer_write table t pk xs ?tx = (tx', Inr (stored, changed))" "tx_ok st tx'"
        "tx_view tx' = (tx_view tx)(table := (tx_view tx table)(pk \<mapsto> stored))"
        "stored = xs \<or> row_at t pk = Some stored \<and> row_eq stored xs" "tx_writer tx' = w"
        using buffer_write_ok [OF assms(1) tx t(1) vw(2, 3) vw(5)] by auto
      have "row_ok t pk stored" "row_wf stored"
        using b(4) vw(2, 3) store_table [OF assms(1) t(1)] by (auto simp: table_ok_def table_wf_def table_inv_def)
      moreover have "check_constraints st ?tx table us = Inr ()" "encode_pk_of_row (tb_schema t) us = Inr pk"
        "seal st table us pk = Inr xs"
        using v t(2) by (auto simp: validate_write_def result_simps split: if_splits)
      ultimately have "write_stages st tx table values t pk vs us xs stored w"
        using t p a us b(4) by (simp add: write_stages_def)
      moreover have "\<not> replace \<Longrightarrow> tx_view tx table pk = None"
        using vw(4) tx_view_table [OF tx t(1)] by (simp add: visible_overlay)
      ultimately show ?thesis
        using ok [of _ stored t pk vs us xs] b t(1) p a v vw(1) by (simp add: tx_write_def Let_def)
    qed
  qed
qed

lemma delete_one_cases:
  assumes "store_ok st" "tx_ok st tx"
  obtains (err) e where "delete_one st table pk_values tx = (tx, Inl e)"
  | (ok) tx' t pk where "delete_one st table pk_values tx = (tx', Inr (tx_view tx table pk))" "tx_ok st tx'"
    "bt_get (ms_committed st) table = Some t" "encode_pk_values (tb_schema t) pk_values = Inr pk"
    "tx_view tx' = (tx_view tx)(table := (tx_view tx table)(pk := None))" "tx_writer tx' = tx_writer tx"
proof -
  let ?pre = "rbind (schema_of st table) (\<lambda>schema.
        rbind (global_guard st schema) (\<lambda>_.
        rbind (encode_pk_values schema pk_values) (\<lambda>pk.
        rbind (state_table (tx_base tx) table) (\<lambda>base. Inr (pk, row_at base pk)))))"
  show ?thesis
  proof (cases ?pre)
    case (Inl e)
    then show ?thesis using err by (simp add: delete_one_def)
  next
    case (Inr r)
    then obtain pk t where t: "bt_get (ms_committed st) table = Some t" "encode_pk_values (tb_schema t) pk_values = Inr pk"
      "r = (pk, row_at t pk)"
      using assms by (auto simp: result_simps schema_of_def state_table_def tx_ok_def store_ok_def table_ok_def)
    let ?ops = "table_ops tx table"
    note view = tx_view_table [OF assms(2) t(1)]
    have put: "tx_ok st (set_ops table (bt_insert pk Delete ?ops) tx) \<and> tx_view (set_ops table (bt_insert pk Delete ?ops) tx) =
        (tx_view tx)(table := (tx_view tx table)(pk := None))" if "row_at t pk \<noteq> None"
      using store_op_ok [OF assms t(1), of pk Delete] that by (simp add: op_ok_def op_row_def)
    have keep: "tx_ok st (set_ops table ?ops tx) \<and> tx_view (set_ops table ?ops tx) =
        (tx_view tx)(table := (tx_view tx table)(pk := None))" if "tx_view tx table pk = None"
      using keep_ops_ok [OF assms t(1)] that by (simp add: fun_upd_idem)
    have drop: "tx_ok st (set_ops table (bt_remove pk ?ops) tx) \<and> tx_view (set_ops table (bt_remove pk ?ops) tx) =
        (tx_view tx)(table := (tx_view tx table)(pk := None))" if "row_at t pk = None"
      using drop_op_ok [OF assms t(1), of pk] that by simp
    have wr: "tx_writer (set_ops table ops tx) = tx_writer tx" for ops by (simp add: set_ops_def)
    note del = delete_one_def [of st table pk_values tx, unfolded Inr t(3) sum.case prod.case Let_def]
    let ?res = "delete_one st table pk_values tx"
    have "snd ?res = Inr (tx_view tx table pk) \<and> tx_ok st (fst ?res) \<and> tx_writer (fst ?res) = tx_writer tx \<and>
        tx_view (fst ?res) = (tx_view tx)(table := (tx_view tx table)(pk := None))"
    proof (cases "bt_get ?ops pk")
      case None
      then have v: "tx_view tx table pk = row_at t pk" by (simp add: view overlay_def)
      show ?thesis by (cases "row_at t pk") (use None v put keep in \<open>auto simp: del wr\<close>)
    next
      case (Some op)
      then have v: "tx_view tx table pk = op_row op" "op_ok t pk op"
        using op_at [OF assms t(1)] by (simp_all add: view overlay_def)
      show ?thesis by (cases op) (use Some v put keep drop in \<open>auto simp: del wr op_row_def op_ok_def\<close>)
    qed
    then show ?thesis using ok [of "fst ?res" pk t] t by (metis prod.collapse)
  qed
qed

section \<open>Deletes\<close>

text \<open>What an operation returned, with the worklist dropped.\<close>

lemma run_each_invariant:
  assumes "\<And>x s. x \<in> set xs \<Longrightarrow> P s \<Longrightarrow> P (fst (f x s))" and "P s"
  shows "P (fst (run_each f xs s))"
  using assms
proof (induction xs arbitrary: s)
  case (Cons x xs)
  obtain s' r where f: "f x s = (s', r)" by (cases "f x s")
  have "P (fst (f x s))" using Cons.prems by simp
  then show ?case using Cons.IH [of s'] Cons.prems(1) f by (cases r) simp_all
qed simp

lemma scan_all_wf:
  assumes "store_ok st" "tx_ok st tx" "scan_all table tx = Inr rows" "row \<in> set rows"
  shows "row_wf row \<and> (\<exists>pk. tx_view tx table pk = Some row)" "bt_get (ms_committed st) table \<noteq> None"
proof -
  obtain t where t: "bt_get (ms_committed st) table = Some t"
    using assms(2, 3) by (auto simp: scan_all_def state_table_def tx_ok_def result_simps)
  then show "bt_get (ms_committed st) table \<noteq> None" by simp
  note ops = table_ops_ok [OF assms(2, 1) t]
  have w: "bt_wf (tb_rows t)" "bt_wf (table_ops tx table)"
    using store_table [OF assms(1) t] ops by (simp_all add: table_ok_def table_wf_def table_inv_def ops_ok_def)
  have "bt_get (tx_base tx) table = Some t" using assms(2) t by (simp add: tx_ok_def)
  then consider pk where "(pk, row) \<in> set (tb_rows t)" "bt_get (table_ops tx table) pk = None"
    | pk op where "(pk, op) \<in> set (table_ops tx table)" "op_row op = Some row"
    using assms(3, 4) w
    by (auto simp: scan_all_def state_table_def List.map_filter_def op_row_def bt_get_Some_iff split: option.splits PendingOp.splits)
  then show "row_wf row \<and> (\<exists>pk. tx_view tx table pk = Some row)"
  proof cases
    case 1
    then have "row_at t pk = Some row" using w by (simp add: row_at_def bt_get_Some_iff)
    then have "tx_view tx table pk = Some row" "row_wf row"
      using 1 store_table [OF assms(1) t] by (auto simp: table_ok_def tx_view_table [OF assms(2) t] overlay_def)
    then show ?thesis by blast
  next
    case 2
    then have "tx_view tx table pk = Some row"
      using w by (simp add: tx_view_table [OF assms(2) t] overlay_def bt_get_Some_iff [symmetric])
    then show ?thesis using 2 ops(2) unfolding ops_wf_def by blast
  qed
qed

lemma unseal_ok:
  assumes "store_ok st" "bt_get (ms_committed st) table = Some t" "row_wf row" "unseal st table schema row = Inr vals"
  shows "row_wf vals \<and> length vals = length row \<and> (\<forall>i\<in>set (key_columns t). vals ! i = row ! i)"
proof (cases "\<exists>engine. ms_transforms st = Some engine \<and> te_touches engine table")
  case True
  then obtain engine pk where e: "ms_transforms st = Some engine" "te_on_read engine table row pk = Inr vals"
    using assms(4) by (auto simp: unseal_def result_simps)
  then show ?thesis using assms(1-3) unfolding store_ok_def transforms_ok_def by blast
next
  case False
  then show ?thesis using assms by (auto simp: unseal_def split: option.splits if_splits)
qed

text \<open>
  Whatever row writes and single deletes keep, a whole delete keeps: its fan-out through foreign keys
  is made of these two.
\<close>

locale tx_closed =
  fixes st :: MemStore and P :: "Tx \<Rightarrow> bool"
  assumes ok: "P tx \<Longrightarrow> store_ok st \<and> tx_ok st tx"
    and writes: "P tx \<Longrightarrow> row_wf values \<Longrightarrow> P (fst (tx_write st table values replace tx))"
    and deletes: "P tx \<Longrightarrow> P (fst (delete_one st table pk_values tx))"
begin

lemma ref_action_kept:
  assumes "P tx" "row_wf child" "bt_get (ms_committed st) (fk_child fk) \<noteq> None"
  shows "P (fst (fst (ref_action st fk child (tx, work))))"
proof (cases "fk_on_delete fk")
  case Cascade
  then show ?thesis using deletes [OF assms(1), of "fk_child fk" "map ((!) child) (ts_primary_key (fk_child_schema fk))"]
    by (auto simp: ref_action_def split: prod.split sum.split option.split)
next
  case SetNull
  have wf: "row_wf (vals[i := VOptional None])" if "unseal st (fk_child fk) (fk_child_schema fk) child = Inr vals" for vals i
    using unseal_ok [OF _ _ assms(2) that] ok [OF assms(1)] assms(3) by (auto simp: row_wf_update)
  show ?thesis
  proof (cases "unseal st (fk_child fk) (fk_child_schema fk) child")
    case (Inr vals)
    then show ?thesis using SetNull writes [OF assms(1) wf [OF Inr], of "fk_child fk" "fk_child_ordinal fk" True]
      by (auto simp: ref_action_def split: prod.split sum.split)
  qed (use SetNull assms in \<open>simp add: ref_action_def\<close>)
qed (use assms in \<open>simp add: ref_action_def\<close>)

lemma apply_ref_action_kept:
  assumes "P tx"
  shows "P (fst (fst (apply_ref_action st parent_value fk (tx, work))))"
proof (cases "scan_all (fk_child fk) tx")
  case (Inr rows)
  let ?rows = "filter (\<lambda>row. fk_value_matches (list_get row (fk_child_ordinal fk)) parent_value) rows"
  have "P (fst (fst (ref_action st fk row s)))" if "row \<in> set ?rows" "P (fst s)" for row s
    using ref_action_kept [OF that(2)] scan_all_wf [OF _ _ Inr] ok [OF assms] that(1) by (cases s) auto
  then have "P (fst (fst (run_each (ref_action st fk) ?rows (tx, work))))"
    using assms by (intro run_each_invariant [where P = "\<lambda>s. P (fst s)"]) simp_all
  then show ?thesis using Inr by (simp add: apply_ref_action_def)
qed (use assms in \<open>simp add: apply_ref_action_def\<close>)

lemma fan_out_kept: "P (fst s) \<Longrightarrow> P (fst (fst (fan_out st parent old_row s)))"
  unfolding fan_out_def
proof (rule run_each_invariant [where P = "\<lambda>s. P (fst s)"])
  show "P (fst (fst (case ts_primary_key (fk_parent_schema fk) of [] \<Rightarrow> (s, Inr ())
      | [pk_ord] \<Rightarrow> apply_ref_action st (old_row ! pk_ord) fk s | pk_ord # a # b \<Rightarrow> (s, Inr ()))))" if "P (fst s)" for fk s
    using that apply_ref_action_kept [of "fst s" _ fk "snd s"] by (auto split: list.split)
qed

lemma delete_loop_kept: "delete_loop st work tx = Some r \<Longrightarrow> P tx \<Longrightarrow> P (fst r)"
proof -
  have "st' = st \<longrightarrow> P tx \<longrightarrow> P (fst r)" if "delete_loop st' work tx = Some r" for st'
    using that
  proof (rule delete_loop.raw_induct [rotated])
    fix loop :: "MemStore \<Rightarrow> worklist \<Rightarrow> Tx \<Rightarrow> (Tx \<times> unit result) option" and st' work tx r
    assume IH: "\<And>st' work tx r. loop st' work tx = Some r \<Longrightarrow> st' = st \<longrightarrow> P tx \<longrightarrow> P (fst r)"
      and step: "(case work of [] \<Rightarrow> Some (tx, Inr ())
        | (parent, old_row) # rest \<Rightarrow>
            (case fan_out st' parent old_row (tx, rest) of
               ((tx, rest), Inl e) \<Rightarrow> Some (tx, Inl e)
             | ((tx, rest), Inr _) \<Rightarrow> loop st' rest tx)) = Some r"
    show "st' = st \<longrightarrow> P tx \<longrightarrow> P (fst r)"
    proof (intro impI)
      assume st: "st' = st" and tx: "P tx"
      show "P (fst r)"
      proof (cases work)
        case (Cons w rest)
        obtain tx' rest' q where f: "fan_out st (fst w) (snd w) (tx, rest) = ((tx', rest'), q)" by (metis prod.collapse)
        have "P tx'" using fan_out_kept [of "(tx, rest)" "fst w" "snd w"] tx f by simp
        then show ?thesis using step f Cons st IH by (cases q) (auto simp: case_prod_beta)
      qed (use step tx in auto)
    qed
  qed
  then show "delete_loop st work tx = Some r \<Longrightarrow> P tx \<Longrightarrow> P (fst r)" by blast
qed

lemma tx_delete_kept: "P tx \<Longrightarrow> tx_delete st table pk_values tx = Some r \<Longrightarrow> P (fst r)"
  using deletes [of tx table pk_values] delete_loop_kept
  by (fastforce simp: tx_delete_def split: prod.splits sum.splits option.splits)

end

interpretation kept: tx_closed st "\<lambda>tx. store_ok st \<and> tx_ok st tx" for st
proof unfold_locales
  show "store_ok st \<and> tx_ok st (fst (tx_write st table vs replace tx))"
    if "store_ok st \<and> tx_ok st tx" "row_wf vs" for tx vs table replace
    by (rule tx_write_cases [of st tx vs table replace]) (use that in auto)
  show "store_ok st \<and> tx_ok st (fst (delete_one st table pk_values tx))"
    if "store_ok st \<and> tx_ok st tx" for tx table pk_values
    by (rule delete_one_cases [of st tx table pk_values]) (use that in auto)
qed simp

end
