(* ===== verification/Commit.thy ===== *)
theory Commit
  imports StoreInvariant
begin

text \<open>
  Commits of the transactional store: the merge of every touched table, the published auto-increment
  marks, and what a store reached by any sequence of transactions looks like.
\<close>

section \<open>Merging the touched tables\<close>

definition rows_of :: "tables \<Rightarrow> TableId \<Rightarrow> claims" where
  "rows_of tables table = (case bt_get tables table of None \<Rightarrow> (\<lambda>_. None) | Some t \<Rightarrow> row_at t)"

definition table_diff :: "tables \<Rightarrow> TableId \<times> (PkBytes, PendingOp) btree \<Rightarrow> TableDiff list" where
  "table_diff tables = (\<lambda>(table_id, ops).
    if ops = [] then []
    else [\<lparr>td_table_id = table_id, td_inserts = ops_inserts ops, td_deletes = ops_deletes (rows_of tables table_id) ops\<rparr>])"

definition mark_of :: "(TableId, AutoIncCounter) btree \<Rightarrow> TableId \<Rightarrow> u64" where
  "mark_of cs table = (case bt_get cs table of None \<Rightarrow> 0 | Some c \<Rightarrow> ctr_high_water c)"

definition commit_diff :: "MemStore \<Rightarrow> Tx \<Rightarrow> TxDiff" where
  "commit_diff st tx =
    \<lparr>diff_tx_id = tx_id tx, diff_tables = concat (map (table_diff (ms_committed st)) (tx_tables tx)),
     diff_auto_inc = map (\<lambda>id. (id, mark_of (counters (tx_writer tx)) id)) (high_water_dirty (tx_writer tx))\<rparr>"

definition merged_table :: "TableState \<Rightarrow> (PkBytes, PendingOp) btree \<Rightarrow> TableState \<Rightarrow> bool" where
  "merged_table t ops t' = merged t (overlay (row_at t) ops) (overlay (row_at t) ops) (length ops) t'"

lemma merged_table_Nil: "table_wf t \<Longrightarrow> merged_table t [] t"
  by (simp add: merged_table_def merged_def table_wf_def)

text \<open>
  Publishing changes table by table: a step that brings one table to its overlay and reports its diff
  brings all tables there.  The merge of a commit is such a step, and so is a replicated record.
\<close>

locale table_steps =
  fixes step :: "TableId \<times> (PkBytes, PendingOp) btree \<Rightarrow> tables \<times> TableDiff list \<Rightarrow> (tables \<times> TableDiff list) result"
    and admissible :: "TableId \<Rightarrow> TableState \<Rightarrow> (PkBytes, PendingOp) btree \<Rightarrow> bool"
  assumes step_ok: "bt_get tables tid = Some t \<Longrightarrow> admissible tid t ops \<Longrightarrow>
    \<exists>t'. step (tid, ops) (tables, diffs) = Inr (if ops = [] then tables else bt_insert tid t' tables, diffs @ table_diff tables (tid, ops)) \<and>
      merged_table t ops t' \<and> (ops = [] \<longrightarrow> t' = t)"
begin

lemma all_ok:
  assumes "distinct (map fst touched)" "\<And>tid ops. (tid, ops) \<in> set touched \<Longrightarrow> \<exists>t. bt_get tables tid = Some t \<and> admissible tid t ops"
  shows "\<exists>tables'. try_fold step touched (tables, diffs) = Inr (tables', diffs @ concat (map (table_diff tables) touched)) \<and>
    (bt_wf tables \<longrightarrow> bt_wf tables') \<and>
    (\<forall>tid. tid \<notin> fst ` set touched \<longrightarrow> bt_get tables' tid = bt_get tables tid) \<and>
    (\<forall>tid ops t. (tid, ops) \<in> set touched \<longrightarrow> bt_get tables tid = Some t \<longrightarrow>
      (\<exists>t'. bt_get tables' tid = Some t' \<and> merged_table t ops t'))"
  using assms
proof (induction touched arbitrary: tables diffs)
  case (Cons x touched)
  obtain tid ops where x: "x = (tid, ops)" by (cases x)
  obtain t where t: "bt_get tables tid = Some t" "admissible tid t ops" using Cons.prems(2) x by force
  obtain t' where t': "step x (tables, diffs) = Inr (if ops = [] then tables else bt_insert tid t' tables, diffs @ table_diff tables x)"
    "merged_table t ops t'" "ops = [] \<Longrightarrow> t' = t"
    using step_ok [OF t] x by blast
  let ?tables = "if ops = [] then tables else bt_insert tid t' tables"
  have get: "bt_get ?tables i = (if i = tid then Some t' else bt_get tables i)" for i
    using t(1) t'(3) by (simp add: bt_get_insert)
  have fresh: "tid \<notin> fst ` set touched" and d: "distinct (map fst touched)" using Cons.prems(1) x by auto
  have other: "i \<noteq> tid" if "(i, p) \<in> set touched" for i p using that fresh by force
  have pre: "\<exists>t. bt_get ?tables i = Some t \<and> admissible i t p" if "(i, p) \<in> set touched" for i p
    using Cons.prems(2) [of i p] that other by (auto simp: get)
  have "table_diff ?tables y = table_diff tables y" if "y \<in> set touched" for y
    using other that by (cases y) (auto simp: table_diff_def rows_of_def get)
  then have same: "map (table_diff ?tables) touched = map (table_diff tables) touched" by simp
  obtain tables' where IH: "try_fold step touched (?tables, diffs @ table_diff tables x) =
      Inr (tables', (diffs @ table_diff tables x) @ concat (map (table_diff ?tables) touched))"
    "bt_wf ?tables \<longrightarrow> bt_wf tables'" "\<forall>i. i \<notin> fst ` set touched \<longrightarrow> bt_get tables' i = bt_get ?tables i"
    "\<forall>i p s. (i, p) \<in> set touched \<longrightarrow> bt_get ?tables i = Some s \<longrightarrow> (\<exists>t'. bt_get tables' i = Some t' \<and> merged_table s p t')"
    using Cons.IH [OF d pre, of "diffs @ table_diff tables x"] by blast
  have "\<exists>t'. bt_get tables' i = Some t' \<and> merged_table s p t'" if "(i, p) \<in> set (x # touched)" "bt_get tables i = Some s" for i p s
  proof (cases "(i, p) = x")
    case True
    then show ?thesis using IH(3) fresh get t'(2) t(1) that(2) x by simp
  next
    case False
    then show ?thesis using IH(4) that other get by auto
  qed
  moreover have "bt_get tables' i = bt_get tables i" if "i \<notin> fst ` set (x # touched)" for i
    using that IH(3) get x by simp
  moreover have "bt_wf tables \<longrightarrow> bt_wf tables'" using IH(2) by simp
  ultimately show ?case using IH(1) t'(1) by (intro exI [of _ tables']) (simp add: same)
qed simp

lemma merged_stage:
  assumes "store_ok st" "tx_ok st tx"
    and "\<And>tid t ops. bt_get (ms_committed st) tid = Some t \<Longrightarrow> table_ok st tid t \<Longrightarrow> bt_get (tx_tables tx) tid = Some ops \<Longrightarrow>
      ops_ok t ops \<Longrightarrow> ops_wf ops \<Longrightarrow> admissible tid t ops"
  shows "\<exists>tables. try_fold step (tx_tables tx) (ms_committed st, []) = Inr (tables, diff_tables (commit_diff st tx)) \<and> bt_wf tables \<and>
    (\<forall>tid. bt_get (ms_committed st) tid = None \<longrightarrow> bt_get tables tid = None) \<and>
    (\<forall>tid t. bt_get (ms_committed st) tid = Some t \<longrightarrow>
      (\<exists>t'. bt_get tables tid = Some t' \<and> merged_table t (table_ops tx tid) t'))"
proof -
  let ?base = "ms_committed st"
  have b: "bt_wf (tx_tables tx)" "bt_wf ?base" using assms by (simp_all add: tx_ok_def store_ok_def)
  have pre: "\<exists>t. bt_get ?base tid = Some t \<and> admissible tid t ops" if "(tid, ops) \<in> set (tx_tables tx)" for tid ops
  proof -
    have ops: "bt_get (tx_tables tx) tid = Some ops" using that b(1) by (simp add: bt_get_Some_iff)
    then obtain t where "bt_get ?base tid = Some t" "ops_ok t ops" "ops_wf ops" using assms(2) unfolding tx_ok_def by blast
    then show ?thesis using assms(3) store_table [OF assms(1)] ops by blast
  qed
  obtain tables where m: "try_fold step (tx_tables tx) (?base, []) = Inr (tables, [] @ concat (map (table_diff ?base) (tx_tables tx)))"
    "bt_wf tables" "\<forall>tid. tid \<notin> fst ` set (tx_tables tx) \<longrightarrow> bt_get tables tid = bt_get ?base tid"
    "\<forall>tid ops t. (tid, ops) \<in> set (tx_tables tx) \<longrightarrow> bt_get ?base tid = Some t \<longrightarrow>
      (\<exists>t'. bt_get tables tid = Some t' \<and> merged_table t ops t')"
    using all_ok [OF bt_wf_distinct [OF b(1)] pre, of "[]"] b(2) by blast
  have "\<exists>t'. bt_get tables tid = Some t' \<and> merged_table t (table_ops tx tid) t'" if t: "bt_get ?base tid = Some t" for tid t
  proof (cases "bt_get (tx_tables tx) tid")
    case None
    then have "bt_get tables tid = Some t" using m(3) t by (simp add: bt_get_None_iff)
    then show ?thesis using None merged_table_Nil table_ok_wf [OF store_table [OF assms(1) t]] by (simp add: table_ops_def)
  next
    case (Some ops)
    then have "(tid, ops) \<in> set (tx_tables tx)" using b(1) by (simp add: bt_get_Some_iff)
    then show ?thesis using m(4) t Some by (simp add: table_ops_def)
  qed
  moreover have "bt_get tables tid = None" if "bt_get ?base tid = None" for tid
  proof -
    have "tid \<notin> fst ` set (tx_tables tx)" using pre that by force
    then show ?thesis using m(3) that by simp
  qed
  ultimately show ?thesis using m(1, 2) by (simp add: commit_diff_def)
qed

end

interpretation merging: table_steps merge_one "\<lambda>id t ops. table_wf t \<and> ops_ok t ops"
proof
  fix tables diffs t ops and id :: TableId
  assume t: "bt_get tables id = Some t" "table_wf t \<and> ops_ok t ops"
  show "\<exists>t'. merge_one (id, ops) (tables, diffs) = Inr (if ops = [] then tables else bt_insert id t' tables, diffs @ table_diff tables (id, ops)) \<and>
      merged_table t ops t' \<and> (ops = [] \<longrightarrow> t' = t)"
  proof (cases "ops = []")
    case True
    then show ?thesis using merged_table_Nil t(2) by (simp add: merge_one_def table_diff_def)
  next
    case False
    obtain t' where "merge_table id ops t = Inr (t', \<lparr>td_table_id = id, td_inserts = ops_inserts ops,
        td_deletes = ops_deletes (row_at t) ops\<rparr>)" "merged_table t ops t'"
      using merge_table_ok t(2) unfolding merged_table_def by blast
    then show ?thesis using False t(1) by (intro exI [of _ t']) (simp add: merge_one_def table_diff_def rows_of_def)
  qed
qed

section \<open>Publishing\<close>

lemma publish_marks_ok:
  assumes "\<forall>id\<in>set dirty. bt_get tables id \<noteq> None"
  shows "\<exists>tables'. try_fold (mark_one cs) dirty (tables, marks) = Inr (tables', marks @ map (\<lambda>id. (id, mark_of cs id)) dirty) \<and>
    (bt_wf tables \<longrightarrow> bt_wf tables') \<and>
    (\<forall>id. bt_get tables' id = map_option (\<lambda>t. if id \<in> set dirty then t\<lparr>tb_high_water := mark_of cs id\<rparr> else t) (bt_get tables id))"
  using assms
proof (induction dirty arbitrary: tables marks)
  case Nil
  then show ?case by (simp add: option.map_ident)
next
  case (Cons id dirty)
  obtain t where t: "bt_get tables id = Some t" using Cons.prems by auto
  let ?tables = "bt_insert id (t\<lparr>tb_high_water := mark_of cs id\<rparr>) tables"
  have pre: "\<forall>id\<in>set dirty. bt_get ?tables id \<noteq> None" using Cons.prems by (simp add: bt_get_insert)
  obtain tables' where IH: "try_fold (mark_one cs) dirty (?tables, marks @ [(id, mark_of cs id)]) =
      Inr (tables', (marks @ [(id, mark_of cs id)]) @ map (\<lambda>id. (id, mark_of cs id)) dirty)"
    "bt_wf ?tables \<longrightarrow> bt_wf tables'"
    "\<And>i. bt_get tables' i = map_option (\<lambda>t. if i \<in> set dirty then t\<lparr>tb_high_water := mark_of cs i\<rparr> else t) (bt_get ?tables i)"
    using Cons.IH [OF pre] by blast
  have "mark_one cs id (tables, marks) = Inr (?tables, marks @ [(id, mark_of cs id)])"
    using t by (simp add: mark_one_def mark_of_def Let_def)
  then show ?case using IH t by (intro exI [of _ tables']) (auto simp: bt_get_insert)
qed

lemma mark_simps [simp]:
  "row_at (t\<lparr>tb_high_water := h\<rparr>) = row_at t" "table_shape (t\<lparr>tb_high_water := h\<rparr>) = table_shape t"
  by (simp_all add: row_at_def table_shape_def fun_eq_iff)

lemma table_ok_mark: "table_ok st table (t\<lparr>tb_high_water := h\<rparr>) = table_ok st table t"
  using row_ok_shape [of "t\<lparr>tb_high_water := h\<rparr>" t]
  by (simp add: table_ok_def table_wf_def table_inv_def key_columns_def)

lemma merged_table_rows:
  assumes "table_ok st table t" "ops_ok t ops" "ops_wf ops" "merged_table t ops t'"
  shows "table_ok st table t' \<and> row_at t' = overlay (row_at t) ops \<and> table_shape t' = table_shape t"
proof -
  have sh: "table_shape t' = table_shape t" "table_wf t'" "row_at t' = overlay (row_at t) ops"
    using assms(4) by (auto simp: merged_table_def merged_def table_wf_def)
  have wf: "row_wf row" if "overlay (row_at t) ops pk = Some row" for pk row
    using that assms(1, 2, 3)
    by (auto simp: overlay_def ops_wf_def table_ok_def ops_ok_def bt_get_Some_iff split: option.splits)
  have k: "key_columns t' = key_columns t" "tb_schema t' = tb_schema t" "map ux_columns (tb_unique t') = map ux_columns (tb_unique t)"
    using sh(1) by (auto simp: key_columns_def table_shape_def)
  have "\<forall>columns\<in>set (map ux_columns (tb_unique t)). \<forall>i\<in>set columns. exact_type (cs_ty (ts_columns (tb_schema t) ! i))"
    using assms(1) by (simp add: table_ok_def)
  then have "\<forall>columns\<in>set (map ux_columns (tb_unique t')). \<forall>i\<in>set columns. exact_type (cs_ty (ts_columns (tb_schema t') ! i))"
    unfolding k .
  then have "\<forall>u\<in>set (tb_unique t'). \<forall>i\<in>set (ux_columns u). exact_type (cs_ty (ts_columns (tb_schema t') ! i))" by simp
  then show ?thesis using assms(1) sh k(1, 2) wf by (simp add: table_ok_def)
qed

section \<open>Commit\<close>

text \<open>Commits leave the schema and everything registered at link time alone.\<close>

definition same_config :: "MemStore \<Rightarrow> MemStore \<Rightarrow> bool" where
  "same_config st st' =
    (ms_catalog st' = ms_catalog st \<and> ms_step st' = ms_step st \<and> ms_transforms st' = ms_transforms st \<and>
     ms_computed st' = ms_computed st \<and> ms_checks st' = ms_checks st \<and> ms_not_null st' = ms_not_null st \<and>
     ms_fks_out st' = ms_fks_out st \<and> ms_fks_in st' = ms_fks_in st \<and> ms_global_writes_allowed st' = ms_global_writes_allowed st)"

text \<open>What a commit publishes: the rows the transaction saw, in tables of the same shape.\<close>

definition published :: "MemStore \<Rightarrow> Tx \<Rightarrow> MemStore \<Rightarrow> bool" where
  "published st tx st' =
    (same_config st st' \<and> rows_of (ms_committed st') = tx_view tx \<and>
     (\<forall>table. map_option table_shape (bt_get (ms_committed st') table) = map_option table_shape (bt_get (ms_committed st) table)) \<and>
     next_tx_id (ms_writer st') = sat_add (tx_id tx) 1 \<and> counters (ms_writer st') = counters (tx_writer tx) \<and>
     high_water_dirty (ms_writer st') = [] \<and>
     (\<forall>table t. bt_get (ms_committed st') table = Some t \<longrightarrow>
       tb_high_water t = (if table \<in> set (high_water_dirty (tx_writer tx)) then mark_of (counters (tx_writer tx)) table
         else (case bt_get (ms_committed st) table of None \<Rightarrow> 0 | Some t0 \<Rightarrow> tb_high_water t0))))"

lemma rows_of_view:
  assumes "tx_ok st tx" "\<And>table. bt_get tables table = None \<longleftrightarrow> bt_get (ms_committed st) table = None"
    and "\<And>table t t'. bt_get (ms_committed st) table = Some t \<Longrightarrow> bt_get tables table = Some t' \<Longrightarrow>
      row_at t' = overlay (row_at t) (table_ops tx table)"
  shows "rows_of tables = tx_view tx"
proof (intro ext)
  fix table pk
  have b: "tx_base tx = ms_committed st" using assms(1) by (simp add: tx_ok_def)
  show "rows_of tables table pk = tx_view tx table pk"
  proof (cases "bt_get (ms_committed st) table")
    case (Some t)
    then obtain t' where t': "bt_get tables table = Some t'" using assms(2) [of table] by auto
    then show ?thesis using assms(3) [OF Some t'] Some by (simp add: rows_of_def tx_view_def visible_overlay b)
  qed (use assms(2) [of table] in \<open>simp add: rows_of_def tx_view_def b\<close>)
qed

lemma shape_schema: "table_shape t' = table_shape t \<Longrightarrow> tb_schema t' = tb_schema t \<and> key_columns t' = key_columns t"
  by (simp add: key_columns_def) (simp add: table_shape_def)

lemma store_ok_published:
  assumes "store_ok st" "bt_wf tables"
    and "\<And>table t'. bt_get tables table = Some t' \<Longrightarrow> table_ok st table t' \<and>
      (\<exists>t. bt_get (ms_committed st) table = Some t \<and> table_shape t' = table_shape t)"
    and "ms_committed st' = tables" "ms_catalog st' = ms_catalog st" "ms_transforms st' = ms_transforms st"
    and "ms_computed st' = ms_computed st" "\<forall>table\<in>set (high_water_dirty (ms_writer st')). bt_get tables table \<noteq> None"
  shows "store_ok st'"
proof -
  have "table_ok st' = table_ok st" using assms(5) by (simp add: table_ok_def fun_eq_iff)
  moreover have "computed_ok st'" using assms(1, 7) by (simp add: store_ok_def computed_ok_def)
  moreover have "transforms_ok st'"
    unfolding transforms_ok_def
  proof (intro allI impI)
    fix engine table t' row pk row'
    assume e: "ms_transforms st' = Some engine" "bt_get (ms_committed st') table = Some t'" "row_wf row"
    obtain t where t: "bt_get (ms_committed st) table = Some t" "table_shape t' = table_shape t"
      using assms(3) e(2) by (auto simp: assms(4))
    have "transforms_ok st" "ms_transforms st = Some engine" using assms(1, 6) e(1) by (simp_all add: store_ok_def)
    then have "(te_on_write engine table row pk = Inr row' \<longrightarrow> row_wf row' \<and> length row' = length row \<and>
        (\<forall>i\<in>set (key_columns t). row' ! i = row ! i)) \<and>
      (te_on_read engine table row pk = Inr row' \<longrightarrow> row_wf row' \<and> length row' = length row \<and>
        (\<forall>i\<in>set (key_columns t). row' ! i = row ! i))"
      using e(3) t(1) unfolding transforms_ok_def by blast
    then show "(te_on_write engine table row pk = Inr row' \<longrightarrow> row_wf row' \<and> length row' = length row \<and>
        (\<forall>i\<in>set (key_columns t'). row' ! i = row ! i)) \<and>
      (te_on_read engine table row pk = Inr row' \<longrightarrow> row_wf row' \<and> length row' = length row \<and>
        (\<forall>i\<in>set (key_columns t'). row' ! i = row ! i))"
      using shape_schema [OF t(2)] by simp
  qed
  moreover have "table_ok st table t" if "bt_get tables table = Some t" for table t using assms(3) that by blast
  ultimately show ?thesis using assms(2, 4, 8) by (simp add: store_ok_def)
qed

text \<open>The tables a publish leaves: the merged ones with the marks of the counters that moved.\<close>

definition publishes :: "MemStore \<Rightarrow> Tx \<Rightarrow> tables \<Rightarrow> bool" where
  "publishes st tx tables =
    (bt_wf tables \<and> rows_of tables = tx_view tx \<and>
     (\<forall>table. map_option table_shape (bt_get tables table) = map_option table_shape (bt_get (ms_committed st) table)) \<and>
     (\<forall>table t. bt_get tables table = Some t \<longrightarrow> table_ok st table t \<and>
       tb_high_water t = (if table \<in> set (high_water_dirty (tx_writer tx)) then mark_of (counters (tx_writer tx)) table
         else (case bt_get (ms_committed st) table of None \<Rightarrow> 0 | Some t0 \<Rightarrow> tb_high_water t0))))"

lemma marked_stage:
  assumes "store_ok st" "tx_ok st tx" "bt_wf tables'"
    and "\<And>table. bt_get (ms_committed st) table = None \<Longrightarrow> bt_get tables table = None"
    and "\<And>table t. bt_get (ms_committed st) table = Some t \<Longrightarrow>
      \<exists>t'. bt_get tables table = Some t' \<and> merged_table t (table_ops tx table) t'"
    and "\<And>table. bt_get tables' table = map_option (\<lambda>t. if table \<in> set (high_water_dirty (tx_writer tx))
      then t\<lparr>tb_high_water := mark_of (counters (tx_writer tx)) table\<rparr> else t) (bt_get tables table)"
  shows "publishes st tx tables'"
proof -
  let ?w = "tx_writer tx" and ?base = "ms_committed st"
  have none: "bt_get tables' table = None \<longleftrightarrow> bt_get ?base table = None" for table
    using assms(4, 5) [of table] assms(6) [of table] by (cases "bt_get ?base table") auto
  have fin: "table_ok st table t' \<and> row_at t' = overlay (row_at t) (table_ops tx table) \<and> table_shape t' = table_shape t \<and>
      tb_high_water t' = (if table \<in> set (high_water_dirty ?w) then mark_of (counters ?w) table else tb_high_water t)"
    if t: "bt_get ?base table = Some t" "bt_get tables' table = Some t'" for table t t'
  proof -
    obtain s where s: "bt_get tables table = Some s" "merged_table t (table_ops tx table) s" using assms(5) [OF t(1)] by blast
    have "t' = (if table \<in> set (high_water_dirty ?w) then s\<lparr>tb_high_water := mark_of (counters ?w) table\<rparr> else s)"
      using assms(6) [of table] s(1) t(2) by simp
    moreover have "tb_high_water s = tb_high_water t" using s(2) by (simp add: merged_table_def merged_def)
    ultimately show ?thesis
      using merged_table_rows [OF store_table [OF assms(1) t(1)] table_ops_ok [OF assms(2, 1) t(1)] s(2)]
      by (simp add: table_ok_mark)
  qed
  have old: "\<exists>t. bt_get ?base table = Some t" if "bt_get tables' table = Some t'" for table t'
    using none [of table] that by (cases "bt_get ?base table") auto
  have "row_at t' = overlay (row_at t) (table_ops tx table)" if "bt_get ?base table = Some t" "bt_get tables' table = Some t'" for table t t'
    using fin [OF that] by blast
  then have "rows_of tables' = tx_view tx" by (rule rows_of_view [OF assms(2) none])
  moreover have "map_option table_shape (bt_get tables' table) = map_option table_shape (bt_get ?base table)" for table
  proof (cases "bt_get tables' table")
    case (Some t')
    then obtain t where "bt_get ?base table = Some t" "table_shape t' = table_shape t" using old [OF Some] fin [OF _ Some] by blast
    then show ?thesis using Some by simp
  qed (use none [of table] in simp)
  moreover have "table_ok st table t' \<and> tb_high_water t' = (if table \<in> set (high_water_dirty ?w) then mark_of (counters ?w) table
      else (case bt_get ?base table of None \<Rightarrow> 0 | Some t0 \<Rightarrow> tb_high_water t0))" if t': "bt_get tables' table = Some t'" for table t'
  proof -
    obtain t where t: "bt_get ?base table = Some t" using old [OF t'] by blast
    then show ?thesis using fin [OF t t', THEN conjunct1] fin [OF t t', THEN conjunct2, THEN conjunct2, THEN conjunct2] by simp
  qed
  ultimately show ?thesis using assms(3) by (simp add: publishes_def)
qed

lemma publishes_ok:
  assumes "store_ok st" "publishes st tx tables" "ms_committed st' = tables" "same_config st st'" "high_water_dirty (ms_writer st') = []"
  shows "store_ok st'"
proof (rule store_ok_published [OF assms(1) _ _ assms(3)])
  show "bt_wf tables" using assms(2) by (simp add: publishes_def)
  show "table_ok st table t' \<and> (\<exists>t. bt_get (ms_committed st) table = Some t \<and> table_shape t' = table_shape t)"
    if t': "bt_get tables table = Some t'" for table t'
  proof -
    have "map_option table_shape (bt_get tables table) = map_option table_shape (bt_get (ms_committed st) table)" "table_ok st table t'"
      using assms(2) t' unfolding publishes_def by blast+
    then show ?thesis using t' by (cases "bt_get (ms_committed st) table") auto
  qed
qed (use assms(4, 5) in \<open>simp_all add: same_config_def\<close>)

lemma commit_ok:
  assumes "store_ok st" "tx_ok st tx"
  shows "\<exists>st'. commit env st tx = (st', if env_retire_ok env then Inr (commit_diff st tx) else Inl Io) \<and>
    store_ok st' \<and> published st tx st'"
proof -
  let ?w = "tx_writer tx" and ?base = "ms_committed st"
  obtain tables where m: "try_fold merge_one (tx_tables tx) (?base, []) = Inr (tables, diff_tables (commit_diff st tx))" "bt_wf tables"
    "\<And>table. bt_get ?base table = None \<Longrightarrow> bt_get tables table = None"
    "\<And>table t. bt_get ?base table = Some t \<Longrightarrow> \<exists>t'. bt_get tables table = Some t' \<and> merged_table t (table_ops tx table) t'"
    using merging.merged_stage [OF assms] table_ok_wf by blast
  have dirty: "\<forall>table\<in>set (high_water_dirty ?w). bt_get tables table \<noteq> None"
    using assms(2) m(4) unfolding tx_ok_def by fastforce
  obtain tables' where p: "try_fold (mark_one (counters ?w)) (high_water_dirty ?w) (tables, []) =
      Inr (tables', [] @ map (\<lambda>table. (table, mark_of (counters ?w) table)) (high_water_dirty ?w))" "bt_wf tables'"
    "\<And>table. bt_get tables' table = map_option (\<lambda>t. if table \<in> set (high_water_dirty ?w)
      then t\<lparr>tb_high_water := mark_of (counters ?w) table\<rparr> else t) (bt_get tables table)"
    using publish_marks_ok [OF dirty, of "counters ?w" "[]"] m(2) by blast
  have pub: "publishes st tx tables'" by (rule marked_stage [OF assms p(2) m(3, 4) p(3)])
  let ?st1 = "publish_versioned (?w\<lparr>high_water_dirty := [], next_tx_id := sat_add (tx_id tx) 1\<rparr>) tables' st"
  let ?st2 = "if env_retire_ok env then count_blobs (diff_tables (commit_diff st tx)) (retain_in_temporal_window (env_retained env) (tx_id tx) (env_now env) tables' ?st1) else ?st1"
  have "tx_base tx = ?base" using assms(2) by (simp add: tx_ok_def)
  then have eq: "commit env st tx = (?st2, if env_retire_ok env then Inr (commit_diff st tx) else Inl Io)"
    by (simp add: commit_def merge_tables_def publish_marks_def m(1) p(1) Let_def) (simp add: commit_diff_def)
  have f: "ms_committed ?st2 = tables'" "high_water_dirty (ms_writer ?st2) = []" "counters (ms_writer ?st2) = counters ?w"
    "next_tx_id (ms_writer ?st2) = sat_add (tx_id tx) 1" "same_config st ?st2"
    by (simp_all add: count_blobs_def retain_in_temporal_window_def publish_versioned_def same_config_def)
  have "store_ok ?st2" by (rule publishes_ok [OF assms(1) pub f(1, 5, 2)])
  moreover have "published st tx ?st2" using pub unfolding published_def publishes_def f(1-4) by (simp add: f(5))
  ultimately show ?thesis using eq by blast
qed

text \<open>The transactions a client can build on a store, and the stores that sequences of them reach.\<close>

inductive tx_reach :: "MemStore \<Rightarrow> Tx \<Rightarrow> bool" for st where
  start: "tx_reach st (begin_tx st)"
| row: "tx_reach st tx \<Longrightarrow> row_wf vs \<Longrightarrow> tx_reach st (fst (tx_write st table vs replace tx))"
| del: "tx_reach st tx \<Longrightarrow> tx_delete st table pk_values tx = Some r \<Longrightarrow> tx_reach st (fst r)"

inductive store_reach :: "MemStore \<Rightarrow> MemStore \<Rightarrow> bool" for st0 where
  init: "store_reach st0 st0"
| commit: "store_reach st0 st \<Longrightarrow> tx_reach st tx \<Longrightarrow> store_reach st0 (fst (commit env st tx))"
| rollback: "store_reach st0 st \<Longrightarrow> tx_reach st tx \<Longrightarrow> store_reach st0 (rollback st tx)"

lemma tx_reach_ok: "tx_reach st tx \<Longrightarrow> store_ok st \<Longrightarrow> tx_ok st tx"
proof (induction rule: tx_reach.induct)
  case (row tx vs table replace)
  then show ?case using kept.writes [of st tx vs table replace] by blast
next
  case (del tx table pk_values r)
  then show ?case using kept.tx_delete_kept [of st tx table pk_values r] by blast
qed (rule begin_ok)

lemma rollback_ok: "store_ok st \<Longrightarrow> tx_ok st tx \<Longrightarrow> store_ok (rollback st tx)"
  by (rule store_ok_published [of st "ms_committed st"])
    (auto simp: rollback_def tx_ok_def store_ok_def)

lemma store_reach_ok: "store_reach st0 st \<Longrightarrow> store_ok st0 \<Longrightarrow> store_ok st"
proof (induction rule: store_reach.induct)
  case (commit st tx env)
  then show ?case using commit_ok [of st tx env] tx_reach_ok by force
next
  case (rollback st tx)
  then show ?case using rollback_ok tx_reach_ok by blast
qed

section \<open>Properties of the store\<close>

text \<open>Two tables; a player's team refers to a team and goes with it.\<close>

definition team_schema :: TableSchema where
  "team_schema = \<lparr>ts_name = ''team'', ts_columns = [\<lparr>cs_name = ''id'', cs_ty = TU8\<rparr>], ts_primary_key = [0], ts_auto_inc = None,
    ts_access = Public, ts_partition_by = None, ts_unique = [], ts_indexes = [], ts_visibility = PublicAll\<rparr>"

definition empty_teams :: TableState where
  "empty_teams = \<lparr>tb_schema = team_schema, tb_rows = [], tb_row_count = 0, tb_indexes = [], tb_unique = [], tb_high_water = 0\<rparr>"

definition player_team :: "RefAction \<Rightarrow> ResolvedFk" where
  "player_team action = \<lparr>fk_child = 2, fk_child_schema = player_schema, fk_child_ordinal = 1, fk_parent = 1,
    fk_parent_schema = team_schema, fk_on_delete = action\<rparr>"

definition league :: "RefAction \<Rightarrow> MemStore" where
  "league action = \<lparr>ms_catalog = [(1, team_schema), (2, player_schema)], ms_committed = [(1, empty_teams), (2, empty_players)],
    ms_version = 0, ms_writer = \<lparr>next_tx_id = 1, next_version = 1, counters = [(2, counter_new)], high_water_dirty = []\<rparr>,
    ms_step = 10, ms_window = 2, ms_window_max_bytes = 1000, ms_blobs = None, ms_transforms = None,
    ms_computed = [], ms_checks = [], ms_not_null = [], ms_fks_out = [(2, [player_team action])],
    ms_fks_in = [(1, [player_team action])], ms_history = [], ms_global_writes_allowed = True, ms_has_triggers = (\<lambda>_. False)\<rparr>"

definition quiet :: PublishEnv where
  "quiet = \<lparr>env_retire_ok = True, env_now = 9, env_retained = 0\<rparr>"

definition league_tx :: "RefAction \<Rightarrow> Tx" where
  "league_tx action =
    (let st = league action; tx = fst (tx_insert st 1 [VU8 4] (begin_tx st))
     in fst (tx_insert st 2 (player 0 4 70) tx))"

lemmas write_eval = tx_insert_def tx_write_def prepare_write_def schema_of_def state_table_def global_guard_def
  derive_computed_def registered_def check_blobs_def blob_ordinals_def assign_auto_inc_def validate_write_def check_constraints_def
  parent_exists_def check_unique_def seal_def visible_def buffer_write_def push_event_def table_ops_def set_ops_def
  begin_tx_def check_row_def encode_pk_of_row_def encode_pk_values_def list_get_def schema_column_def row_at_def Let_def
  allocate_def counter_new_def sat_add_def key_of_values_def key_of_def owner_def upt_conv_Cons insort_insert_key_def

lemmas league_eval = league_def empty_teams_def team_schema_def player_team_def empty_players_def player_schema_def player_def

lemma league_team:
  "tx_insert (league action) 1 [VU8 4] (begin_tx (league action)) =
    ((begin_tx (league action))\<lparr>tx_tables := [(1, [([4], Insert [VU8 4])])]\<rparr>, Inr [VU8 4])"
  by (simp add: write_eval league_eval codec_simps encode_defs writer_new_def)

lemma league_tx_eq:
  "tx_tables (league_tx action) = [(1, [([4], Insert [VU8 4])]), (2, [(player_pk 1, Insert (player 1 4 70))])]"
  "tx_base (league_tx action) = ms_committed (league action)" "tx_id (league_tx action) = 1"
  "tx_writer (league_tx action) = \<lparr>next_tx_id = 1, next_version = 1,
    counters = [(2, \<lparr>next_id = 2, ctr_high_water = 10\<rparr>)], high_water_dirty = [2]\<rparr>"
  by (simp_all add: league_tx_def league_team) (simp_all add: write_eval league_eval codec_simps encode_defs writer_new_def player_pk_def)

lemma league_ok: "store_ok (league action)"
proof -
  have "table_wf empty_teams"
    by (auto simp: table_wf_def table_inv_def empty_teams_def row_at_def)
  moreover have "bt_wf (ms_committed (league action))" by (simp add: league_def)
  ultimately show ?thesis
    using empty_players_wf
    by (auto simp: store_ok_def table_ok_def league_def row_at_def empty_teams_def empty_players_def player_schema_def team_schema_def key_columns_def
        table_shape_def index_shape_def transforms_ok_def computed_ok_def registered_def split: if_splits)
qed

lemma league_reach: "tx_reach (league action) (league_tx action)"
proof -
  have "row_wf [VU8 4]" "row_wf (player 0 4 70)" by (simp_all add: row_wf_def player_def)
  then show ?thesis
    unfolding league_tx_def Let_def tx_insert_def by (intro tx_reach.row tx_reach.start)
qed





end
