(* ===== verification/AutoInc.thy ===== *)
theory AutoInc
  imports Commit
begin

text \<open>
  Auto-increment counters of the store: the counter of a table stays above every id of a visible or
  committed row, and its published high-water mark above every committed id, so that neither a running
  nor a recovered store assigns an id twice before the 64-bit range is exhausted.
\<close>

section \<open>Counters\<close>

definition counter_of :: "WriterState \<Rightarrow> TableId \<Rightarrow> AutoIncCounter" where
  "counter_of w table = (case bt_get (counters w) table of None \<Rightarrow> counter_new | Some c \<Rightarrow> c)"

text \<open>A counter covers an id when it never hands it out again and its mark is not below it.\<close>

definition covers :: "AutoIncCounter \<Rightarrow> u64 \<Rightarrow> bool" where
  "covers c v = (v \<noteq> 0 \<and> v \<le> ctr_high_water c \<and> (v < next_id c \<or> next_id c = - 1))"

definition counter_le :: "AutoIncCounter \<Rightarrow> AutoIncCounter \<Rightarrow> bool" where
  "counter_le c c' = (next_id c \<le> next_id c' \<and> ctr_high_water c \<le> ctr_high_water c')"

lemma max_word_le: "(- 1 :: 'a::len word) \<le> w \<longleftrightarrow> w = - 1"
  by (simp add: word_order.extremum_unique)

lemma sat_add_1_next: "v < sat_add v 1 \<or> sat_add v 1 = - 1"
proof (cases "v = - 1")
  case True
  then show ?thesis using sat_add_ge [of v 1] by (simp add: max_word_le)
qed (use sat_add_1_gt in blast)

lemma sat_add_1_exact: "v \<noteq> - 1 \<Longrightarrow> sat_add v 1 = v + 1" for v :: u64
proof -
  assume "v \<noteq> - 1"
  then have "unat v \<noteq> 2 ^ 64 - 1" using unat_max [where 'a = 64] by (auto simp: word_unat_eq_iff)
  then have "unat v + 1 < 2 ^ 64" using unat_bound [of v] by simp
  then show ?thesis by (simp add: sat_add_def)
qed

lemma covers_mono: "covers c v \<Longrightarrow> counter_le c c' \<Longrightarrow> covers c' v"
  by (auto simp: covers_def counter_le_def max_word_le)

lemma counter_le_refl [simp]: "counter_le c c"
  by (simp add: counter_le_def)

lemma allocate_ok:
  assumes "allocate step c = ((assigned, advanced), c')" "next_id c \<noteq> 0"
  shows "assigned = next_id c" "counter_le c c'" "covers c' assigned" "next_id c' = sat_add (next_id c) 1"
    "\<not> advanced \<Longrightarrow> ctr_high_water c' = ctr_high_water c"
proof -
  show a: "assigned = next_id c" and n: "next_id c' = sat_add (next_id c) 1"
    and "\<not> advanced \<Longrightarrow> ctr_high_water c' = ctr_high_water c"
    using assms(1) by (auto simp: allocate_def Let_def)
  have h: "next_id c \<le> ctr_high_water c'" "ctr_high_water c \<le> ctr_high_water c'"
    using assms(1) sat_add_ge [of "next_id c" "step - 1"]
    by (auto simp: allocate_def Let_def not_less intro: order.trans)
  then show "counter_le c c'" using n sat_add_ge by (simp add: counter_le_def)
  have "next_id c < next_id c' \<or> next_id c' = - 1"
    using n sat_add_1_next [of "next_id c"] by simp
  then show "covers c' assigned" using h a assms(2) by (simp add: covers_def)
qed

lemma observe_ok:
  assumes "observe_explicit v c = (advanced, c')" "v \<noteq> 0"
  shows "counter_le c c'" "covers c' v" "\<not> advanced \<Longrightarrow> ctr_high_water c' = ctr_high_water c" "next_id c \<noteq> 0 \<Longrightarrow> next_id c' \<noteq> 0"
proof -
  have n: "next_id c' = (if v \<ge> next_id c then sat_add v 1 else next_id c)"
    and h: "ctr_high_water c' = (if v > ctr_high_water c then v else ctr_high_water c)"
    and "\<not> advanced \<Longrightarrow> ctr_high_water c' = ctr_high_water c"
    using assms(1) by (auto simp: observe_explicit_def Let_def split: if_splits)
  then show "\<not> advanced \<Longrightarrow> ctr_high_water c' = ctr_high_water c" by simp
  show le: "counter_le c c'" using n h sat_add_ge [of v 1] by (auto simp: counter_le_def intro: order.trans)
  have "v < next_id c' \<or> next_id c' = - 1"
    using n sat_add_1_next [of v] by (auto simp: not_le)
  then show "covers c' v" using h assms(2) by (auto simp: covers_def split: if_splits)
  show "next_id c \<noteq> 0 \<Longrightarrow> next_id c' \<noteq> 0" using le by (auto simp: counter_le_def)
qed

section \<open>The invariant\<close>

definition row_id :: "TableState \<Rightarrow> Row \<Rightarrow> u64 option" where
  "row_id t row =
    (case ts_auto_inc (tb_schema t) of
       None \<Rightarrow> None
     | Some i \<Rightarrow> (case row ! i of VU64 v \<Rightarrow> Some v | _ \<Rightarrow> None))"

text \<open>What schema registration ensures of an auto-increment column.\<close>

definition id_schema :: "TableSchema \<Rightarrow> bool" where
  "id_schema schema = (\<forall>i. ts_auto_inc schema = Some i \<longrightarrow> ts_primary_key schema = [i] \<and> i < length (ts_columns schema) \<and>
    cs_ty (ts_columns schema ! i) = TU64)"

definition ids_covered :: "tables \<Rightarrow> WriterState \<Rightarrow> (TableId \<Rightarrow> claims) \<Rightarrow> bool" where
  "ids_covered tables w C =
    (\<forall>table t pk row v. bt_get tables table = Some t \<longrightarrow> C table pk = Some row \<longrightarrow> row_id t row = Some v \<longrightarrow>
      covers (counter_of w table) v)"

definition marks_ok :: "tables \<Rightarrow> WriterState \<Rightarrow> bool" where
  "marks_ok tables w =
    ((\<forall>table. next_id (counter_of w table) \<noteq> 0) \<and>
     (\<forall>table t. bt_get tables table = Some t \<longrightarrow> ts_auto_inc (tb_schema t) \<noteq> None \<longrightarrow> table \<notin> set (high_water_dirty w) \<longrightarrow>
       tb_high_water t = ctr_high_water (counter_of w table)))"

definition store_ids :: "MemStore \<Rightarrow> bool" where
  "store_ids st =
    ((\<forall>table t. bt_get (ms_committed st) table = Some t \<longrightarrow> id_schema (tb_schema t) \<and>
       (\<forall>pk row v. row_at t pk = Some row \<longrightarrow> row_id t row = Some v \<longrightarrow> v \<le> tb_high_water t)) \<and>
     marks_ok (ms_committed st) (ms_writer st) \<and>
     ids_covered (ms_committed st) (ms_writer st) (rows_of (ms_committed st)))"

definition tx_ids :: "MemStore \<Rightarrow> Tx \<Rightarrow> bool" where
  "tx_ids st tx =
    (marks_ok (ms_committed st) (tx_writer tx) \<and> ids_covered (ms_committed st) (tx_writer tx) (rows_of (ms_committed st)) \<and>
     ids_covered (ms_committed st) (tx_writer tx) (tx_view tx))"

lemma begin_view: "tx_view (begin_tx st) = rows_of (ms_committed st)"
  by (intro ext) (simp add: tx_view_def begin_tx_def rows_of_def visible_def table_ops_def split: option.split)

lemma begin_ids: "store_ids st \<Longrightarrow> tx_ids st (begin_tx st)"
  by (simp add: store_ids_def tx_ids_def begin_view) (simp add: begin_tx_def)

text \<open>One assignment: counters only grow, a changed mark is dirty, and the assigned id is covered.\<close>

lemma assign_cases:
  assumes "assign_auto_inc st table schema vs w = Inr (w', us)" "next_id (counter_of w table) \<noteq> 0"
  obtains (none) "ts_auto_inc schema = None" "us = vs" "w' = w"
  | (some) i v advanced c' where "ts_auto_inc schema = Some i" "counters w' = bt_insert table c' (counters w)"
    "high_water_dirty w' = (if advanced then insort_insert table (high_water_dirty w) else high_water_dirty w)"
    "counter_le (counter_of w table) c'" "\<not> advanced \<Longrightarrow> ctr_high_water c' = ctr_high_water (counter_of w table)"
    "us ! i = VU64 v" "covers c' v" "vs ! i \<noteq> VU64 0 \<Longrightarrow> us = vs"
    "vs ! i = VU64 0 \<Longrightarrow> v = next_id (counter_of w table) \<and> next_id c' = sat_add v 1"
proof (cases "ts_auto_inc schema")
  case None
  then show ?thesis using none assms by (auto simp: assign_auto_inc_def)
next
  case (Some i)
  then obtain current where i: "i < length vs" "vs ! i = VU64 current"
    using assms(1) by (auto simp: assign_auto_inc_def list_get_def split: if_splits RowValue.splits option.splits)
  let ?c = "counter_of w table"
  have c: "(case bt_get (counters w) table of None \<Rightarrow> counter_new | Some c \<Rightarrow> c) = ?c" by (simp add: counter_of_def)
  show ?thesis
  proof (cases "current = 0")
    case True
    obtain assigned advanced c' where a: "allocate (ms_step st) ?c = ((assigned, advanced), c')" by (metis prod.collapse)
    have "us = vs[i := VU64 assigned]" "counters w' = bt_insert table c' (counters w)"
      "high_water_dirty w' = (if advanced then insort_insert table (high_water_dirty w) else high_water_dirty w)"
      using assms(1) Some i True a by (auto simp: assign_auto_inc_def list_get_def c Let_def)
    then show ?thesis using some [OF Some, of c' advanced assigned] allocate_ok [OF a assms(2)] True i by simp
  next
    case False
    obtain advanced c' where a: "observe_explicit current ?c = (advanced, c')" by (metis prod.collapse)
    have "us = vs" "counters w' = bt_insert table c' (counters w)"
      "high_water_dirty w' = (if advanced then insort_insert table (high_water_dirty w) else high_water_dirty w)"
      using assms(1) Some i False a by (auto simp: assign_auto_inc_def list_get_def c Let_def)
    then show ?thesis using some [OF Some, of c' advanced current] observe_ok [OF a False] False i by simp
  qed
qed

lemma counter_of_insert:
  "counters w' = bt_insert table c (counters w) \<Longrightarrow> counter_of w' table' = (if table' = table then c else counter_of w table')"
  by (simp add: counter_of_def bt_get_insert)

lemma assign_marks:
  assumes "assign_auto_inc st table schema vs w = Inr (w', us)" "marks_ok tables w"
  shows "marks_ok tables w' \<and> (\<forall>table'. counter_le (counter_of w table') (counter_of w' table'))"
proof -
  have n: "next_id (counter_of w table) \<noteq> 0" using assms(2) by (simp add: marks_ok_def)
  show ?thesis
  proof (rule assign_cases [OF assms(1) n])
    fix i v advanced c'
    assume a: "counters w' = bt_insert table c' (counters w)"
      "high_water_dirty w' = (if advanced then insort_insert table (high_water_dirty w) else high_water_dirty w)"
      "counter_le (counter_of w table) c'" "\<not> advanced \<Longrightarrow> ctr_high_water c' = ctr_high_water (counter_of w table)"
    have "next_id c' \<noteq> 0" using a(3) n by (auto simp: counter_le_def)
    then show ?thesis
      using assms(2) a by (auto simp: marks_ok_def counter_of_insert [OF a(1)] set_insort_insert split: if_splits)
  qed (use assms(2) in simp_all)
qed

lemma counter_step_ids:
  assumes "counter_step st table w w'" "marks_ok tables w"
  shows "marks_ok tables w' \<and> (\<forall>table'. counter_le (counter_of w table') (counter_of w' table'))"
  using assms assign_marks unfolding counter_step_def by fastforce

lemma ids_covered_mono:
  "ids_covered tables w C \<Longrightarrow> (\<And>table. counter_le (counter_of w table) (counter_of w' table)) \<Longrightarrow> ids_covered tables w' C"
  unfolding ids_covered_def by (meson covers_mono)

lemma ids_covered_upd:
  assumes "ids_covered tables w C" "\<And>t row v. bt_get tables table = Some t \<Longrightarrow> x = Some row \<Longrightarrow> row_id t row = Some v \<Longrightarrow> covers (counter_of w table) v"
  shows "ids_covered tables w (C(table := (C table)(pk := x)))"
  using assms unfolding ids_covered_def by (auto split: if_splits)

lemma stored_id:
  assumes "store_ok st" "write_stages st tx table vs t pk derived assigned sealed stored w" "id_schema (tb_schema t)"
    and "marks_ok tables (tx_writer tx)" "ids_covered (ms_committed st) w (rows_of (ms_committed st))"
    and "row_id t stored = Some v"
  shows "covers (counter_of w table) v"
proof -
  note ws = assms(2) [unfolded write_stages_def]
  obtain i where i: "ts_auto_inc (tb_schema t) = Some i" "stored ! i = VU64 v"
    using assms(6) by (auto simp: row_id_def split: option.splits RowValue.splits)
  have pk: "ts_primary_key (tb_schema t) = [i]" using assms(3) i(1) by (simp add: id_schema_def)
  show ?thesis
  proof (cases "row_at t pk = Some stored")
    case True
    then show ?thesis
      using assms(5, 6) ws unfolding ids_covered_def rows_of_def by (metis option.simps(5))
  next
    case False
    then have "stored = sealed" using ws by blast
    moreover have "row_ok t pk assigned" using row_ok_checked [OF store_table [OF assms(1)]] ws by blast
    ultimately have same: "stored ! i = assigned ! i"
      using seal_ok [of st table t assigned pk sealed] ws assms(1) pk pk_key_columns [of t] by auto
    have "next_id (counter_of (tx_writer tx) table) \<noteq> 0" using assms(4) by (simp add: marks_ok_def)
    from assign_cases [OF _ this] show ?thesis
      using ws i same by (metis RowValue.inject(9) counter_of_insert option.distinct(1) option.inject)
  qed
qed

lemma tx_ids_step:
  assumes "tx_ids st tx" "counter_step st table (tx_writer tx) w"
  shows "marks_ok (ms_committed st) w" "ids_covered (ms_committed st) w (rows_of (ms_committed st))"
    "ids_covered (ms_committed st) w (tx_view tx)"
  using assms counter_step_ids [OF assms(2), of "ms_committed st"] ids_covered_mono [of "ms_committed st" "tx_writer tx" _ w]
  unfolding tx_ids_def by blast+

lemma stages_step: "write_stages st tx table vs t pk derived assigned sealed stored w \<Longrightarrow> counter_step st table (tx_writer tx) w"
  by (auto simp: write_stages_def counter_step_def)

interpretation ids: tx_closed st "\<lambda>tx. store_ok st \<and> store_ids st \<and> tx_ok st tx \<and> tx_ids st tx" for st
proof unfold_locales
  fix tx vs table replace
  assume P: "store_ok st \<and> store_ids st \<and> tx_ok st tx \<and> tx_ids st tx" and vs: "row_wf vs"
  then have ids: "tx_ids st tx" by blast
  show "store_ok st \<and> store_ids st \<and> tx_ok st (fst (tx_write st table vs replace tx)) \<and> tx_ids st (fst (tx_write st table vs replace tx))"
  proof (rule tx_write_cases [of st tx vs table replace])
    fix tx' e
    assume w: "tx_write st table vs replace tx = (tx', Inl e)" "tx_ok st tx'" "tx_view tx' = tx_view tx"
      "counter_step st table (tx_writer tx) (tx_writer tx')"
    show ?thesis using P w(1-3) tx_ids_step [OF ids w(4)] by (simp add: tx_ids_def [of st tx'])
  next
    fix tx' stored t pk derived assigned sealed
    assume w: "tx_write st table vs replace tx = (tx', Inr stored)" "tx_ok st tx'"
      "write_stages st tx table vs t pk derived assigned sealed stored (tx_writer tx')"
      "tx_view tx' = (tx_view tx)(table := (tx_view tx table)(pk \<mapsto> stored))"
    have t: "bt_get (ms_committed st) table = Some t" using w(3) by (simp add: write_stages_def)
    note step = tx_ids_step [OF ids stages_step [OF w(3)]]
    have "covers (counter_of (tx_writer tx') table) v" if "row_id t stored = Some v" for v
      using stored_id [OF _ w(3) _ _ step(2) that] P t by (auto simp: store_ids_def tx_ids_def)
    then have "ids_covered (ms_committed st) (tx_writer tx') (tx_view tx')"
      unfolding w(4) using step(3) P t by (intro ids_covered_upd) auto
    then show ?thesis using P w step by (simp add: tx_ids_def [of st tx'])
  qed (use P vs in auto)
next
  fix tx table pk_values
  assume P: "store_ok st \<and> store_ids st \<and> tx_ok st tx \<and> tx_ids st tx"
  show "store_ok st \<and> store_ids st \<and> tx_ok st (fst (delete_one st table pk_values tx)) \<and> tx_ids st (fst (delete_one st table pk_values tx))"
  proof (rule delete_one_cases [of st tx table pk_values])
    fix tx' t pk
    assume d: "delete_one st table pk_values tx = (tx', Inr (tx_view tx table pk))" "tx_ok st tx'"
      "tx_view tx' = (tx_view tx)(table := (tx_view tx table)(pk := None))" "tx_writer tx' = tx_writer tx"
    have "ids_covered (ms_committed st) (tx_writer tx) ((tx_view tx)(table := (tx_view tx table)(pk := None)))"
      using P by (intro ids_covered_upd) (auto simp: tx_ids_def)
    then show ?thesis using P d by (simp add: tx_ids_def)
  qed (use P in auto)
qed blast

lemma tx_reach_ids: "tx_reach st tx \<Longrightarrow> store_ok st \<Longrightarrow> store_ids st \<Longrightarrow> tx_ok st tx \<and> tx_ids st tx"
proof (induction rule: tx_reach.induct)
  case (row tx vs table replace)
  then show ?case using ids.writes [of st tx vs table replace] by blast
next
  case (del tx table pk_values r)
  then show ?case using ids.tx_delete_kept [of st tx table pk_values r] by blast
qed (simp add: begin_ok begin_ids)

lemma shape_row_id: "table_shape t' = table_shape t \<Longrightarrow> row_id t' = row_id t"
  using shape_schema [of t' t] by (intro ext) (simp add: row_id_def)

lemma commit_ids:
  assumes "store_ids st" "tx_ok st tx" "tx_ids st tx" "published st tx st'"
  shows "store_ids st'"
proof -
  let ?w = "tx_writer tx"
  have rows: "rows_of (ms_committed st') = tx_view tx" and cs: "counter_of (ms_writer st') = counter_of ?w"
    and clean: "high_water_dirty (ms_writer st') = []"
    using assms(4) by (simp_all add: published_def counter_of_def fun_eq_iff)
  have tab: "\<exists>t. bt_get (ms_committed st) table = Some t \<and> tb_schema t' = tb_schema t \<and> row_id t' = row_id t \<and>
      (ts_auto_inc (tb_schema t') \<noteq> None \<longrightarrow> tb_high_water t' = ctr_high_water (counter_of ?w table))" if t': "bt_get (ms_committed st') table = Some t'" for table t'
  proof -
    have "map_option table_shape (bt_get (ms_committed st) table) = Some (table_shape t')"
      using assms(4) t' unfolding published_def by (metis option.simps(9))
    then obtain t where t: "bt_get (ms_committed st) table = Some t" "table_shape t' = table_shape t" by auto
    have mark: "tb_high_water t' = (if table \<in> set (high_water_dirty ?w) then mark_of (counters ?w) table else tb_high_water t)"
      using assms(4) t' t(1) unfolding published_def by simp
    have "mark_of (counters ?w) table = ctr_high_water (counter_of ?w table)"
      by (simp add: mark_of_def counter_of_def counter_new_def split: option.split)
    moreover have "table \<notin> set (high_water_dirty ?w) \<Longrightarrow> ts_auto_inc (tb_schema t) \<noteq> None \<Longrightarrow> tb_high_water t = ctr_high_water (counter_of ?w table)"
      using assms(3) t(1) by (simp add: tx_ids_def marks_ok_def)
    ultimately show ?thesis using t shape_schema [OF t(2)] shape_row_id [OF t(2)] mark by simp
  qed
  have cov: "ids_covered (ms_committed st') (ms_writer st') (tx_view tx)"
    unfolding ids_covered_def
  proof (intro allI impI)
    fix table t' pk row v
    assume a: "bt_get (ms_committed st') table = Some t'" "tx_view tx table pk = Some row" "row_id t' row = Some v"
    then show "covers (counter_of (ms_writer st') table) v"
      using tab [OF a(1)] assms(3) cs unfolding tx_ids_def ids_covered_def by metis
  qed
  moreover have "v \<le> tb_high_water t'"
    if a: "bt_get (ms_committed st') table = Some t'" "row_at t' pk = Some row" "row_id t' row = Some v" for table t' pk row v
  proof -
    have "tx_view tx table pk = Some row" using a rows by (metis option.simps(5) rows_of_def)
    then have "covers (counter_of ?w table) v" using cov a cs unfolding ids_covered_def by metis
    moreover have "ts_auto_inc (tb_schema t') \<noteq> None" using a(3) by (auto simp: row_id_def split: option.splits)
    ultimately show ?thesis using tab [OF a(1)] by (auto simp: covers_def)
  qed
  moreover have "id_schema (tb_schema t')" if "bt_get (ms_committed st') table = Some t'" for table t'
    using tab [OF that] assms(1) by (auto simp: store_ids_def)
  moreover have "marks_ok (ms_committed st') (ms_writer st')"
    using assms(3) tab cs clean unfolding marks_ok_def tx_ids_def by metis
  ultimately show ?thesis by (auto simp: store_ids_def rows)
qed

lemma store_reach_ids: "store_reach st0 st \<Longrightarrow> store_ok st0 \<Longrightarrow> store_ids st0 \<Longrightarrow> store_ids st"
proof (induction rule: store_reach.induct)
  case (commit st tx env)
  have st: "store_ok st" using commit store_reach_ok by blast
  have tx: "tx_ok st tx" "tx_ids st tx" using tx_reach_ids [OF commit(2) st] commit by blast+
  obtain st' where "fst (commit env st tx) = st'" "published st tx st'"
    using commit_ok [OF st tx(1), of env] by auto
  then show ?case using commit_ids [OF _ tx] commit by blast
next
  case (rollback st tx)
  have st: "store_ok st" using rollback store_reach_ok by blast
  have "store_ids st" using rollback by blast
  moreover have "tx_ids st tx" using tx_reach_ids [OF rollback(2) st] calculation by blast
  moreover have "ms_committed (Store.rollback st tx) = ms_committed st" "ms_writer (Store.rollback st tx) = tx_writer tx"
    by (simp_all add: rollback_def)
  ultimately show ?case unfolding store_ids_def tx_ids_def by simp
qed

section \<open>Recovery\<close>

lemma resume_all:
  assumes "distinct (map fst state)"
  shows "counter_of (fold resume_auto state w) table =
      (case map_of state table of
         Some t \<Rightarrow> if ts_auto_inc (tb_schema t) \<noteq> None then resumed (tb_high_water t) else counter_of w table
       | None \<Rightarrow> counter_of w table) \<and> high_water_dirty (fold resume_auto state w) = high_water_dirty w"
  using assms
proof (induction state arbitrary: w)
  case (Cons x state)
  obtain i t where x: "x = (i, t)" by (cases x)
  have "map_of state i = None" using Cons.prems x by (simp add: map_of_eq_None_iff)
  then show ?case
    using Cons.IH [of "resume_auto x w"] Cons.prems x
    by (auto simp: resume_auto_def counter_of_def bt_get_insert split: option.splits)
qed simp

lemma resumed_covers: "v \<noteq> 0 \<Longrightarrow> v \<le> hw \<Longrightarrow> covers (resumed hw) v"
  using sat_add_1_next [of hw] by (auto simp: covers_def resumed_def)

lemma resumed_next: "next_id (resumed hw) \<noteq> 0"
  using sat_add_ge [of hw 1] sat_add_1_next [of hw] by (auto simp: resumed_def)

lemma install_recovered_ids:
  assumes "store_ok rs" "store_ids rs" "high_water_dirty (ms_writer rs) = []"
    and "store_ok st" "store_ids st" "ms_catalog rs = ms_catalog st" "ms_computed rs = ms_computed st" "ms_transforms rs = ms_transforms st"
    and "install_recovered (ms_committed st) resume_at rs = (rs', Inr ())"
  shows "store_ok rs' \<and> store_ids rs' \<and> ms_committed rs' = ms_committed st \<and> next_tx_id (ms_writer rs') = resume_at"
proof -
  let ?state = "ms_committed st"
  let ?w = "(fold resume_auto ?state (ms_writer rs))\<lparr>next_tx_id := resume_at\<rparr>"
  have rs': "rs' = publish_versioned ?w ?state rs"
    using assms(9) by (auto simp: install_recovered_def Let_def split: if_splits)
  have wf: "bt_wf ?state" using assms(4) by (simp add: store_ok_def)
  have f: "ms_committed rs' = ?state" "ms_catalog rs' = ms_catalog st" "ms_transforms rs' = ms_transforms st"
    "ms_computed rs' = ms_computed st" "next_tx_id (ms_writer rs') = resume_at"
    "high_water_dirty (ms_writer rs') = []" "counter_of (ms_writer rs') = counter_of (fold resume_auto ?state (ms_writer rs))"
    using resume_all [OF bt_wf_distinct [OF wf], of "ms_writer rs"] assms(3, 6-8)
    by (simp_all add: rs' publish_versioned_def counter_of_def fun_eq_iff)
  have ctr: "counter_of (ms_writer rs') table = (case bt_get ?state table of
      Some t \<Rightarrow> if ts_auto_inc (tb_schema t) \<noteq> None then resumed (tb_high_water t) else counter_of (ms_writer rs) table
    | None \<Rightarrow> counter_of (ms_writer rs) table)" for table
    using resume_all [OF bt_wf_distinct [OF wf], of "ms_writer rs" table] by (simp add: f bt_get_def)
  have "store_ok rs'"
    by (rule store_ok_published [OF assms(4) wf _ f(1-4)]) (use store_table [OF assms(4)] f(6) in auto)
  moreover have "marks_ok ?state (ms_writer rs')"
  proof -
    have "next_id (counter_of (ms_writer rs) table) \<noteq> 0" for table using assms(2) by (simp add: store_ids_def marks_ok_def)
    then have "next_id (counter_of (ms_writer rs') table) \<noteq> 0" for table
      using resumed_next by (simp add: ctr split: option.split)
    then show ?thesis by (simp add: marks_ok_def ctr) (auto simp: resumed_def)
  qed
  moreover have "ids_covered ?state (ms_writer rs') (rows_of ?state)"
    unfolding ids_covered_def
  proof (intro allI impI)
    fix table t pk row v
    assume a: "bt_get ?state table = Some t" "rows_of ?state table pk = Some row" "row_id t row = Some v"
    have "ts_auto_inc (tb_schema t) \<noteq> None" using a(3) by (auto simp: row_id_def split: option.splits)
    moreover have "row_at t pk = Some row" using a by (simp add: rows_of_def)
    moreover have "v \<noteq> 0" using assms(5) a unfolding store_ids_def ids_covered_def covers_def by blast
    ultimately show "covers (counter_of (ms_writer rs') table) v"
      using assms(5) a resumed_covers by (auto simp: ctr store_ids_def)
  qed
  ultimately show ?thesis using assms(5) f(1, 5) by (simp add: store_ids_def)
qed

section \<open>Properties of auto-increment\<close>

lemma derive_keeps:
  assumes "derive_computed cols vs = Inr vs'" "i \<notin> fst ` set cols"
  shows "vs' ! i = vs ! i"
proof (rule try_fold_invariant [where P = "\<lambda>us. us ! i = vs ! i", OF _ refl assms(1) [unfolded derive_computed_def]])
  show "us' ! i = vs ! i"
    if "x \<in> set cols" "us ! i = vs ! i" "(case x of (ordinal, compute) \<Rightarrow> \<lambda>us. rmap (\<lambda>d. us[ordinal := d]) (compute us)) us = Inr us'"
    for x us us'
  proof -
    have "fst x \<noteq> i" using that(1) assms(2) by blast
    then show ?thesis using that(2, 3) by (auto simp: rmap_eq_Inr_iff split: prod.splits)
  qed
qed

lemma value_eq_u64: "value_eq x (VU64 v) \<Longrightarrow> x = VU64 v"
  by (cases "(x, VU64 v)" rule: value_eq.cases) auto

text \<open>The stored id is the assigned one.\<close>

lemma stored_assigned:
  assumes "store_ok st" "write_stages st tx table vs t pk derived assigned sealed stored w"
    and "ts_primary_key (tb_schema t) = [i]" "assigned ! i = VU64 v"
  shows "stored ! i = VU64 v"
proof -
  note ws = assms(2) [unfolded write_stages_def]
  have "row_ok t pk assigned" using row_ok_checked [OF store_table [OF assms(1)]] ws by blast
  then have same: "sealed ! i = VU64 v" using seal_ok [of st table t assigned pk sealed] ws assms pk_key_columns [of t] by auto
  have "i < length stored" using ws assms(3) by (auto simp: row_ok_def encode_pk_of_row_iff)
  then show ?thesis
    using ws same value_eq_u64 by (auto simp: row_eq_def list_all2_conv_all_nth)
qed

text \<open>
  C12: an assigned id is new.  In any transaction of any reachable store, an insert or upsert that asks for
  an id (zero in the auto-increment column) and succeeds stores the counter's next id; no row the
  transaction sees and no committed row has it, not even one the transaction deleted, and the counter moves
  on by one, as long as the counter has not reached the top of its 64 bits.
\<close>

theorem auto_inc_fresh:
  assumes "store_ok st0" "store_ids st0" "store_reach st0 st" "tx_reach st tx" "row_wf vs"
    and "bt_get (ms_committed st) table = Some t" "ts_auto_inc (tb_schema t) = Some i" "vs ! i = VU64 0"
    and "i \<notin> fst ` set (registered (ms_computed st) table)"
    and "next_id (counter_of (tx_writer tx) table) \<noteq> - 1" "tx_write st table vs replace tx = (tx', Inr stored)"
  shows "stored ! i = VU64 (next_id (counter_of (tx_writer tx) table)) \<and>
    (\<forall>pk row. tx_view tx table pk = Some row \<or> row_at t pk = Some row \<longrightarrow> row ! i \<noteq> stored ! i) \<and>
    next_id (counter_of (tx_writer tx') table) = next_id (counter_of (tx_writer tx) table) + 1"
proof -
  let ?v = "next_id (counter_of (tx_writer tx) table)"
  have st: "store_ok st" "store_ids st" using store_reach_ok store_reach_ids assms(1-3) by blast+
  have tx: "tx_ok st tx" "tx_ids st tx" using tx_reach_ids [OF assms(4) st] by blast+
  obtain t' pk derived assigned sealed where ws: "write_stages st tx table vs t' pk derived assigned sealed stored (tx_writer tx')"
    by (rule tx_write_cases [OF st(1) tx(1) assms(5), of table replace]) (use assms(11) in auto)
  note w = ws [unfolded write_stages_def] and t = assms(6)
  have t': "t' = t" using w t by simp
  have "derived ! i = VU64 0"
    using w derive_keeps [OF _ assms(9), of vs derived] assms(8) by (auto simp: prepare_write_def result_simps)
  moreover have "?v \<noteq> 0" using tx(2) by (simp add: tx_ids_def marks_ok_def)
  ultimately have a: "assigned ! i = VU64 ?v \<and> next_id (counter_of (tx_writer tx') table) = sat_add ?v 1"
    using w assms(7) t' by (auto elim!: assign_cases simp: counter_of_insert)
  have "ts_primary_key (tb_schema t') = [i]" using st(2) t t' assms(7) by (auto simp: store_ids_def id_schema_def)
  then have stored: "stored ! i = VU64 ?v" using stored_assigned [OF st(1) ws] a by blast
  have "row ! i \<noteq> VU64 ?v" if "tx_view tx table pk = Some row \<or> row_at t pk = Some row" for pk row
  proof
    assume "row ! i = VU64 ?v"
    then have "row_id t row = Some ?v" using assms(7) by (simp add: row_id_def)
    then have "covers (counter_of (tx_writer tx) table) ?v"
      using tx(2) t that by (auto simp: tx_ids_def ids_covered_def rows_of_def)
    then show False using assms(10) by (simp add: covers_def)
  qed
  moreover have "sat_add ?v 1 = ?v + 1" by (rule sat_add_1_exact [OF assms(10)])
  ultimately show ?thesis using stored a by simp
qed


lemma league_ids: "store_ids (league action)"
proof -
  have none: "row_at empty_players pk = None" "row_at empty_teams pk = None" for pk
    by (simp_all add: row_at_def empty_players_def empty_teams_def)
  have sch: "tb_schema empty_players = player_schema" "tb_schema empty_teams = team_schema"
    by (simp_all add: empty_players_def empty_teams_def)
  have "rows_of (ms_committed (league action)) table pk = None" for table pk
    by (auto simp: rows_of_def league_def none)
  moreover have "marks_ok (ms_committed (league action)) (ms_writer (league action))"
    by (auto simp: marks_ok_def league_def counter_of_def counter_new_def empty_teams_def empty_players_def team_schema_def
        split: if_splits option.splits)
  moreover have "id_schema player_schema" "id_schema team_schema" by (simp_all add: id_schema_def player_schema_def team_schema_def)
  ultimately show ?thesis
    by (auto simp: store_ids_def ids_covered_def) (auto simp: league_def none sch split: if_splits)
qed

theorem auto_inc_fresh_witness:
  "snd (tx_insert (league Cascade) 2 (player 0 4 71) (league_tx Cascade)) = Inr (player 2 4 71) \<and>
   (\<nexists>pk row. tx_view (league_tx Cascade) 2 pk = Some row \<and> row ! 0 = VU64 2)"
proof -
  let ?w = "tx_write (league Cascade) 2 (player 0 4 71) False (league_tx Cascade)"
  have r: "snd ?w = Inr (player 2 4 71)"
    by (simp add: write_eval league_eval league_tx_eq codec_simps encode_defs writer_new_def contains_pk_def player_pk_def op_row_def)
      (simp add: to_be_bytes_def to_le_bytes_def flip_sign_def sign_bit_def)
  have "row_wf (player 0 4 71)" by (simp add: row_wf_def player_def)
  note fresh = auto_inc_fresh [OF league_ok league_ids store_reach.init league_reach this, of Cascade 2 empty_players 0]
  obtain tx' where w: "?w = (tx', Inr (player 2 4 71))" using r by (metis prod.collapse)
  have "bt_get (ms_committed (league Cascade)) 2 = Some empty_players" "ts_auto_inc (tb_schema empty_players) = Some 0"
    "player 0 4 71 ! 0 = VU64 0" "registered (ms_computed (league Cascade)) 2 = []"
    "next_id (counter_of (tx_writer (league_tx Cascade)) 2) = 2"
    by (simp_all add: league_tx_eq) (simp_all add: league_def empty_players_def player_schema_def player_def registered_def counter_of_def)
  then have "\<forall>pk row. tx_view (league_tx Cascade) 2 pk = Some row \<or> row_at empty_players pk = Some row \<longrightarrow>
      row ! 0 \<noteq> player 2 4 71 ! 0"
    using fresh [OF _ _ _ _ _ w] by auto
  then show ?thesis using r by (auto simp: tx_insert_def player_def)
qed


end
