(* ===== verification/ForeignKeys.thy ===== *)
theory ForeignKeys
  imports AutoInc
begin

text \<open>
  Referential actions of deletes: the worklist of \<open>Tx::delete\<close> always runs empty, and a delete that
  succeeds leaves no visible row that refers to a missing parent.
\<close>

section \<open>References\<close>

definition fk_target :: "ResolvedFk \<Rightarrow> Row \<Rightarrow> RowValue option" where
  "fk_target fk row =
    (case list_get row (fk_child_ordinal fk) of
       None \<Rightarrow> None
     | Some (VOptional x) \<Rightarrow> x
     | Some other \<Rightarrow> Some other)"

definition parent_visible :: "(TableId \<Rightarrow> claims) \<Rightarrow> ResolvedFk \<Rightarrow> RowValue \<Rightarrow> bool" where
  "parent_visible V fk v = (\<exists>pk. encode_pk_values (fk_parent_schema fk) [v] = Inr pk \<and> V (fk_parent fk) pk \<noteq> None)"

text \<open>
  What assembly resolves of a foreign key, and what its actions need: keys without floats, column
  transforms that leave the referencing column alone, and for \<open>SetNull\<close> a referencing column outside
  the primary key and no computed column on either.
\<close>

definition fk_tables :: "MemStore \<Rightarrow> ResolvedFk \<Rightarrow> bool" where
  "fk_tables st fk =
    (\<exists>tc tp. bt_get (ms_committed st) (fk_parent fk) = Some tp \<and> tb_schema tp = fk_parent_schema fk \<and>
       bt_get (ms_committed st) (fk_child fk) = Some tc \<and> tb_schema tc = fk_child_schema fk)"

definition fk_wf :: "MemStore \<Rightarrow> ResolvedFk \<Rightarrow> bool" where
  "fk_wf st fk =
    (fk_tables st fk \<and> (\<exists>p. ts_primary_key (fk_parent_schema fk) = [p] \<and>
       exact_type (cs_ty (ts_columns (fk_parent_schema fk) ! p)) \<and>
       fk_child_ordinal fk < length (ts_columns (fk_child_schema fk)) \<and>
       exact_type (cs_ty (ts_columns (fk_child_schema fk) ! fk_child_ordinal fk)) \<and>
       (\<forall>engine row pk row'. ms_transforms st = Some engine \<longrightarrow> te_on_write engine (fk_child fk) row pk = Inr row' \<longrightarrow>
         length row' = length row \<and> row' ! fk_child_ordinal fk = row ! fk_child_ordinal fk) \<and>
       (fk_on_delete fk = SetNull \<longrightarrow>
         (\<forall>i\<in>insert (fk_child_ordinal fk) (set (ts_primary_key (fk_child_schema fk))).
           i \<notin> fst ` set (registered (ms_computed st) (fk_child fk))) \<and>
         fk_child_ordinal fk \<notin> set (ts_primary_key (fk_child_schema fk)))))"

definition fks_ok :: "MemStore \<Rightarrow> bool" where
  "fks_ok st =
    ((\<forall>table fk. fk \<in> set (registered (ms_fks_out st) table) \<longrightarrow>
       fk_child fk = table \<and> fk \<in> set (registered (ms_fks_in st) (fk_parent fk)) \<and> fk_wf st fk) \<and>
     (\<forall>table fk. fk \<in> set (registered (ms_fks_in st) table) \<longrightarrow>
       fk_parent fk = table \<and> fk \<in> set (registered (ms_fks_out st) (fk_child fk))))"

lemma fk_in_out: "fks_ok st \<Longrightarrow> fk \<in> set (registered (ms_fks_in st) table) \<Longrightarrow>
    fk_parent fk = table \<and> fk \<in> set (registered (ms_fks_out st) (fk_child fk)) \<and> fk_wf st fk"
  unfolding fks_ok_def by blast

lemma fk_out_in: "fks_ok st \<Longrightarrow> fk \<in> set (registered (ms_fks_out st) table) \<Longrightarrow>
    fk_child fk = table \<and> fk \<in> set (registered (ms_fks_in st) (fk_parent fk)) \<and> fk_wf st fk"
  by (simp add: fks_ok_def)

section \<open>Values and keys\<close>

lemma value_eq_sym: "value_eq v w \<longleftrightarrow> value_eq w v"
proof -
  have lists: "list_all2 value_eq xs ys \<longleftrightarrow> list_all2 value_eq ys xs"
    if "\<And>x y. x \<in> set xs \<Longrightarrow> value_eq x y \<longleftrightarrow> value_eq y x" for xs ys
    unfolding list_all2_conv_all_nth using that by (metis nth_mem)
  show ?thesis
  proof (induction v arbitrary: w)
    case (VF32 x)
    then show ?case by (cases "(w, VF32 x)" rule: value_eq.cases) (auto simp: f32_eq_def split: RowValue.splits)
  next
    case (VF64 x)
    then show ?case by (cases "(w, VF64 x)" rule: value_eq.cases) (auto simp: f64_eq_def split: RowValue.splits)
  next
    case (VOptional x)
    then show ?case
      by (cases x; cases "(w, VOptional x)" rule: value_eq.cases) (auto split: RowValue.splits option.splits)
  next
    case (VList xs)
    then show ?case using lists [of xs]
      by (cases "(w, VList xs)" rule: value_eq.cases) (auto split: RowValue.splits option.splits)
  next
    case (VEnum tag xs)
    then show ?case using lists [of xs]
      by (cases "(w, VEnum tag xs)" rule: value_eq.cases) (auto split: RowValue.splits option.splits)
  next
    case (VStruct xs)
    then show ?case using lists [of xs]
      by (cases "(w, VStruct xs)" rule: value_eq.cases) (auto split: RowValue.splits option.splits)
  qed (auto elim!: value_eq.elims(2) split: RowValue.splits option.splits)
qed

lemma value_eq_exact_right: "value_eq v w \<Longrightarrow> matches_type w ty \<Longrightarrow> exact_type ty \<Longrightarrow> v = w"
  using value_eq_sym value_eq_exact by metis

lemma value_eq_refl: "matches_type v ty \<Longrightarrow> exact_type ty \<Longrightarrow> value_eq v v"
  by (simp add: value_eq_exact)

lemma pk_values_iff:
  "encode_pk_values schema vs = Inr pk \<longleftrightarrow>
   list_all2 (\<lambda>i v. i < length (ts_columns schema) \<and> matches_type v (cs_ty (ts_columns schema ! i)) \<and> fits_value v) (ts_primary_key schema) vs \<and>
   pk = concat (map enc_value vs)"
proof -
  have "try_fold (\<lambda>(ordinal, value) w.
      rbind (ok_or e (schema_column schema ordinal)) (\<lambda>column.
        if matches_type value (cs_ty column) then encode value w else Inl e')) (zip ords vs) w = Inr w' \<longleftrightarrow>
    list_all2 (\<lambda>i v. i < length (ts_columns schema) \<and> matches_type v (cs_ty (ts_columns schema ! i)) \<and> fits_value v) ords vs \<and>
    w' = extend_from_slice w (concat (map enc_value vs))" if "length ords = length vs" for ords e e' w w'
    using that
  proof (induction ords vs arbitrary: w rule: list_induct2)
    case (Cons i ords v vs)
    then show ?case by (auto simp: result_simps schema_column_def list_get_def encode_iff split: if_splits)
  qed auto
  then show ?thesis
    by (auto simp: encode_pk_values_def result_simps writer_new_def dest: list_all2_lengthD)
qed

lemma pk_values_row:
  "encode_pk_values schema (map ((!) row) (ts_primary_key schema)) = Inr pk \<Longrightarrow> encode_pk_of_row schema row = Inr pk' \<Longrightarrow> pk = pk'"
  by (simp add: pk_values_iff encode_pk_of_row_iff comp_def)

text \<open>Two keys of one column with the same bytes are the same value.\<close>

lemma pk_value_unique:
  assumes "encode_pk_values schema [v] = Inr pk" "ts_primary_key schema = [p]" "wf_value v"
    and "encode_pk_of_row schema row = Inr pk" "matches_type (row ! p) (cs_ty (ts_columns schema ! p))" "wf_value (row ! p)"
  shows "row ! p = v"
proof -
  have "valid_value (cs_ty (ts_columns schema ! p)) v" "valid_value (cs_ty (ts_columns schema ! p)) (row ! p)"
    "enc_value v @ [] = enc_value (row ! p) @ []"
    using assms by (auto simp: pk_values_iff encode_pk_of_row_iff valid_value_def)
  then show ?thesis using value_codec.enc_prefix_free by blast
qed

section \<open>Rows of a transaction\<close>

text \<open>The state a delete works on: well-formed store and transaction, covered ids, resolved foreign keys.\<close>

definition fk_state :: "MemStore \<Rightarrow> Tx \<Rightarrow> bool" where
  "fk_state st tx = (store_ok st \<and> store_ids st \<and> fks_ok st \<and> tx_ok st tx \<and> tx_ids st tx)"

lemma view_row:
  assumes "store_ok st" "tx_ok st tx" "tx_view tx table pk = Some row"
  obtains t where "bt_get (ms_committed st) table = Some t" "row_ok t pk row" "row_wf row"
proof -
  obtain t where t: "bt_get (ms_committed st) table = Some t"
    using assms(2, 3) by (auto simp: tx_view_def tx_ok_def split: option.splits)
  have "row_ok t pk row \<and> row_wf row"
  proof (cases "bt_get (table_ops tx table) pk")
    case None
    then have "row_at t pk = Some row" using assms(3) by (simp add: tx_view_table [OF assms(2) t] overlay_def)
    then show ?thesis using store_table [OF assms(1) t] by (simp add: table_ok_def table_wf_def table_inv_def)
  next
    case (Some op)
    then have "op_row op = Some row" using assms(3) by (simp add: tx_view_table [OF assms(2) t] overlay_def)
    then show ?thesis using op_at [OF assms(1, 2) t Some] by (auto simp: op_ok_def op_row_def split: PendingOp.splits)
  qed
  then show ?thesis using that t by blast
qed

lemma row_ok_pk_typed:
  assumes "row_ok t pk row" "i \<in> set (ts_primary_key (tb_schema t))"
  shows "i < length row" "matches_type (row ! i) (cs_ty (ts_columns (tb_schema t) ! i))" "wf_value (row ! i)"
  using assms pk_key_columns [of t] by (auto simp: row_ok_def typed_on_def key_value_def)

text \<open>A visible row is found under its own key only.\<close>

lemma view_pk:
  assumes "store_ok st" "tx_ok st tx" "tx_view tx table pk = Some row" "bt_get (ms_committed st) table = Some t"
  shows "encode_pk_of_row (tb_schema t) row = Inr pk"
  using view_row [OF assms(1-3)] assms(4) by (auto simp: row_ok_def)

section \<open>Writes and references\<close>

lemma parent_exists_visible:
  assumes "tx_ok st tx" "parent_exists tx fk v = Inr True"
  shows "parent_visible (tx_view tx) fk v"
proof -
  obtain pk where pk: "encode_pk_values (fk_parent_schema fk) [v] = Inr pk"
    using assms(2) by (auto simp: parent_exists_def result_simps)
  have "tx_view tx (fk_parent fk) pk \<noteq> None"
  proof (cases "bt_get (table_ops tx (fk_parent fk)) pk")
    case None
    then show ?thesis
      using assms(2) pk by (auto simp: parent_exists_def result_simps tx_view_def visible_def state_table_def contains_pk_def row_at_def)
  next
    case (Some op)
    then have "bt_get (tx_tables tx) (fk_parent fk) \<noteq> None" by (auto simp: table_ops_def split: option.splits)
    then obtain t where t: "bt_get (ms_committed st) (fk_parent fk) = Some t" using assms(1) unfolding tx_ok_def by blast
    have "op_row op \<noteq> None"
      using assms(2) pk Some by (auto simp: parent_exists_def op_row_def result_simps split: PendingOp.splits)
    then show ?thesis using Some by (simp add: tx_view_table [OF assms(1) t] overlay_def)
  qed
  then show ?thesis using pk unfolding parent_visible_def by blast
qed

text \<open>The references of a row about to be stored exist.\<close>

lemma constraints_visible:
  assumes "tx_ok st tx" "check_constraints st tx table row = Inr ()" "fk \<in> set (registered (ms_fks_out st) table)"
    and "fk_target fk row = Some v"
  shows "parent_visible (tx_view tx) fk v"
proof -
  let ?require = "\<lambda>target. rbind (parent_exists tx fk target) (\<lambda>ok.
      if ok then Inr () else Inl (Query TXN_FK_VIOLATION ''references'' None))"
  have "(case list_get row (fk_child_ordinal fk) of
      None \<Rightarrow> Inr ()
    | Some (VOptional None) \<Rightarrow> Inr ()
    | Some (VOptional (Some inner)) \<Rightarrow> ?require inner
    | Some other \<Rightarrow> ?require other) = Inr ()"
    using assms(2, 3) unfolding check_constraints_def by (simp add: seq_ok try_each_iff Let_def)
  then have "?require v = Inr ()"
    using assms(4) by (auto simp: fk_target_def split: option.splits RowValue.splits)
  then have "parent_exists tx fk v = Inr True" by (auto simp: rbind_eq_Inr_iff split: if_splits)
  then show ?thesis by (rule parent_exists_visible [OF assms(1)])
qed

lemma seal_fk:
  assumes "fk_wf st fk" "seal st (fk_child fk) row pk = Inr row'"
  shows "length row' = length row \<and> row' ! fk_child_ordinal fk = row ! fk_child_ordinal fk"
  using assms unfolding fk_wf_def fk_tables_def seal_def by (auto split: option.splits if_splits)

lemma stored_target:
  assumes "fk_wf st fk" "write_stages st tx (fk_child fk) vs t pk derived assigned sealed stored w"
  shows "length stored = length assigned \<and> stored ! fk_child_ordinal fk = assigned ! fk_child_ordinal fk"
proof -
  let ?i = "fk_child_ordinal fk"
  note ws = assms(2) [unfolded write_stages_def]
  have sealed: "length sealed = length assigned" "sealed ! ?i = assigned ! ?i"
    using seal_fk [OF assms(1)] ws by blast+
  have t: "tb_schema t = fk_child_schema fk" "?i < length (ts_columns (tb_schema t))"
    "exact_type (cs_ty (ts_columns (tb_schema t) ! ?i))"
    using assms(1) ws unfolding fk_wf_def fk_tables_def by auto
  have a: "?i < length assigned" "matches_type (assigned ! ?i) (cs_ty (ts_columns (tb_schema t) ! ?i))"
    using ws t(2) by (auto simp: check_row_iff list_all2_conv_all_nth)
  show ?thesis
  proof (cases "stored = sealed")
    case False
    then have "length stored = length sealed" "value_eq (stored ! ?i) (sealed ! ?i)"
      using ws a(1) sealed(1) by (auto simp: row_eq_def list_all2_conv_all_nth)
    then show ?thesis using value_eq_exact_right [of "stored ! ?i" "sealed ! ?i"] sealed a t by simp
  qed (use sealed in simp)
qed

section \<open>References under single operations\<close>

text \<open>Every reference of a visible row has its parent, up to the exceptions \<open>Q\<close>.\<close>

definition refs_inv :: "MemStore \<Rightarrow> (TableId \<Rightarrow> claims) \<Rightarrow> (ResolvedFk \<Rightarrow> RowValue \<Rightarrow> bool) \<Rightarrow> bool" where
  "refs_inv st V Q =
    (\<forall>table fk pk row v. fk \<in> set (registered (ms_fks_out st) table) \<longrightarrow> V table pk = Some row \<longrightarrow> fk_target fk row = Some v \<longrightarrow>
      parent_visible V fk v \<or> Q fk v)"

definition refs_ok :: "MemStore \<Rightarrow> (TableId \<Rightarrow> claims) \<Rightarrow> bool" where
  "refs_ok st V = refs_inv st V (\<lambda>_ _. False)"

definition at_key :: "ResolvedFk \<Rightarrow> Row \<Rightarrow> RowValue \<Rightarrow> bool" where
  "at_key fk old v = (\<exists>p. ts_primary_key (fk_parent_schema fk) = [p] \<and> old ! p = v)"

lemma refs_inv_mono: "refs_inv st V Q \<Longrightarrow> (\<And>fk v. Q fk v \<Longrightarrow> Q' fk v) \<Longrightarrow> refs_inv st V Q'"
  unfolding refs_inv_def by blast

lemma refs_inv_put:
  assumes "refs_inv st V Q"
    and "\<And>fk v. fk \<in> set (registered (ms_fks_out st) table) \<Longrightarrow> fk_target fk row = Some v \<Longrightarrow> parent_visible V fk v"
  shows "refs_inv st (V(table := (V table)(pk \<mapsto> row))) Q"
proof -
  let ?V = "V(table := (V table)(pk \<mapsto> row))"
  have mono: "parent_visible V fk v \<Longrightarrow> parent_visible ?V fk v" for fk v by (auto simp: parent_visible_def)
  show ?thesis
    unfolding refs_inv_def
  proof (intro allI impI)
    fix table' fk pk' row' v
    assume fk: "fk \<in> set (registered (ms_fks_out st) table')" and r: "?V table' pk' = Some row'" and v: "fk_target fk row' = Some v"
    show "parent_visible ?V fk v \<or> Q fk v"
    proof (cases "table' = table \<and> pk' = pk")
      case True
      then show ?thesis using assms(2) [of fk v] fk r v mono by auto
    next
      case False
      then have "V table' pk' = Some row'" using r by (auto split: if_splits)
      then show ?thesis using assms(1) fk v mono unfolding refs_inv_def by blast
    qed
  qed
qed

lemma target_wf: "row_wf row \<Longrightarrow> fk_target fk row = Some v \<Longrightarrow> wf_value v"
  by (auto simp: fk_target_def list_get_def row_wf_def list_all_length split: option.splits if_splits RowValue.splits)

lemma refs_inv_take:
  assumes "refs_inv st V Q"
    and "\<And>fk v. parent_visible V fk v \<Longrightarrow> wf_value v \<Longrightarrow> fk_parent fk = table \<Longrightarrow>
      \<exists>table. fk \<in> set (registered (ms_fks_out st) table) \<Longrightarrow> parent_visible (V(table := (V table)(pk := None))) fk v \<or> Q' fk v"
    and "\<And>table pk row. V table pk = Some row \<Longrightarrow> row_wf row"
  shows "refs_inv st (V(table := (V table)(pk := None))) (\<lambda>fk v. Q fk v \<or> Q' fk v)"
proof -
  let ?V = "V(table := (V table)(pk := None))"
  show ?thesis
    unfolding refs_inv_def
  proof (intro allI impI)
    fix table' fk pk' row v
    assume fk: "fk \<in> set (registered (ms_fks_out st) table')" and r: "?V table' pk' = Some row" and v: "fk_target fk row = Some v"
    have old: "V table' pk' = Some row" using r by (auto split: if_splits)
    have wf: "wf_value v" using target_wf [OF assms(3) [OF old] v] .
    show "parent_visible ?V fk v \<or> Q fk v \<or> Q' fk v"
    proof (cases "fk_parent fk = table")
      case True
      then show ?thesis using assms(1) assms(2) [OF _ wf True] fk old v unfolding refs_inv_def by blast
    next
      case False
      then have "parent_visible ?V fk v \<longleftrightarrow> parent_visible V fk v" by (simp add: parent_visible_def)
      then show ?thesis using assms(1) fk old v unfolding refs_inv_def by blast
    qed
  qed
qed

interpretation fks: tx_closed st "fk_state st" for st
proof unfold_locales
  show "fk_state st (fst (tx_write st table vs replace tx))" if "fk_state st tx" "row_wf vs" for tx vs table replace
    using that ids.writes [of st tx vs table replace] by (simp add: fk_state_def)
  show "fk_state st (fst (delete_one st table pk_values tx))" if "fk_state st tx" for tx table pk_values
    using that ids.deletes [of st tx table pk_values] by (simp add: fk_state_def)
qed (simp add: fk_state_def)

lemma refs_write:
  assumes "fk_state st tx" "row_wf vs" "refs_inv st (tx_view tx) Q"
  shows "refs_inv st (tx_view (fst (tx_write st table vs replace tx))) Q"
proof -
  have ok: "store_ok st" "tx_ok st tx" "fks_ok st" using assms(1) by (simp_all add: fk_state_def)
  show ?thesis
  proof (rule tx_write_cases [OF ok(1, 2) assms(2), of table replace])
    fix tx' stored t pk derived assigned sealed
    assume w: "tx_write st table vs replace tx = (tx', Inr stored)"
      "write_stages st tx table vs t pk derived assigned sealed stored (tx_writer tx')"
      "tx_view tx' = (tx_view tx)(table := (tx_view tx table)(pk \<mapsto> stored))" "tx_ok st tx'"
    let ?tx = "tx\<lparr>tx_writer := tx_writer tx'\<rparr>"
    have "parent_visible (tx_view tx) fk v"
      if fk: "fk \<in> set (registered (ms_fks_out st) table)" and v: "fk_target fk stored = Some v" for fk v
    proof -
      have c: "fk_child fk = table" "fk_wf st fk" using fk_out_in [OF ok(3) fk] by blast+
      have "fk_target fk assigned = Some v"
        using stored_target [OF c(2)] w(2) c(1) v by (simp add: fk_target_def list_get_def split: if_splits)
      moreover have "check_constraints st ?tx table assigned = Inr ()" using w(2) by (simp add: write_stages_def)
      moreover have "tx_ok st ?tx" using ok(2) w(4) by (simp add: tx_ok_def)
      ultimately show ?thesis using constraints_visible [of st ?tx table assigned fk v] fk by simp
    qed
    then show ?thesis using refs_inv_put [OF assms(3)] w by simp
  qed (use assms(3) in simp)
qed

lemma delete_view:
  assumes "store_ok st" "tx_ok st tx" "delete_one st table pk_values tx = (tx', Inr old)"
    and "bt_get (ms_committed st) table = Some t" "encode_pk_values (tb_schema t) pk_values = Inr pk"
  shows "old = tx_view tx table pk" "tx_view tx' = (tx_view tx)(table := (tx_view tx table)(pk := None))"
  by (rule delete_one_cases [OF assms(1, 2), of table pk_values]; use assms in simp)+

lemma refs_delete:
  assumes "fk_state st tx" "delete_one st table pk_values tx = (tx', Inr old)" "refs_inv st (tx_view tx) Q"
  shows "refs_inv st (tx_view tx') (\<lambda>fk v. Q fk v \<or> fk_parent fk = table \<and> (\<exists>row. old = Some row \<and> at_key fk row v))"
proof -
  have ok: "store_ok st" "tx_ok st tx" "fks_ok st" using assms(1) by (simp_all add: fk_state_def)
  obtain t pk where t: "bt_get (ms_committed st) table = Some t" "encode_pk_values (tb_schema t) pk_values = Inr pk"
    by (rule delete_one_cases [OF ok(1, 2), of table pk_values]) (use assms(2) in simp_all)
  note dv = delete_view [OF ok(1, 2) assms(2) t]
  let ?V = "(tx_view tx)(table := (tx_view tx table)(pk := None))"
  have "parent_visible ?V fk v \<or> fk_parent fk = table \<and> (\<exists>row. old = Some row \<and> at_key fk row v)"
    if v: "parent_visible (tx_view tx) fk v" "wf_value v" "fk_parent fk = table" and fk: "\<exists>table. fk \<in> set (registered (ms_fks_out st) table)"
    for fk v
  proof -
    obtain ppk where p: "encode_pk_values (fk_parent_schema fk) [v] = Inr ppk" "tx_view tx table ppk \<noteq> None"
      using v by (auto simp: parent_visible_def)
    have w: "fk_wf st fk" using fk fk_out_in [OF ok(3)] by blast
    then obtain q where q: "ts_primary_key (fk_parent_schema fk) = [q]" "tb_schema t = fk_parent_schema fk"
      using t(1) v(3) by (auto simp: fk_wf_def fk_tables_def)
    show ?thesis
    proof (cases "ppk = pk")
      case True
      then obtain row where row: "tx_view tx table pk = Some row" using p(2) by blast
      obtain t' where "bt_get (ms_committed st) table = Some t'" "row_ok t' pk row" using view_row [OF ok(1, 2) row] by blast
      then have r: "row_ok t pk row" using t(1) by simp
      have "row ! q = v"
        using pk_value_unique [OF p(1) q(1) v(2), of row] row_ok_pk_typed [OF r, of q] r q True by (simp add: row_ok_def)
      then show ?thesis using row dv(1) q(1) v(3) by (auto simp: at_key_def)
    next
      case False
      then show ?thesis using p v(3) by (auto simp: parent_visible_def)
    qed
  qed
  moreover have "row_wf row" if "tx_view tx table pk = Some row" for table pk row
    using view_row [OF ok(1, 2) that] by blast
  ultimately show ?thesis unfolding dv(2) by (rule refs_inv_take [OF assms(3)])
qed

section \<open>Referential actions\<close>

text \<open>A row as scans find it, under its key, with the id the counter gave it.\<close>

definition child_row :: "MemStore \<Rightarrow> TableId \<Rightarrow> PkBytes \<Rightarrow> Row \<Rightarrow> bool" where
  "child_row st table pk row =
    (\<exists>t. bt_get (ms_committed st) table = Some t \<and> row_ok t pk row \<and> row_wf row \<and> row_id t row \<noteq> Some 0)"

lemma view_child_row:
  assumes "fk_state st tx" "tx_view tx table pk = Some row"
  shows "child_row st table pk row"
proof -
  obtain t where t: "bt_get (ms_committed st) table = Some t" "row_ok t pk row" "row_wf row"
    using view_row [OF _ _ assms(2)] assms(1) by (auto simp: fk_state_def)
  have "row_id t row \<noteq> Some 0"
    using assms t(1) unfolding fk_state_def tx_ids_def ids_covered_def covers_def by blast
  then show ?thesis using t by (auto simp: child_row_def)
qed

lemma child_row_pk: "child_row st table pk row \<Longrightarrow> child_row st table pk' row \<Longrightarrow> pk = pk'"
  by (auto simp: child_row_def row_ok_def)

lemma derive_length: "derive_computed cols vs = Inr vs' \<Longrightarrow> length vs' = length vs"
  unfolding derive_computed_def
  by (erule try_fold_invariant [where P = "\<lambda>us. length us = length vs", rotated 2]) (auto simp: rmap_eq_Inr_iff)

text \<open>Rewriting a row without its reference keeps its key.\<close>

lemma set_null_stages:
  assumes "fk_state st tx" "fk_wf st fk" "fk_on_delete fk = SetNull" "child_row st (fk_child fk) pk child"
    and "unseal st (fk_child fk) (fk_child_schema fk) child = Inr vals"
    and "write_stages st tx (fk_child fk) (vals[fk_child_ordinal fk := VOptional None]) t pk' derived assigned sealed stored w"
  shows "pk' = pk" "fk_target fk stored = None"
proof -
  let ?o = "fk_child_ordinal fk" and ?vs = "vals[fk_child_ordinal fk := VOptional None]"
  have ok: "store_ok st" "store_ids st" "tx_ids st tx" using assms(1) by (simp_all add: fk_state_def)
  note ws = assms(6) [unfolded write_stages_def]
  have t: "bt_get (ms_committed st) (fk_child fk) = Some t" using ws by blast
  have child: "row_ok t pk child" "row_wf child" "row_id t child \<noteq> Some 0"
    using assms(4) t by (auto simp: child_row_def)
  have sch: "tb_schema t = fk_child_schema fk" and off: "?o \<notin> set (ts_primary_key (tb_schema t))"
    and comp: "\<forall>i\<in>insert ?o (set (ts_primary_key (tb_schema t))). i \<notin> fst ` set (registered (ms_computed st) (fk_child fk))"
    using assms(2, 3) t unfolding fk_wf_def fk_tables_def by auto
  have "derive_computed (registered (ms_computed st) (fk_child fk)) ?vs = Inr derived"
    using ws by (auto simp: prepare_write_def result_simps)
  then have d: "derived ! i = ?vs ! i" if "i \<in> insert ?o (set (ts_primary_key (tb_schema t)))" for i
    using derive_keeps comp that by blast
  have pkc: "derived ! i = child ! i" if "i \<in> set (ts_primary_key (tb_schema t))" for i
  proof -
    have "i \<in> set (key_columns t)" "i \<noteq> ?o" using that off pk_key_columns [of t] by auto
    then show ?thesis using d [of i] unseal_ok [OF ok(1) t child(2) assms(5)] that by auto
  qed
  have n: "next_id (counter_of (tx_writer tx) (fk_child fk)) \<noteq> 0" using ok(3) by (simp add: tx_ids_def marks_ok_def)
  have "assign_auto_inc st (fk_child fk) (tb_schema t) derived (tx_writer tx) = Inr (w, assigned)" using ws by blast
  then have same: "assigned = derived"
  proof (rule assign_cases [OF _ n])
    fix i assume i: "ts_auto_inc (tb_schema t) = Some i" and keep: "derived ! i \<noteq> VU64 0 \<Longrightarrow> assigned = derived"
    have "ts_primary_key (tb_schema t) = [i]" "cs_ty (ts_columns (tb_schema t) ! i) = TU64"
      using ok(2) t i by (auto simp: store_ids_def id_schema_def)
    then have "derived ! i = child ! i" "\<exists>v. child ! i = VU64 v"
      using pkc row_ok_pk_typed(2) [OF child(1), of i] by (auto simp: matches_type_simps)
    then show ?thesis using keep child(3) i by (auto simp: row_id_def)
  qed
  have "map (\<lambda>i. enc_value (derived ! i)) (ts_primary_key (tb_schema t)) = map (\<lambda>i. enc_value (child ! i)) (ts_primary_key (tb_schema t))"
    using pkc by simp
  then have "concat (map (\<lambda>i. enc_value (derived ! i)) (ts_primary_key (tb_schema t))) =
      concat (map (\<lambda>i. enc_value (child ! i)) (ts_primary_key (tb_schema t)))" by (rule arg_cong)
  moreover have "encode_pk_of_row (tb_schema t) child = Inr pk" using child(1) by (simp add: row_ok_def)
  moreover have "encode_pk_of_row (tb_schema t) derived = Inr pk'" using ws same by blast
  ultimately show "pk' = pk" unfolding encode_pk_of_row_iff by simp
  have "?o < length derived" using ws assms(2) sch by (auto simp: check_row_iff fk_wf_def fk_tables_def dest: list_all2_lengthD)
  moreover have "length derived = length vals"
    using derive_length \<open>derive_computed _ ?vs = Inr derived\<close> by fastforce
  ultimately have "derived ! ?o = VOptional None" "?o < length derived" using d [of ?o] by simp_all
  then show "fk_target fk stored = None"
    using stored_target [OF assms(2, 6)] same by (simp add: fk_target_def list_get_def)
qed

text \<open>A queued parent stands for the references to its key.\<close>

definition covered :: "worklist \<Rightarrow> ResolvedFk \<Rightarrow> RowValue \<Rightarrow> bool" where
  "covered work fk v = (\<exists>old. (fk_parent fk, old) \<in> set work \<and> at_key fk old v)"

lemma covered_Nil [simp]: "covered [] = (\<lambda>_ _. False)"
  by (simp add: covered_def fun_eq_iff)

definition visible_rows :: "Tx \<Rightarrow> (TableId \<times> PkBytes) set" where
  "visible_rows tx = {(table, pk). tx_view tx table pk \<noteq> None}"

definition queued_ok :: "MemStore \<Rightarrow> worklist \<Rightarrow> bool" where
  "queued_ok st work = (\<forall>table old. (table, old) \<in> set work \<longrightarrow> (\<exists>pk. child_row st table pk old))"

text \<open>One step of the fan-out: it moves rows from the view to the queue and loses no dangling reference.\<close>

definition fk_step :: "MemStore \<Rightarrow> Tx \<times> worklist \<Rightarrow> Tx \<times> worklist \<Rightarrow> bool" where
  "fk_step st s s' =
    (fk_state st (fst s') \<and> queued_ok st (snd s') \<and> visible_rows (fst s') \<subseteq> visible_rows (fst s) \<and>
     card (visible_rows (fst s')) + length (snd s') \<le> card (visible_rows (fst s)) + length (snd s) \<and>
     (\<forall>R. refs_inv st (tx_view (fst s)) (\<lambda>fk v. covered (snd s) fk v \<or> R fk v) \<longrightarrow>
       refs_inv st (tx_view (fst s')) (\<lambda>fk v. covered (snd s') fk v \<or> R fk v)))"

lemma fk_step_refl: "fk_state st (fst s) \<Longrightarrow> queued_ok st (snd s) \<Longrightarrow> fk_step st s s"
  by (simp add: fk_step_def)

lemma fk_step_trans: "fk_step st s s' \<Longrightarrow> fk_step st s' s'' \<Longrightarrow> fk_step st s s''"
  unfolding fk_step_def by (blast intro: order.trans)

lemma fk_step_state: "fk_step st s s' \<Longrightarrow> fk_state st (fst s') \<and> queued_ok st (snd s')"
  by (simp add: fk_step_def)

lemma visible_finite: "finite (visible_rows tx)"
proof -
  let ?keys = "\<lambda>(table, t). fst ` set (tb_rows t) \<union> fst ` set (table_ops tx table)"
  have "visible_rows tx \<subseteq> (\<Union>e\<in>set (tx_base tx). Pair (fst e) ` ?keys e)"
  proof clarify
    fix table pk assume "(table, pk) \<in> visible_rows tx"
    then obtain t where t: "bt_get (tx_base tx) table = Some t" "visible tx table t pk \<noteq> None"
      by (auto simp: visible_rows_def tx_view_def split: option.splits)
    then have "bt_get (table_ops tx table) pk \<noteq> None \<or> bt_get (tb_rows t) pk \<noteq> None"
      by (auto simp: visible_def row_at_def split: option.splits)
    then have "pk \<in> ?keys (table, t)" by (auto simp: bt_get_None_iff)
    moreover have "(table, t) \<in> set (tx_base tx)" using t(1) by (simp add: bt_get_def map_of_SomeD)
    ultimately show "(table, pk) \<in> (\<Union>e\<in>set (tx_base tx). Pair (fst e) ` ?keys e)" by force
  qed
  then show ?thesis by (rule finite_subset) (auto split: prod.split)
qed

lemma visible_put: "tx_view tx' = (tx_view tx)(table := (tx_view tx table)(pk \<mapsto> row)) \<Longrightarrow>
    tx_view tx table pk \<noteq> None \<Longrightarrow> visible_rows tx' = visible_rows tx"
  by (auto simp: visible_rows_def split: if_splits)

lemma visible_take: "tx_view tx' = (tx_view tx)(table := (tx_view tx table)(pk := None)) \<Longrightarrow>
    visible_rows tx' = visible_rows tx - {(table, pk)}"
  by (auto simp: visible_rows_def split: if_splits)

text \<open>Deleting a referencing row queues it.\<close>

lemma cascade_step:
  assumes "fk_state st tx" "queued_ok st work" "delete_one st table vals tx = (tx', Inr old)"
  shows "fk_step st (tx, work) (tx', case old of None \<Rightarrow> work | Some row \<Rightarrow> (table, row) # work)"
proof -
  let ?work = "case old of None \<Rightarrow> work | Some row \<Rightarrow> (table, row) # work"
  have ok: "store_ok st" "tx_ok st tx" using assms(1) by (simp_all add: fk_state_def)
  obtain t pk where t: "bt_get (ms_committed st) table = Some t" "encode_pk_values (tb_schema t) vals = Inr pk"
    by (rule delete_one_cases [OF ok, of table vals]) (use assms(3) in simp_all)
  note dv = delete_view [OF ok assms(3) t]
  have "fk_state st tx'" using fks.deletes [OF assms(1), of table vals] assms(3) by simp
  moreover have "queued_ok st ?work"
    using assms(2) view_child_row [OF assms(1), of table pk] dv(1)
    by (auto simp: queued_ok_def split: option.splits)
  moreover have "card (visible_rows tx') + length ?work \<le> card (visible_rows tx) + length work"
  proof (cases old)
    case (Some row)
    then have "(table, pk) \<in> visible_rows tx" using dv(1) by (simp add: visible_rows_def)
    then have "Suc (card (visible_rows tx')) = card (visible_rows tx)"
      unfolding visible_take [OF dv(2)] by (rule card_Suc_Diff1 [OF visible_finite])
    then show ?thesis using Some by simp
  qed (use visible_take [OF dv(2)] in \<open>simp add: card_Diff1_le\<close>)
  moreover have "refs_inv st (tx_view tx') (\<lambda>fk v. covered ?work fk v \<or> R fk v)"
    if "refs_inv st (tx_view tx) (\<lambda>fk v. covered work fk v \<or> R fk v)" for R
    by (rule refs_inv_mono [OF refs_delete [OF assms(1, 3) that]]) (auto simp: covered_def split: option.splits)
  ultimately show ?thesis using visible_take [OF dv(2)] by (auto simp: fk_step_def)
qed

text \<open>
  What one action does to the referencing rows: the row it was called for no longer refers to the
  deleted parent, and no other row changes.
\<close>

lemma ref_action_step:
  assumes "fk_state st tx" "queued_ok st work" "fk_wf st fk" "child_row st (fk_child fk) pk child"
    and "fk_on_delete fk = SetNull \<Longrightarrow> (fk_child fk, pk) \<in> visible_rows tx"
    and "ref_action st fk child (tx, work) = (s', Inr ())"
  shows "fk_step st (tx, work) s'"
    and "tx_view (fst s') (fk_child fk) pk' = Some row \<Longrightarrow> fk_target fk row = Some w \<Longrightarrow>
      pk' \<noteq> pk \<and> tx_view tx (fk_child fk) pk' = Some row"
    and "fk_on_delete fk = SetNull \<Longrightarrow> visible_rows (fst s') = visible_rows tx"
proof -
  have ok: "store_ok st" "tx_ok st tx" using assms(1) by (simp_all add: fk_state_def)
  obtain t where t: "bt_get (ms_committed st) (fk_child fk) = Some t" "row_ok t pk child" "row_wf child"
    using assms(4) by (auto simp: child_row_def)
  have sch: "tb_schema t = fk_child_schema fk" using assms(3) t(1) by (auto simp: fk_wf_def fk_tables_def)
  have goal: "fk_step st (tx, work) s' \<and>
      (\<forall>pk' row w. tx_view (fst s') (fk_child fk) pk' = Some row \<longrightarrow> fk_target fk row = Some w \<longrightarrow>
        pk' \<noteq> pk \<and> tx_view tx (fk_child fk) pk' = Some row) \<and>
      (fk_on_delete fk = SetNull \<longrightarrow> visible_rows (fst s') = visible_rows tx)"
  proof (cases "fk_on_delete fk")
    case Restrict
    then show ?thesis using assms(6) by (simp add: ref_action_def)
  next
    case Cascade
    let ?vals = "map ((!) child) (ts_primary_key (fk_child_schema fk))"
    obtain tx' old where d: "delete_one st (fk_child fk) ?vals tx = (tx', Inr old)"
      "s' = (tx', case old of None \<Rightarrow> work | Some row \<Rightarrow> (fk_child fk, row) # work)"
      using assms(6) Cascade by (auto simp: ref_action_def split: prod.splits sum.splits option.splits)
    obtain pk1 where pk1: "encode_pk_values (tb_schema t) ?vals = Inr pk1"
      by (rule delete_one_cases [OF ok, of "fk_child fk" ?vals]) (use d t in simp_all)
    have "pk1 = pk" using pk_values_row [of "tb_schema t" child] pk1 sch t(2) by (simp add: row_ok_def)
    then show ?thesis using cascade_step [OF assms(1, 2) d(1)] d(2) delete_view [OF ok d(1) t(1) pk1] Cascade
      by (auto split: if_splits)
  next
    case SetNull
    then obtain vals where u: "unseal st (fk_child fk) (fk_child_schema fk) child = Inr vals"
      using assms(6) by (auto simp: ref_action_def split: sum.splits)
    let ?vs = "vals[fk_child_ordinal fk := VOptional None]"
    have wf: "row_wf ?vs" using unseal_ok [OF ok(1) t(1, 3) u] by (simp add: row_wf_update)
    show ?thesis
    proof (rule tx_write_cases [OF ok wf, of "fk_child fk" True])
      fix tx' stored t' pk1 derived assigned sealed
      assume w: "tx_write st (fk_child fk) ?vs True tx = (tx', Inr stored)" "tx_ok st tx'"
        "write_stages st tx (fk_child fk) ?vs t' pk1 derived assigned sealed stored (tx_writer tx')"
        "tx_view tx' = (tx_view tx)(fk_child fk := (tx_view tx (fk_child fk))(pk1 \<mapsto> stored))"
      note null = set_null_stages [OF assms(1, 3) SetNull assms(4) u w(3)]
      have s': "s' = (tx', work)" using assms(6) SetNull u w(1) by (simp add: ref_action_def)
      have "fk_state st tx'" using fks.writes [OF assms(1) wf, of "fk_child fk" True] w(1) by simp
      moreover have "refs_inv st (tx_view tx') (\<lambda>fk v. covered work fk v \<or> R fk v)"
        if "refs_inv st (tx_view tx) (\<lambda>fk v. covered work fk v \<or> R fk v)" for R
        using refs_write [OF assms(1) wf that, of "fk_child fk" True] w(1) by simp
      moreover have vis: "visible_rows tx' = visible_rows tx"
        by (rule visible_put [OF w(4)]) (use assms(5) SetNull null(1) in \<open>simp add: visible_rows_def\<close>)
      ultimately have "fk_step st (tx, work) s'" using assms(2) s' by (simp add: fk_step_def)
      then show ?thesis using w(4) null s' vis by (auto split: if_splits)
    qed (use assms(6) SetNull u in \<open>simp add: ref_action_def\<close>)
  qed
  show "fk_step st (tx, work) s'" using goal by blast
  show "tx_view (fst s') (fk_child fk) pk' = Some row \<Longrightarrow> fk_target fk row = Some w \<Longrightarrow>
      pk' \<noteq> pk \<and> tx_view tx (fk_child fk) pk' = Some row" using goal by blast
  show "fk_on_delete fk = SetNull \<Longrightarrow> visible_rows (fst s') = visible_rows tx" using goal by blast
qed

lemma ref_actions_step:
  assumes "fk_state st tx" "queued_ok st work" "fk_wf st fk"
    and "\<And>child. child \<in> set children \<Longrightarrow>
      \<exists>pk. child_row st (fk_child fk) pk child \<and> (fk_on_delete fk = SetNull \<longrightarrow> (fk_child fk, pk) \<in> visible_rows tx)"
    and "run_each (ref_action st fk) children (tx, work) = (s', Inr ())"
  shows "fk_step st (tx, work) s' \<and>
    (\<forall>pk row w. tx_view (fst s') (fk_child fk) pk = Some row \<longrightarrow> fk_target fk row = Some w \<longrightarrow>
      tx_view tx (fk_child fk) pk = Some row \<and> row \<notin> set children)"
  using assms(1, 2, 4, 5)
proof (induction children arbitrary: tx work)
  case Nil
  then show ?case by (auto intro: fk_step_refl)
next
  case (Cons child children)
  obtain pk where pk: "child_row st (fk_child fk) pk child"
    "fk_on_delete fk = SetNull \<Longrightarrow> (fk_child fk, pk) \<in> visible_rows tx"
    using Cons.prems(3) [of child] by auto
  obtain tx1 work1 where a: "ref_action st fk child (tx, work) = ((tx1, work1), Inr ())"
    and rest: "run_each (ref_action st fk) children (tx1, work1) = (s', Inr ())"
    using Cons.prems(4) by (auto split: prod.splits sum.splits)
  note step = ref_action_step [OF Cons.prems(1, 2) assms(3) pk(1) _ a]
  have one: "fk_step st (tx, work) (tx1, work1)" using step(1) pk(2) by blast
  have vis: "visible_rows tx1 = visible_rows tx" if "fk_on_delete fk = SetNull" using step(3) pk(2) that by simp
  have state: "fk_state st tx1" "queued_ok st work1" using fk_step_state [OF one] by simp_all
  have IH: "fk_step st (tx1, work1) s'" "tx_view (fst s') (fk_child fk) pk' = Some row \<Longrightarrow> fk_target fk row = Some w \<Longrightarrow>
      tx_view tx1 (fk_child fk) pk' = Some row \<and> row \<notin> set children" for pk' row w
    using Cons.IH [OF state _ rest] Cons.prems(3) vis by auto
  have "tx_view tx (fk_child fk) pk' = Some row \<and> row \<notin> set (child # children)"
    if r: "tx_view (fst s') (fk_child fk) pk' = Some row" "fk_target fk row = Some w" for pk' row w
  proof -
    have "tx_view tx1 (fk_child fk) pk' = Some row" using IH(2) [OF r] by blast
    then have p: "pk' \<noteq> pk" "tx_view tx (fk_child fk) pk' = Some row" using step(2) pk(2) r(2) by auto
    then have "row \<noteq> child" using view_child_row [OF Cons.prems(1)] child_row_pk pk(1) by blast
    then show ?thesis using p IH(2) [OF r] by simp
  qed
  then show ?case using fk_step_trans [OF one IH(1)] by blast
qed

lemma scan_all_complete:
  assumes "store_ok st" "tx_ok st tx" "scan_all table tx = Inr rows" "tx_view tx table pk = Some row"
  shows "row \<in> set rows"
proof -
  obtain t where t: "bt_get (ms_committed st) table = Some t" using view_row [OF assms(1, 2, 4)] by blast
  then have b: "bt_get (tx_base tx) table = Some t" using assms(2) by (simp add: tx_ok_def)
  have w: "bt_wf (tb_rows t)" "bt_wf (table_ops tx table)"
    using store_table [OF assms(1) t] table_ops_ok [OF assms(2, 1) t]
    by (simp_all add: table_ok_def table_wf_def table_inv_def ops_ok_def)
  have rows: "rows = List.map_filter (\<lambda>(pk, row).
        case bt_get (table_ops tx table) pk of None \<Rightarrow> Some row | Some (Update r) \<Rightarrow> Some r | Some _ \<Rightarrow> None) (tree_scan all_range (tb_rows t)) @
      List.map_filter (\<lambda>(pk, op). case op of Insert row \<Rightarrow> Some row | _ \<Rightarrow> None) (table_ops tx table)"
    using assms(3) b by (simp add: scan_all_def state_table_def)
  have v: "visible tx table t pk = Some row" using assms(4) b by (simp add: tx_view_def)
  show ?thesis
  proof (cases "bt_get (table_ops tx table) pk")
    case None
    then have "(pk, row) \<in> set (tb_rows t)" using v w by (simp add: visible_def row_at_def bt_get_Some_iff)
    then show ?thesis using None unfolding rows by (force simp: List.map_filter_def tree_scan_all)
  next
    case (Some op)
    then have o: "(pk, op) \<in> set (table_ops tx table)" using w by (simp add: bt_get_Some_iff)
    show ?thesis
    proof (cases op)
      case (Insert r)
      then show ?thesis using Some v o unfolding rows by (force simp: visible_def List.map_filter_def)
    next
      case (Update r)
      then have "row_at t pk \<noteq> None" using op_at [OF assms(1, 2) t Some] by (auto simp: op_ok_def)
      then obtain r' where "(pk, r') \<in> set (tb_rows t)" using w by (auto simp: row_at_def bt_get_Some_iff)
      then show ?thesis using Some Update v unfolding rows by (force simp: visible_def List.map_filter_def tree_scan_all)
    next
      case Delete
      then show ?thesis using Some v by (simp add: visible_def)
    qed
  qed
qed

lemma target_matches:
  assumes "fk_target fk row = Some v" "value_eq v v"
  shows "fk_value_matches (list_get row (fk_child_ordinal fk)) v"
proof -
  obtain x where x: "list_get row (fk_child_ordinal fk) = Some x"
    using assms(1) by (cases "list_get row (fk_child_ordinal fk)") (simp_all add: fk_target_def)
  show ?thesis
    using assms x by (cases x; cases "\<exists>y. x = VOptional (Some y)") (auto simp: fk_target_def fk_value_matches_def)
qed

text \<open>After the actions of one foreign key no row refers to the deleted parent through it.\<close>

lemma apply_ref_action_step:
  assumes "fk_state st tx" "queued_ok st work" "fk_wf st fk" "child_row st (fk_parent fk) ppk old"
    and "ts_primary_key (fk_parent_schema fk) = [p]" "apply_ref_action st (old ! p) fk (tx, work) = (s', Inr ())"
  shows "fk_step st (tx, work) s'"
    and "tx_view (fst s') (fk_child fk) pk = Some row \<Longrightarrow> fk_target fk row \<noteq> Some (old ! p)"
proof -
  have ok: "store_ok st" "tx_ok st tx" using assms(1) by (simp_all add: fk_state_def)
  let ?matches = "\<lambda>row. fk_value_matches (list_get row (fk_child_ordinal fk)) (old ! p)"
  obtain rows where rows: "scan_all (fk_child fk) tx = Inr rows"
    "run_each (ref_action st fk) (filter ?matches rows) (tx, work) = (s', Inr ())"
    using assms(6) by (auto simp: apply_ref_action_def split: sum.splits)
  have "\<exists>pk. child_row st (fk_child fk) pk child \<and> (fk_on_delete fk = SetNull \<longrightarrow> (fk_child fk, pk) \<in> visible_rows tx)"
    if c: "child \<in> set (filter ?matches rows)" for child
  proof -
    obtain pk where "tx_view tx (fk_child fk) pk = Some child" using scan_all_wf(1) [OF ok rows(1)] c by auto
    then show ?thesis using view_child_row [OF assms(1)] by (auto simp: visible_rows_def)
  qed
  note step = ref_actions_step [OF assms(1-3) this rows(2)]
  then show "fk_step st (tx, work) s'" by blast
  obtain t where t: "bt_get (ms_committed st) (fk_parent fk) = Some t" "row_ok t ppk old"
    using assms(4) by (auto simp: child_row_def)
  have "tb_schema t = fk_parent_schema fk" "exact_type (cs_ty (ts_columns (fk_parent_schema fk) ! p))"
    using assms(3, 5) t(1) by (auto simp: fk_wf_def fk_tables_def)
  then have self: "value_eq (old ! p) (old ! p)"
    using row_ok_pk_typed(2) [OF t(2), of p] assms(5) value_eq_refl by auto
  show "fk_target fk row \<noteq> Some (old ! p)" if r: "tx_view (fst s') (fk_child fk) pk = Some row"
  proof
    assume v: "fk_target fk row = Some (old ! p)"
    then have "tx_view tx (fk_child fk) pk = Some row" "row \<notin> set (filter ?matches rows)" using step r by blast+
    moreover from this(1) have "row \<in> set rows" by (rule scan_all_complete [OF ok rows(1)])
    moreover have "?matches row"
      using v self by (rule target_matches)
    ultimately show False by simp
  qed
qed

lemma fan_out_step:
  assumes "fk_state st tx" "queued_ok st work" "child_row st parent ppk old"
    and "set fks \<subseteq> set (registered (ms_fks_in st) parent)"
    and "run_each (\<lambda>fk s. case ts_primary_key (fk_parent_schema fk) of
        [pk_ord] \<Rightarrow> apply_ref_action st (old ! pk_ord) fk s | _ \<Rightarrow> (s, Inr ())) fks (tx, work) = (s', Inr ())"
  shows "fk_step st (tx, work) s' \<and>
    (\<forall>R. refs_inv st (tx_view tx) (\<lambda>fk v. covered work fk v \<or> R fk v) \<longrightarrow>
      refs_inv st (tx_view (fst s')) (\<lambda>fk v. covered (snd s') fk v \<or> R fk v \<and> \<not> (fk \<in> set fks \<and> at_key fk old v)))"
  using assms(1, 2, 4, 5)
proof (induction fks arbitrary: tx work)
  case Nil
  then show ?case by (auto intro: fk_step_refl)
next
  case (Cons fk fks)
  have fks: "fks_ok st" using Cons.prems(1) by (simp add: fk_state_def)
  have fk: "fk_parent fk = parent" "fk_wf st fk" using fk_in_out [OF fks, of fk parent] Cons.prems(3) by simp_all
  then obtain p where p: "ts_primary_key (fk_parent_schema fk) = [p]" by (auto simp: fk_wf_def fk_tables_def)
  obtain tx1 work1 where a: "apply_ref_action st (old ! p) fk (tx, work) = ((tx1, work1), Inr ())"
    and rest: "run_each (\<lambda>fk s. case ts_primary_key (fk_parent_schema fk) of
        [pk_ord] \<Rightarrow> apply_ref_action st (old ! pk_ord) fk s | _ \<Rightarrow> (s, Inr ())) fks (tx1, work1) = (s', Inr ())"
    using Cons.prems(4) p by (auto split: prod.splits sum.splits)
  note step = apply_ref_action_step [OF Cons.prems(1, 2) fk(2) assms(3) [folded fk(1)] p a]
  have state: "fk_state st tx1" "queued_ok st work1" using fk_step_state [OF step(1)] by simp_all
  have IH: "fk_step st (tx1, work1) s'" "refs_inv st (tx_view tx1) (\<lambda>fk v. covered work1 fk v \<or> R fk v) \<Longrightarrow>
      refs_inv st (tx_view (fst s')) (\<lambda>fk v. covered (snd s') fk v \<or> R fk v \<and> \<not> (fk \<in> set fks \<and> at_key fk old v))" for R
    using Cons.IH [OF state _ rest] Cons.prems(3) by auto
  have "refs_inv st (tx_view (fst s')) (\<lambda>fk' v. covered (snd s') fk' v \<or> R fk' v \<and> \<not> (fk' \<in> set (fk # fks) \<and> at_key fk' old v))"
    if R: "refs_inv st (tx_view tx) (\<lambda>fk v. covered work fk v \<or> R fk v)" for R
  proof -
    have "refs_inv st (tx_view tx1) (\<lambda>fk v. covered work1 fk v \<or> R fk v)" using step(1) R by (simp add: fk_step_def)
    moreover have "fk_target fk row \<noteq> Some v"
      if "fk \<in> set (registered (ms_fks_out st) table)" "tx_view tx1 table pk = Some row" "at_key fk old v" for table pk row v
      using that step(2) [of pk row] fk_out_in [OF fks that(1)] p by (auto simp: at_key_def)
    ultimately have "refs_inv st (tx_view tx1) (\<lambda>fk' v. covered work1 fk' v \<or> R fk' v \<and> \<not> (fk' = fk \<and> at_key fk' old v))"
      unfolding refs_inv_def by blast
    then show ?thesis by (rule refs_inv_mono [OF IH(2)]) auto
  qed
  then show ?case using fk_step_trans [OF step(1) IH(1)] by blast
qed

section \<open>The delete loop\<close>

text \<open>
  Every turn of the loop takes one row off the queue, and every row it queues leaves the view: visible
  rows and queued rows together decrease.
\<close>

lemma delete_loop_total:
  assumes "fk_state st tx" "queued_ok st work"
  shows "\<exists>tx' r. delete_loop st work tx = Some (tx', r) \<and>
    (r = Inr () \<longrightarrow> refs_inv st (tx_view tx) (covered work) \<longrightarrow> refs_ok st (tx_view tx'))"
  using assms
proof (induction "card (visible_rows tx) + length work" arbitrary: tx work rule: less_induct)
  case less
  show ?case
  proof (cases work)
    case Nil
    then show ?thesis by (simp add: delete_loop.simps refs_ok_def)
  next
    case (Cons w rest)
    obtain parent old where w: "w = (parent, old)" by (cases w)
    obtain tx1 work1 r where f: "fan_out st parent old (tx, rest) = ((tx1, work1), r)" by (metis prod.collapse)
    obtain ppk where ppk: "child_row st parent ppk old" using less.prems(2) Cons w by (auto simp: queued_ok_def)
    have q: "queued_ok st rest" using less.prems(2) Cons by (simp add: queued_ok_def)
    show ?thesis
    proof (cases r)
      case (Inl e)
      then show ?thesis using Cons w f by (simp add: delete_loop.simps)
    next
      case (Inr u)
      then have "r = Inr ()" by simp
      note step = fan_out_step [OF less.prems(1) q ppk order.refl f [unfolded fan_out_def this]]
      have "card (visible_rows tx1) + length work1 < card (visible_rows tx) + length work"
        using step Cons by (simp add: fk_step_def)
      moreover have "fk_state st tx1" "queued_ok st work1" using step fk_step_state by fastforce+
      ultimately obtain tx' r' where d: "delete_loop st work1 tx1 = Some (tx', r')"
        "r' = Inr () \<Longrightarrow> refs_inv st (tx_view tx1) (covered work1) \<Longrightarrow> refs_ok st (tx_view tx')"
        using less.hyps [of tx1 work1] by blast
      have "refs_inv st (tx_view tx1) (covered work1)" if "refs_inv st (tx_view tx) (covered work)"
      proof -
        let ?here = "\<lambda>fk v. fk_parent fk = parent \<and> at_key fk old v"
        have "refs_inv st (tx_view tx) (\<lambda>fk v. covered rest fk v \<or> ?here fk v)"
          by (rule refs_inv_mono [OF that]) (auto simp: covered_def Cons w)
        then have "refs_inv st (tx_view tx1) (\<lambda>fk v. covered work1 fk v \<or> ?here fk v \<and>
            \<not> (fk \<in> set (registered (ms_fks_in st) parent) \<and> at_key fk old v))"
          using conjunct2 [OF step, rule_format, of ?here] by simp
        moreover have "fks_ok st" using less.prems(1) by (simp add: fk_state_def)
        ultimately show ?thesis unfolding refs_inv_def using fk_out_in [of st] by blast
      qed
      then show ?thesis using d Cons w f Inr by (auto simp: delete_loop.simps)
    qed
  qed
qed

lemma tx_delete_total:
  assumes "fk_state st tx"
  shows "\<exists>tx' r. tx_delete st table pk_values tx = Some (tx', r) \<and>
    (\<forall>b. r = Inr b \<longrightarrow> refs_ok st (tx_view tx) \<longrightarrow> refs_ok st (tx_view tx'))"
proof -
  have ok: "store_ok st" "tx_ok st tx" using assms by (simp_all add: fk_state_def)
  obtain tx1 d where d: "delete_one st table pk_values tx = (tx1, d)" by (cases "delete_one st table pk_values tx")
  show ?thesis
  proof (cases d)
    case (Inl e)
    then show ?thesis using d by (simp add: tx_delete_def)
  next
    case (Inr old)
    note one = d [unfolded Inr]
    note step = cascade_step [OF assms _ one, of "[]"]
    have inv: "refs_inv st (tx_view tx1) (covered (case old of None \<Rightarrow> [] | Some row \<Rightarrow> [(table, row)]))"
      if "refs_ok st (tx_view tx)"
      by (rule refs_inv_mono [OF refs_delete [OF assms one that [unfolded refs_ok_def]]])
        (auto simp: covered_def split: option.splits)
    show ?thesis
    proof (cases old)
      case None
      then show ?thesis using d Inr inv by (simp add: tx_delete_def refs_ok_def)
    next
      case (Some row)
      have "fk_state st tx1" "queued_ok st [(table, row)]"
        using step Some fk_step_state by (fastforce simp: queued_ok_def)+
      then obtain tx' r where "delete_loop st [(table, row)] tx1 = Some (tx', r)"
        "r = Inr () \<Longrightarrow> refs_inv st (tx_view tx1) (covered [(table, row)]) \<Longrightarrow> refs_ok st (tx_view tx')"
        using delete_loop_total by blast
      then show ?thesis using d Inr Some inv by (auto simp: tx_delete_def rmap_eq_Inr_iff)
    qed
  qed
qed

section \<open>References over the life of a store\<close>

lemma fks_ok_config:
  assumes "fks_ok st" "same_config st st'"
    and "\<And>table. map_option table_shape (bt_get (ms_committed st') table) = map_option table_shape (bt_get (ms_committed st) table)"
  shows "fks_ok st'"
proof -
  have tab: "\<exists>t'. bt_get (ms_committed st') table = Some t' \<and> tb_schema t' = tb_schema t"
    if t: "bt_get (ms_committed st) table = Some t" for table t
  proof -
    obtain t' where "bt_get (ms_committed st') table = Some t'" "table_shape t' = table_shape t"
      using assms(3) [of table] t by (cases "bt_get (ms_committed st') table") auto
    then show ?thesis using shape_schema [of t' t] by blast
  qed
  have same: "ms_fks_out st' = ms_fks_out st" "ms_fks_in st' = ms_fks_in st" "ms_transforms st' = ms_transforms st"
    "ms_computed st' = ms_computed st"
    using assms(2) by (simp_all add: same_config_def)
  have "fk_wf st' fk" if wf: "fk_wf st fk" for fk
  proof -
    obtain tc tp where w: "bt_get (ms_committed st) (fk_parent fk) = Some tp" "tb_schema tp = fk_parent_schema fk"
      "bt_get (ms_committed st) (fk_child fk) = Some tc" "tb_schema tc = fk_child_schema fk"
      using wf unfolding fk_wf_def fk_tables_def by blast
    then have "fk_tables st' fk" using tab [OF w(1)] tab [OF w(3)] unfolding fk_tables_def by auto
    then show ?thesis using wf unfolding fk_wf_def same by simp
  qed
  then show ?thesis using assms(1) unfolding fks_ok_def same by blast
qed

lemma store_reach_fks: "store_reach st0 st \<Longrightarrow> store_ok st0 \<Longrightarrow> fks_ok st0 \<Longrightarrow> fks_ok st"
proof (induction rule: store_reach.induct)
  case (commit st tx env)
  have st: "store_ok st" using commit store_reach_ok by blast
  obtain st' where "fst (commit env st tx) = st'" "published st tx st'"
    using commit_ok [OF st tx_reach_ok [OF commit(2) st], of env] by auto
  then show ?case using fks_ok_config [of st st'] commit by (simp add: published_def)
next
  case (rollback st tx)
  then show ?case using fks_ok_config [of st "Store.rollback st tx"] by (simp add: same_config_def rollback_def)
qed

text \<open>Transactions whose deletes all returned, and the stores they reach.\<close>

inductive tx_clean :: "MemStore \<Rightarrow> Tx \<Rightarrow> bool" for st where
  start: "tx_clean st (begin_tx st)"
| row: "tx_clean st tx \<Longrightarrow> row_wf vs \<Longrightarrow> tx_clean st (fst (tx_write st table vs replace tx))"
| del: "tx_clean st tx \<Longrightarrow> tx_delete st table pk_values tx = Some (tx', Inr b) \<Longrightarrow> tx_clean st tx'"

inductive clean_reach :: "MemStore \<Rightarrow> MemStore \<Rightarrow> bool" for st0 where
  init: "clean_reach st0 st0"
| commit: "clean_reach st0 st \<Longrightarrow> tx_clean st tx \<Longrightarrow> clean_reach st0 (fst (commit env st tx))"
| rollback: "clean_reach st0 st \<Longrightarrow> tx_reach st tx \<Longrightarrow> clean_reach st0 (rollback st tx)"

lemma tx_clean_reach: "tx_clean st tx \<Longrightarrow> tx_reach st tx"
proof (induction rule: tx_clean.induct)
  case (del tx table pk_values tx' b)
  then show ?case using tx_reach.del [of st tx table pk_values "(tx', Inr b)"] by simp
qed (blast intro: tx_reach.intros)+

lemma clean_store_reach: "clean_reach st0 st \<Longrightarrow> store_reach st0 st"
  by (induction rule: clean_reach.induct) (blast intro: store_reach.intros tx_clean_reach)+

lemma reach_fk_state:
  assumes "store_ok st0" "store_ids st0" "fks_ok st0" "store_reach st0 st" "tx_reach st tx"
  shows "fk_state st tx"
proof -
  have st: "store_ok st" "store_ids st" "fks_ok st"
    using assms store_reach_ok store_reach_ids store_reach_fks by blast+
  then show ?thesis using tx_reach_ids [OF assms(5)] by (simp add: fk_state_def)
qed

lemma tx_clean_refs:
  assumes "tx_clean st tx" "store_ok st" "store_ids st" "fks_ok st" "refs_ok st (rows_of (ms_committed st))"
  shows "refs_ok st (tx_view tx)"
proof -
  have state: "fk_state st tx" if "tx_clean st tx" for tx
    using reach_fk_state [OF assms(2-4) store_reach.init tx_clean_reach [OF that]] .
  show ?thesis
    using assms(1)
  proof (induction rule: tx_clean.induct)
    case start
    then show ?case using assms(5) by (simp add: begin_view)
  next
    case (row tx vs table replace)
    then show ?case using refs_write [OF state] unfolding refs_ok_def by blast
  next
    case (del tx table pk_values tx' b)
    then show ?case using tx_delete_total [OF state [OF del(1)], of table pk_values] by auto
  qed
qed

section \<open>Properties of referential actions\<close>

text \<open>
  C15: deletes return.  In any transaction of any store reached from a well-formed one, the worklist of
  \<open>delete\<close> runs empty or stops at an error, whatever cycles the foreign keys and the rows form.
\<close>

theorem delete_terminates:
  assumes "store_ok st0" "store_ids st0" "fks_ok st0" "store_reach st0 st" "tx_reach st tx"
  shows "\<exists>tx' r. tx_delete st table pk_values tx = Some (tx', r)"
  using tx_delete_total [OF reach_fk_state [OF assms], of table pk_values] by blast



lemma league_fks: "fks_ok (league action)" if "action \<noteq> SetNull"
  using that
  by (auto simp: fks_ok_def fk_wf_def fk_tables_def league_def registered_def player_team_def empty_teams_def empty_players_def team_schema_def
      player_schema_def split: if_splits)

lemma league_refs: "refs_ok (league action) (rows_of (ms_committed (league action)))"
  by (auto simp: refs_ok_def refs_inv_def league_def registered_def rows_of_def row_at_def empty_teams_def empty_players_def
      split: if_splits)

theorem delete_terminates_witness:
  "\<exists>tx' r. tx_delete (league Cascade) 1 [VU8 4] (league_tx Cascade) = Some (tx', r)"
  by (rule delete_terminates [OF league_ok league_ids league_fks store_reach.init league_reach]) simp

lemma league_clean: "tx_clean (league action) (league_tx action)"
proof -
  have "row_wf [VU8 4]" "row_wf (player 0 4 70)" by (simp_all add: row_wf_def player_def)
  then show ?thesis
    unfolding league_tx_def Let_def tx_insert_def by (intro tx_clean.row tx_clean.start)
qed

lemma league_row: "tx_view (league_tx action) 2 (player_pk 1) = Some (player 1 4 70)"
  by (simp add: tx_view_def visible_def table_ops_def league_tx_eq league_def)


text \<open>The parent's delete is buffered before the referencing rows are looked at.\<close>

lemma league_restricted:
  "\<exists>tx'. tx_delete (league Restrict) 1 [VU8 4] (league_tx Restrict) =
      Some (tx', Inl (Query TXN_FK_VIOLATION ''delete restricted'' None)) \<and>
    tx_reach (league Restrict) tx' \<and> tx_view tx' 1 [4] = None \<and> tx_view tx' 2 (player_pk 1) = Some (player 1 4 70)"
proof -
  let ?tx = "(league_tx Restrict)\<lparr>tx_tables := [(1, []), (2, [(player_pk 1, Insert (player 1 4 70))])]\<rparr>"
  have d: "delete_one (league Restrict) 1 [VU8 4] (league_tx Restrict) = (?tx, Inr (Some [VU8 4]))"
    by (simp add: delete_one_def write_eval league_eval league_tx_eq codec_simps encode_defs writer_new_def)
  have "scan_all 2 ?tx = Inr [player 1 4 70]"
    by (simp add: scan_all_def state_table_def table_ops_def league_tx_eq league_def empty_players_def List.map_filter_def)
  then have f: "fan_out (league Restrict) 1 [VU8 4] (?tx, []) =
      ((?tx, []), Inl (Query TXN_FK_VIOLATION ''delete restricted'' None))"
    by (simp add: fan_out_def registered_def league_eval apply_ref_action_def ref_action_def fk_value_matches_def list_get_def)
  have "tx_delete (league Restrict) 1 [VU8 4] (league_tx Restrict) =
      Some (?tx, Inl (Query TXN_FK_VIOLATION ''delete restricted'' None))"
    by (simp add: tx_delete_def d delete_loop.simps f)
  moreover from tx_reach.del [OF league_reach this] have "tx_reach (league Restrict) ?tx" by simp
  moreover have "tx_view ?tx 1 [4] = None" "tx_view ?tx 2 (player_pk 1) = Some (player 1 4 70)"
    by (simp_all add: tx_view_def visible_def table_ops_def league_tx_eq league_def empty_teams_def row_at_def)
  ultimately show ?thesis by blast
qed

text \<open>
  C36: a restricted delete is not undone.  On a league where a player's team may not be deleted, deleting
  it returns the foreign-key error and yet leaves the team deleted in the transaction: a caller that goes on
  and commits publishes a player without a team.
\<close>

theorem restricted_delete_orphans:
  "\<exists>tx' st' diff. tx_delete (league Restrict) 1 [VU8 4] (league_tx Restrict) =
      Some (tx', Inl (Query TXN_FK_VIOLATION ''delete restricted'' None)) \<and>
    commit quiet (league Restrict) tx' = (st', Inr diff) \<and> rows_of (ms_committed st') 1 [4] = None \<and>
    refs_ok (league Restrict) (rows_of (ms_committed (league Restrict))) \<and> \<not> refs_ok st' (rows_of (ms_committed st'))"
proof -
  obtain tx' where d: "tx_delete (league Restrict) 1 [VU8 4] (league_tx Restrict) =
      Some (tx', Inl (Query TXN_FK_VIOLATION ''delete restricted'' None))" "tx_reach (league Restrict) tx'"
    "tx_view tx' 1 [4] = None" "tx_view tx' 2 (player_pk 1) = Some (player 1 4 70)"
    using league_restricted by blast
  obtain st' where c: "commit quiet (league Restrict) tx' = (st', Inr (commit_diff (league Restrict) tx'))"
    "published (league Restrict) tx' st'"
    using commit_ok [OF league_ok tx_reach_ok [OF d(2) league_ok], of quiet] by (auto simp: quiet_def)
  have "rows_of (ms_committed st') = tx_view tx'" "ms_fks_out st' = [(2, [player_team Restrict])]"
    using c(2) by (simp_all add: published_def same_config_def league_def)
  moreover have "fk_target (player_team Restrict) (player 1 4 70) = Some (VU8 4)"
    by (simp add: fk_target_def player_team_def player_def list_get_def)
  moreover have "\<not> parent_visible (tx_view tx') (player_team Restrict) (VU8 4)"
    using d(3) by (simp add: parent_visible_def player_team_def pk_values_iff team_schema_def codec_simps)
  ultimately have "\<not> refs_ok st' (rows_of (ms_committed st'))"
    using d(4) unfolding refs_ok_def refs_inv_def by (auto simp: registered_def intro!: exI [of _ 2] exI [of _ "player_pk 1"])
  then show ?thesis using d c league_refs by (auto simp: published_def)
qed

end
