(* ===== verification/Replicas.thy ===== *)
theory Replicas
  imports ForeignKeys
begin

text \<open>
  Replicas: a store that applies the records of a primary's commits, in order, holds the same tables.
  The per-table steps are those of \<open>CommitLog\<close> replay in \<open>apply_replica_record\<close>; the argument is the one
  of a commit, over the same locale.
\<close>

section \<open>One table\<close>

lemma apply_deletes:
  assumes "table_wf t" "distinct pks"
  shows "\<exists>t'. try_fold apply_delete pks (t, del) = Inr (t', del @ List.map_filter (\<lambda>pk. map_option (Pair pk) (row_at t pk)) pks) \<and>
    merged t ((row_at t) |` (- set pks)) ((row_at t) |` (- set pks)) 0 t'"
  using assms
proof (induction pks arbitrary: t del)
  case Nil
  then show ?case by (simp add: merged_def table_wf_def List.map_filter_def)
next
  case (Cons pk pks)
  let ?del = "del @ (case row_at t pk of None \<Rightarrow> [] | Some old \<Rightarrow> [(pk, old)])"
  obtain t1 where t1: "apply_delete pk (t, del) = Inr (t1, ?del)"
    "merged t ((row_at t)(pk := None)) ((row_at t)(pk := None)) 0 t1"
    using apply_delete_ok [OF Cons.prems(1)] by blast
  have rows: "row_at t1 = (row_at t)(pk := None)" using t1(2) by (simp add: merged_def)
  then have same: "List.map_filter (\<lambda>pk. map_option (Pair pk) (row_at t1 pk)) pks = List.map_filter (\<lambda>pk. map_option (Pair pk) (row_at t pk)) pks"
    using Cons.prems(2) by (auto simp: List.map_filter_def intro!: map_cong filter_cong)
  have view: "(row_at t1) |` (- set pks) = (row_at t) |` (- set (pk # pks))"
    using rows by (auto simp: restrict_map_def)
  obtain t' where t': "try_fold apply_delete pks (t1, ?del) =
      Inr (t', ?del @ List.map_filter (\<lambda>pk. map_option (Pair pk) (row_at t1 pk)) pks)"
    "merged t1 ((row_at t1) |` (- set pks)) ((row_at t1) |` (- set pks)) 0 t'"
    using Cons.IH [OF merged_wf [OF t1(2)], of ?del] Cons.prems(2) by auto
  have "merged t ((row_at t) |` (- set (pk # pks))) ((row_at t) |` (- set (pk # pks))) 0 t'"
    using merged_trans [OF t1(2) t'(2)] unfolding view by simp
  then show ?case using t1(1) t'(1) unfolding same
    by (intro exI [of _ t']) (auto simp: List.map_filter_simps split: option.split)
qed

lemma apply_inserts:
  assumes "table_wf t" "distinct (map fst pairs)" "\<And>pk row. (pk, row) \<in> set pairs \<Longrightarrow> row_ok t pk row \<and> row_at t pk = None"
    and "\<And>columns. columns \<in> set (map ux_columns (tb_unique t)) \<Longrightarrow> inj_claims columns (row_at t ++ map_of pairs)"
  shows "\<exists>t'. try_fold (apply_insert (tb_schema t)) (map snd pairs) t = Inr t' \<and>
    merged t (row_at t ++ map_of pairs) (row_at t ++ map_of pairs) (length pairs) t'"
  using assms
proof (induction pairs arbitrary: t)
  case Nil
  then show ?case by (simp add: merged_def table_wf_def)
next
  case (Cons x pairs)
  obtain pk row where x: "x = (pk, row)" by (cases x)
  have fresh: "pk \<notin> fst ` set pairs" using Cons.prems(2) x by simp
  then have "map_of pairs pk = None" by (simp add: map_of_eq_None_iff)
  then have step: "row_at t ++ map_of (x # pairs) = (row_at t)(pk \<mapsto> row) ++ map_of pairs"
    by (auto simp: x map_add_def fun_eq_iff split: option.split)
  have "unclaimed columns (row_at t) pk row" if "columns \<in> set (map ux_columns (tb_unique t))" for columns
  proof -
    have "(row_at t ++ map_of (x # pairs)) pk = Some row" by (simp add: x)
    then have "unclaimed columns (row_at t ++ map_of (x # pairs)) pk row"
      by (rule Cons.prems(4) [OF that, unfolded inj_claims_def, rule_format])
    moreover have "(row_at t ++ map_of (x # pairs)) pk' = Some row'" if r: "row_at t pk' = Some row'" for pk' row'
    proof -
      have "map_of (x # pairs) pk' = None"
        using Cons.prems(3) [OF map_of_SomeD] r by (cases "map_of (x # pairs) pk'") auto
      then show ?thesis using r by (simp add: map_add_def)
    qed
    ultimately show ?thesis unfolding unclaimed_def by blast
  qed
  then obtain t1 where t1: "apply_insert (tb_schema t) row t = Inr t1"
    "merged t ((row_at t)(pk \<mapsto> row)) ((row_at t)(pk \<mapsto> row)) 1 t1"
    using apply_insert_ok [OF Cons.prems(1), of pk row] Cons.prems(3) x by auto
  have sh: "table_shape t1 = table_shape t" "row_at t1 = (row_at t)(pk \<mapsto> row)" using t1(2) by (simp_all add: merged_def)
  have "row_ok t1 pk' row' \<and> row_at t1 pk' = None" if "(pk', row') \<in> set pairs" for pk' row'
    using Cons.prems(3) [of pk' row'] that sh row_ok_shape [OF sh(1)] fresh by force
  moreover have "inj_claims columns (row_at t1 ++ map_of pairs)" if "columns \<in> set (map ux_columns (tb_unique t1))" for columns
  proof -
    have "map ux_columns (tb_unique t1) = map ux_columns (tb_unique t)" using sh(1) by (simp add: table_shape_def)
    then show ?thesis using Cons.prems(4) [of columns] that unfolding step sh(2) by metis
  qed
  ultimately obtain t' where "try_fold (apply_insert (tb_schema t1)) (map snd pairs) t1 = Inr t'"
    "merged t1 (row_at t1 ++ map_of pairs) (row_at t1 ++ map_of pairs) (length pairs) t'"
    using Cons.IH [OF merged_wf [OF t1(2)]] Cons.prems(2) by auto
  moreover have "tb_schema t1 = tb_schema t" using sh(1) by (simp add: table_shape_def)
  ultimately show ?case using t1 merged_trans [OF t1(2)] unfolding step sh(2)
    by (intro exI [of _ t']) (auto simp: x)
qed

lemma merged_more: "merged t U C m t' \<Longrightarrow> m \<le> n \<Longrightarrow> merged t U C n t'"
  by (auto simp: merged_def)

definition upserts :: "(PkBytes \<times> PendingOp) list \<Rightarrow> (PkBytes \<times> Row) list" where
  "upserts ops = List.map_filter (\<lambda>(pk, op). map_option (Pair pk) (op_row op)) ops"

lemma upserts_simps [simp]:
  "upserts [] = []" "upserts ((pk, op) # ops) = (case op_row op of None \<Rightarrow> upserts ops | Some row \<Rightarrow> (pk, row) # upserts ops)"
  by (simp_all add: upserts_def List.map_filter_simps split: option.split)

lemma upserts_rows: "map snd (upserts ops) = ops_inserts ops"
  by (induction ops) (auto simp: ops_inserts_def List.map_filter_simps split: option.split)

lemma upserts_mem: "(pk, row) \<in> set (upserts ops) \<longleftrightarrow> (\<exists>op. (pk, op) \<in> set ops \<and> op_row op = Some row)"
  by (induction ops) (auto split: option.splits)

lemma upserts_distinct: "distinct (map fst ops) \<Longrightarrow> distinct (map fst (upserts ops))"
proof (induction ops)
  case (Cons x ops)
  obtain pk op where x: "x = (pk, op)" by (cases x)
  have "pk \<notin> fst ` set (upserts ops)" using Cons.prems x by (force simp: upserts_mem)
  then show ?case using Cons by (simp add: x split: option.split)
qed simp

lemma upserts_length: "length (upserts ops) \<le> length ops"
  by (induction ops) (auto split: option.split)

lemma upserts_get: "distinct (map fst ops) \<Longrightarrow> map_of (upserts ops) pk = (case map_of ops pk of None \<Rightarrow> None | Some op \<Rightarrow> op_row op)"
proof (induction ops)
  case (Cons x ops)
  obtain pk1 op where x: "x = (pk1, op)" by (cases x)
  have "map_of ops pk1 = None" using Cons.prems x by (simp add: map_of_eq_None_iff)
  then show ?case using Cons by (auto simp: x split: option.split)
qed simp

lemma deletes_keys:
  "map fst (ops_deletes C ops) = filter (\<lambda>pk. C pk \<noteq> None) (map fst ops)"
  "List.map_filter (\<lambda>pk. map_option (Pair pk) (C pk)) (map fst (ops_deletes C ops)) = ops_deletes C ops"
  by (induction ops) (auto simp: ops_deletes_def List.map_filter_simps split: option.split)

text \<open>The rows and keys of a diff, applied key by key, give the same table as the merge of the operations.\<close>

lemma apply_changes:
  assumes "table_wf t" "ops_ok t ops"
  shows "\<exists>t1 t'. try_fold apply_delete (map fst (ops_deletes (row_at t) ops)) (t, []) = Inr (t1, ops_deletes (row_at t) ops) \<and>
    try_fold (apply_insert (tb_schema t)) (ops_inserts ops) t1 = Inr t' \<and> merged_table t ops t'"
proof -
  let ?pks = "map fst (ops_deletes (row_at t) ops)"
  have d: "distinct (map fst ops)" using assms(2) by (simp add: ops_ok_def bt_wf_distinct)
  then have dp: "distinct ?pks" by (simp add: deletes_keys(1))
  obtain t1 where t1: "try_fold apply_delete ?pks (t, []) = Inr (t1, ops_deletes (row_at t) ops)"
    "merged t ((row_at t) |` (- set ?pks)) ((row_at t) |` (- set ?pks)) 0 t1"
    using apply_deletes [OF assms(1) dp, of "[]"] unfolding deletes_keys(2) by auto
  have sh: "table_shape t1 = table_shape t" "row_at t1 = (row_at t) |` (- set ?pks)" using t1(2) by (simp_all add: merged_def)
  have gone: "row_at t1 pk = None" if "pk \<in> fst ` set ops" for pk
    using that by (auto simp: sh(2) restrict_map_def deletes_keys(1))
  have view: "row_at t1 ++ map_of (upserts ops) = overlay (row_at t) ops"
  proof
    fix pk
    show "(row_at t1 ++ map_of (upserts ops)) pk = overlay (row_at t) ops pk"
    proof (cases "bt_get ops pk")
      case None
      then have "pk \<notin> fst ` set ops" "map_of ops pk = None" by (simp_all add: bt_get_None_iff map_of_eq_None_iff)
      then show ?thesis using None upserts_get [OF d, of pk]
        by (simp add: overlay_def map_add_def sh(2) restrict_map_def deletes_keys(1))
    next
      case (Some op)
      then have "pk \<in> fst ` set ops" "map_of ops pk = Some op" by (metis bt_get_None_iff option.distinct(1), simp add: bt_get_def)
      then show ?thesis using Some upserts_get [OF d, of pk] gone
        by (auto simp: overlay_def map_add_def split: option.split)
    qed
  qed
  have "row_ok t1 pk row \<and> row_at t1 pk = None" if mem: "(pk, row) \<in> set (upserts ops)" for pk row
  proof -
    obtain op where op: "(pk, op) \<in> set ops" "op_row op = Some row" using mem by (auto simp: upserts_mem)
    then have "op_ok t pk op" using assms(2) by (auto simp: ops_ok_def)
    then have "row_ok t pk row" using op(2) by (auto simp: op_ok_def op_row_def split: PendingOp.splits)
    then show ?thesis using row_ok_shape [OF sh(1)] gone op(1) by force
  qed
  moreover have "inj_claims columns (row_at t1 ++ map_of (upserts ops))" if "columns \<in> set (map ux_columns (tb_unique t1))" for columns
  proof -
    have "map ux_columns (tb_unique t1) = map ux_columns (tb_unique t)" using sh(1) by (simp add: table_shape_def)
    then show ?thesis using that assms(2) unfolding view by (auto simp: ops_ok_def)
  qed
  ultimately obtain t' where t': "try_fold (apply_insert (tb_schema t1)) (map snd (upserts ops)) t1 = Inr t'"
    "merged t1 (overlay (row_at t) ops) (overlay (row_at t) ops) (length (upserts ops)) t'"
    using apply_inserts [OF merged_wf [OF t1(2)] upserts_distinct [OF d]] unfolding view by blast
  have "tb_schema t1 = tb_schema t" using sh(1) by (simp add: table_shape_def)
  moreover have "merged_table t ops t'"
    unfolding merged_table_def by (rule merged_more [OF merged_trans [OF t1(2) t'(2)]]) (simp add: upserts_length)
  ultimately show ?thesis using t1(1) t'(1) by (auto simp: upserts_rows)
qed

section \<open>All tables\<close>

lemma try_fold_map: "try_fold f (map g xs) s = try_fold (\<lambda>x. f (g x)) xs s"
proof (induction xs arbitrary: s)
  case (Cons x xs)
  then show ?case by (cases "f (g x) s") simp_all
qed simp

lemma try_fold_concat: "try_fold f (concat xss) s = try_fold (try_fold f) xss s"
proof (induction xss arbitrary: s)
  case (Cons xs xss)
  then show ?case by (cases "try_fold f xs s") (simp_all add: try_fold_append)
qed simp

interpretation replaying: table_steps
  "\<lambda>change. try_fold (apply_mutation r) (map table_mutation (table_diff base change))"
  "\<lambda>table t ops. table_wf t \<and> ops_ok t ops \<and> ops_wf ops \<and> bt_get (ms_catalog r) table = Some (tb_schema t) \<and> rows_of base table = row_at t"
  for r base
proof
  fix tables diffs t ops and table :: TableId
  assume t: "bt_get tables table = Some t" and pre: "table_wf t \<and> ops_ok t ops \<and> ops_wf ops \<and>
    bt_get (ms_catalog r) table = Some (tb_schema t) \<and> rows_of base table = row_at t"
  have same: "table_diff base (table, ops) = table_diff tables (table, ops)"
    using pre t by (simp add: table_diff_def rows_of_def)
  show "\<exists>t'. try_fold (apply_mutation r) (map table_mutation (table_diff base (table, ops))) (tables, diffs) =
      Inr (if ops = [] then tables else bt_insert table t' tables, diffs @ table_diff tables (table, ops)) \<and>
    merged_table t ops t' \<and> (ops = [] \<longrightarrow> t' = t)"
  proof (cases "ops = []")
    case True
    then show ?thesis using merged_table_Nil pre by (simp add: table_diff_def)
  next
    case False
    let ?d = "\<lparr>td_table_id = table, td_inserts = ops_inserts ops, td_deletes = ops_deletes (row_at t) ops\<rparr>"
    have d: "table_diff tables (table, ops) = [?d]" using False t by (simp add: table_diff_def rows_of_def)
    obtain t1 t' where c: "try_fold apply_delete (map fst (ops_deletes (row_at t) ops)) (t, []) = Inr (t1, ops_deletes (row_at t) ops)"
      "try_fold (apply_insert (tb_schema t)) (ops_inserts ops) t1 = Inr t'" "merged_table t ops t'"
      using apply_changes pre by blast
    have "list_all (list_all fixed_widths) (td_inserts ?d)"
      using pre by (auto simp: ops_wf_def ops_inserts_def List.map_filter_def list_all_iff row_wf_def wf_fixed_widths)
    then have rows: "insert_rows (table_mutation ?d) = Inr (ops_inserts ops)" using insert_rows_table_mutation [of ?d] by simp
    have "apply_mutation r (table_mutation ?d) (tables, diffs) = Inr (bt_insert table t' tables, diffs @ [?d])"
      using pre t c rows by (simp add: apply_mutation_def schema_of_def Let_def) (simp add: table_mutation_def delete_pks_def)
    then show ?thesis using False c(3) unfolding same d by (intro exI [of _ t']) simp
  qed
qed

lemma resume_marks:
  "\<exists>w' tables'. fold resume_counter (map (\<lambda>table. (table, m table)) dirty) (w, tables) = (w', tables') \<and>
    next_tx_id w' = next_tx_id w \<and> (bt_wf tables \<longrightarrow> bt_wf tables') \<and>
    (\<forall>table. bt_get tables' table = map_option (\<lambda>t. if table \<in> set dirty then t\<lparr>tb_high_water := m table\<rparr> else t) (bt_get tables table))"
proof (induction dirty arbitrary: w tables)
  case Nil
  then show ?case by (simp add: option.map_ident)
next
  case (Cons table dirty)
  let ?w = "w\<lparr>counters := bt_insert table (resumed (m table)) (counters w)\<rparr>"
  let ?tables = "case bt_get tables table of None \<Rightarrow> tables | Some t \<Rightarrow> bt_insert table (t\<lparr>tb_high_water := m table\<rparr>) tables"
  obtain w' tables' where IH: "fold resume_counter (map (\<lambda>table. (table, m table)) dirty) (?w, ?tables) = (w', tables')"
    "next_tx_id w' = next_tx_id ?w" "bt_wf ?tables \<longrightarrow> bt_wf tables'"
    "\<forall>i. bt_get tables' i = map_option (\<lambda>t. if i \<in> set dirty then t\<lparr>tb_high_water := m i\<rparr> else t) (bt_get ?tables i)"
    using Cons.IH [of ?w ?tables] by blast
  have "resume_counter (table, m table) (w, tables) = (?w, ?tables)" by (simp add: resume_counter_def)
  moreover have "bt_wf tables \<longrightarrow> bt_wf ?tables" by (simp split: option.split)
  moreover have "map_option (\<lambda>t. if i \<in> set dirty then t\<lparr>tb_high_water := m i\<rparr> else t) (bt_get ?tables i) =
      map_option (\<lambda>t. if i \<in> set (table # dirty) then t\<lparr>tb_high_water := m i\<rparr> else t) (bt_get tables i)" for i
    by (cases "bt_get tables table"; cases "i = table") (auto simp: bt_get_insert)
  ultimately show ?case using IH by (intro exI [of _ w'] exI [of _ tables']) simp
qed

section \<open>Agreement\<close>

text \<open>
  Two tables agree when they are equal but for the cached row count, which saturates differently only
  when a table outgrows 64 bits.
\<close>

definition same_table :: "TableState \<Rightarrow> TableState \<Rightarrow> bool" where
  "same_table t t' = (t\<lparr>tb_row_count := 0\<rparr> = t'\<lparr>tb_row_count := 0\<rparr>)"

definition tables_agree :: "tables \<Rightarrow> tables \<Rightarrow> bool" where
  "tables_agree T T' = (\<forall>table. rel_option same_table (bt_get T table) (bt_get T' table))"

definition replica_of :: "MemStore \<Rightarrow> MemStore \<Rightarrow> bool" where
  "replica_of st r =
    (bt_wf (ms_committed r) \<and> tables_agree (ms_committed r) (ms_committed st) \<and> ms_catalog r = ms_catalog st \<and>
     next_tx_id (ms_writer r) = next_tx_id (ms_writer st))"

lemma same_table_simps:
  assumes "same_table t t'"
  shows "row_at t = row_at t'" "table_shape t = table_shape t'" "tb_schema t = tb_schema t'" "tb_unique t = tb_unique t'"
    "tb_high_water t = tb_high_water t'" "tb_rows t = tb_rows t'" "tb_indexes t = tb_indexes t'"
  using assms by (cases t; cases t'; simp add: same_table_def row_at_def table_shape_def fun_eq_iff)+

lemma same_table_ok:
  assumes "same_table t t'"
  shows "ops_ok t ops \<longleftrightarrow> ops_ok t' ops" "table_ok st table t \<longleftrightarrow> table_ok st table t'"
proof -
  note e = same_table_simps [OF assms]
  have r: "row_ok t = row_ok t'" using row_ok_shape [OF e(2)] .
  show "ops_ok t ops \<longleftrightarrow> ops_ok t' ops" unfolding ops_ok_def op_ok_def e(1, 4) r ..
  show "table_ok st table t \<longleftrightarrow> table_ok st table t'"
    unfolding table_ok_def table_wf_def table_inv_def key_columns_def e r ..
qed

text \<open>The rows, the shape and the high-water mark determine a well-formed table.\<close>

lemma same_tree:
  assumes "bt_wf m" "bt_wf m'" "\<And>k v. bt_get m k = Some v \<longleftrightarrow> bt_get m' k = Some v"
  shows "m = m'"
proof (rule bt_get_eqI [OF assms(1, 2)])
  show "bt_get m k = bt_get m' k" for k
    using assms(3) [of k "the (bt_get m k)"] assms(3) [of k "the (bt_get m' k)"] by (cases "bt_get m k"; cases "bt_get m' k") simp_all
qed

lemma table_determined:
  assumes "table_wf t" "table_wf t'" "row_at t = row_at t'" "table_shape t = table_shape t'" "tb_high_water t = tb_high_water t'"
  shows "same_table t t'"
proof -
  have inv: "table_inv t (row_at t)" "table_inv t' (row_at t)" using assms(1-3) by (simp_all add: table_wf_def)
  have sh: "tb_schema t = tb_schema t'" "map index_shape (tb_indexes t) = map index_shape (tb_indexes t')"
    "map ux_columns (tb_unique t) = map ux_columns (tb_unique t')"
    using assms(4) by (simp_all add: table_shape_def)
  have "tb_rows t = tb_rows t'"
    using inv assms(3) by (intro bt_get_eqI) (auto simp: table_inv_def row_at_def fun_eq_iff)
  moreover have "tb_indexes t = tb_indexes t'"
  proof (rule nth_equalityI)
    show len: "length (tb_indexes t) = length (tb_indexes t')" using sh(2) by (metis length_map)
    fix i assume i: "i < length (tb_indexes t)"
    obtain a x b y where e: "tb_indexes t ! i = (a, x)" "tb_indexes t' ! i = (b, y)" by (metis prod.collapse)
    have "index_holds (tb_schema t) (a, x) (row_at t)" "index_holds (tb_schema t') (b, y) (row_at t)"
      using inv nth_mem [OF i] nth_mem [of i "tb_indexes t'"] i len unfolding e table_inv_def assms(3) by simp_all
    moreover have "a = b" "ix_columns x = ix_columns y"
      using arg_cong [OF sh(2), of "\<lambda>xs. xs ! i"] i len e by (simp_all add: index_shape_def)
    ultimately have "ix_tree x = ix_tree y" by (intro same_tree) (simp_all add: index_holds_def)
    then show "tb_indexes t ! i = tb_indexes t' ! i" using e \<open>a = b\<close> \<open>ix_columns x = ix_columns y\<close> by simp
  qed
  moreover have "tb_unique t = tb_unique t'"
  proof (rule nth_equalityI)
    show len: "length (tb_unique t) = length (tb_unique t')" using sh(3) by (metis length_map)
    fix i assume i: "i < length (tb_unique t)"
    let ?x = "tb_unique t ! i" and ?y = "tb_unique t' ! i"
    have "unique_holds (tb_schema t) ?x (row_at t)" "unique_holds (tb_schema t') ?y (row_at t)"
      using inv nth_mem [OF i] nth_mem [of i "tb_unique t'"] i len unfolding table_inv_def assms(3) by simp_all
    moreover have "ux_columns ?x = ux_columns ?y" using arg_cong [OF sh(3), of "\<lambda>xs. xs ! i"] i len by simp
    ultimately show "?x = ?y" using same_tree [of "ux_tree ?x" "ux_tree ?y"] by (auto simp: unique_holds_def)
  qed
  ultimately show ?thesis using sh(1) assms(5) by (simp add: same_table_def)
qed

lemma agree_rows: "tables_agree T T' \<Longrightarrow> rows_of T = rows_of T'"
proof (intro ext)
  fix table pk assume "tables_agree T T'"
  then have "rel_option same_table (bt_get T table) (bt_get T' table)" by (simp add: tables_agree_def)
  then show "rows_of T table pk = rows_of T' table pk"
    by (cases rule: option.rel_cases) (simp_all add: rows_of_def same_table_simps(1))
qed

text \<open>The replica seen as the primary's store over the replica's tables, and the transaction over them.\<close>

definition over_replica :: "MemStore \<Rightarrow> MemStore \<Rightarrow> MemStore" where
  "over_replica st r = st\<lparr>ms_committed := ms_committed r\<rparr>"

lemma over_replica_ok:
  assumes "store_ok st" "tx_ok st tx" "replica_of st r"
  shows "store_ok (over_replica st r)" "tx_ok (over_replica st r) (tx\<lparr>tx_base := ms_committed r\<rparr>)"
    "commit_diff (over_replica st r) (tx\<lparr>tx_base := ms_committed r\<rparr>) = commit_diff st tx"
    "tx_view (tx\<lparr>tx_base := ms_committed r\<rparr>) = tx_view tx"
proof -
  have r: "bt_wf (ms_committed r)" "tables_agree (ms_committed r) (ms_committed st)" using assms(3) by (simp_all add: replica_of_def)
  have some: "\<exists>t'. bt_get (ms_committed r) table = Some t' \<and> same_table t' t" if "bt_get (ms_committed st) table = Some t" for table t
    using r(2) that unfolding tables_agree_def by (metis option_rel_Some2)
  have prev: "\<exists>t. bt_get (ms_committed st) table = Some t \<and> same_table t' t" if "bt_get (ms_committed r) table = Some t'" for table t'
    using r(2) that unfolding tables_agree_def by (metis option_rel_Some1)
  show "store_ok (over_replica st r)"
  proof (rule store_ok_published [OF assms(1) r(1)])
    show "table_ok st table t' \<and> (\<exists>t. bt_get (ms_committed st) table = Some t \<and> table_shape t' = table_shape t)"
      if "bt_get (ms_committed r) table = Some t'" for table t'
      using prev [OF that] store_table [OF assms(1)] same_table_ok(2) same_table_simps(2) by blast
    show "\<forall>table\<in>set (high_water_dirty (ms_writer (over_replica st r))). bt_get (ms_committed r) table \<noteq> None"
      using assms(1) some by (fastforce simp: store_ok_def over_replica_def)
  qed (simp_all add: over_replica_def)
  have "\<exists>t'. bt_get (ms_committed r) table = Some t' \<and> ops_ok t' ops \<and> ops_wf ops"
    if "bt_get (tx_tables tx) table = Some ops" for table ops
  proof -
    obtain t where "bt_get (ms_committed st) table = Some t" "ops_ok t ops" "ops_wf ops"
      using assms(2) \<open>bt_get (tx_tables tx) table = Some ops\<close> unfolding tx_ok_def by blast
    then show ?thesis using some same_table_ok(1) by blast
  qed
  moreover have "\<forall>table\<in>set (high_water_dirty (tx_writer tx)). bt_get (ms_committed r) table \<noteq> None"
    using assms(2) some by (fastforce simp: tx_ok_def)
  ultimately show "tx_ok (over_replica st r) (tx\<lparr>tx_base := ms_committed r\<rparr>)"
    using assms(2) by (simp add: tx_ok_def over_replica_def)
  have "table_diff (ms_committed r) = table_diff (ms_committed st)"
    unfolding table_diff_def agree_rows [OF r(2)] ..
  then show "commit_diff (over_replica st r) (tx\<lparr>tx_base := ms_committed r\<rparr>) = commit_diff st tx"
    by (simp add: commit_diff_def over_replica_def)
  show "tx_view (tx\<lparr>tx_base := ms_committed r\<rparr>) = tx_view tx"
  proof (intro ext)
    fix table pk
    have b: "tx_base tx = ms_committed st" using assms(2) by (simp add: tx_ok_def)
    show "tx_view (tx\<lparr>tx_base := ms_committed r\<rparr>) table pk = tx_view tx table pk"
    proof (cases "bt_get (ms_committed st) table")
      case None
      then have "bt_get (ms_committed r) table = None" using prev [of table] by (cases "bt_get (ms_committed r) table") auto
      then show ?thesis using None by (simp add: tx_view_def b)
    next
      case (Some t)
      then obtain t' where "bt_get (ms_committed r) table = Some t'" "row_at t' = row_at t" using some same_table_simps(1) by blast
      then show ?thesis using Some by (simp add: tx_view_def visible_overlay table_ops_def b)
    qed
  qed
qed

lemma published_agree:
  assumes "store_ok st" "tx_ok st tx" "replica_of st r" "store_ok st'" "published st tx st'"
    and "publishes (over_replica st r) (tx\<lparr>tx_base := ms_committed r\<rparr>) tables"
  shows "tables_agree tables (ms_committed st')"
  unfolding tables_agree_def
proof
  fix table
  have old: "rel_option same_table (bt_get (ms_committed r) table) (bt_get (ms_committed st) table)"
    using assms(3) by (simp add: replica_of_def tables_agree_def)
  note o = over_replica_ok [OF assms(1-3)]
  have p: "rows_of tables = rows_of (ms_committed st')"
    using assms(5, 6) o(4) by (simp add: publishes_def published_def)
  have sh: "map_option table_shape (bt_get tables table) = map_option table_shape (bt_get (ms_committed r) table)"
    "map_option table_shape (bt_get (ms_committed st') table) = map_option table_shape (bt_get (ms_committed st) table)"
    using assms(5, 6) by (simp_all add: publishes_def published_def over_replica_def)
  show "rel_option same_table (bt_get tables table) (bt_get (ms_committed st') table)"
  proof (cases "bt_get (ms_committed st) table")
    case None
    then show ?thesis using old sh by simp
  next
    case (Some t)
    then obtain s where s: "bt_get (ms_committed r) table = Some s" "same_table s t" using old by (auto simp: option_rel_Some2)
    obtain t' s' where n: "bt_get (ms_committed st') table = Some t'" "table_shape t' = table_shape t"
      "bt_get tables table = Some s'" "table_shape s' = table_shape s"
      using sh Some s(1) by auto
    have "row_at s' = row_at t'" using fun_cong [OF p, of table] n by (simp add: rows_of_def)
    moreover have "table_wf t'" using table_ok_wf [OF store_table [OF assms(4) n(1)]] .
    moreover have "table_wf s'" "tb_high_water s' = tb_high_water t'"
      using assms(5, 6) n Some s same_table_simps(5) [OF s(2)]
      by (auto simp: publishes_def published_def table_ok_def over_replica_def)
    ultimately have "same_table s' t'" using table_determined n same_table_simps(2) [OF s(2)] by simp
    then show ?thesis using n by simp
  qed
qed

text \<open>One record: the replica reaches the tables the commit published.\<close>

lemma replica_step:
  assumes "store_ok st" "tx_ok st tx" "replica_of st r" "commit env st tx = (st', Inr diff)"
  shows "\<exists>r'. apply_replica_record env' (from_diff diff shard ts caller reducer) r = (r', if env_retire_ok env' then Inr diff else Inl Io) \<and>
    replica_of st' r'"
proof -
  let ?s = "over_replica st r" and ?tx = "tx\<lparr>tx_base := ms_committed r\<rparr>" and ?w = "tx_writer tx"
  let ?rec = "from_diff diff shard ts caller reducer"
  note o = over_replica_ok [OF assms(1-3)]
  have r: "bt_wf (ms_committed r)" "tables_agree (ms_committed r) (ms_committed st)" "ms_catalog r = ms_catalog st"
    "next_tx_id (ms_writer r) = next_tx_id (ms_writer st)"
    using assms(3) by (simp_all add: replica_of_def)
  have diff: "diff = commit_diff st tx" and st': "store_ok st'" "published st tx st'"
    using commit_ok [OF assms(1, 2), of env] assms(4) by (auto split: if_splits)
  have f: "ms_committed ?s = ms_committed r" "ms_catalog ?s = ms_catalog r" "tx_tables ?tx = tx_tables tx" "table_ops ?tx = table_ops tx"
    "tx_writer ?tx = tx_writer tx"
    by (simp_all add: over_replica_def r(3) table_ops_def fun_eq_iff)
  have "rows_of (ms_committed r) table = row_at t" if "bt_get (ms_committed r) table = Some t" for table t
    using that by (simp add: rows_of_def)
  then obtain tables where m: "try_fold (\<lambda>change. try_fold (apply_mutation r) (map table_mutation (table_diff (ms_committed r) change)))
      (tx_tables tx) (ms_committed r, []) = Inr (tables, diff_tables diff)" "bt_wf tables"
    "\<And>table. bt_get (ms_committed r) table = None \<Longrightarrow> bt_get tables table = None"
    "\<And>table t. bt_get (ms_committed r) table = Some t \<Longrightarrow> \<exists>t'. bt_get tables table = Some t' \<and> merged_table t (table_ops tx table) t'"
    using replaying.merged_stage [OF o(1, 2), of r "ms_committed r"] unfolding f o(3) diff table_ok_def by auto
  have same: "table_diff (ms_committed r) = table_diff (ms_committed st)" unfolding table_diff_def agree_rows [OF r(2)] ..
  have "rec_mutations ?rec = concat (map (\<lambda>change. map table_mutation (table_diff (ms_committed r) change)) (tx_tables tx))"
    by (simp add: from_diff_def diff commit_diff_def same map_concat comp_def)
  then have muts: "try_fold (apply_mutation r) (rec_mutations ?rec) (ms_committed r, []) = Inr (tables, diff_tables diff)"
    using m(1) by (simp add: try_fold_concat try_fold_map)
  obtain w' tables' where p: "fold resume_counter (rec_auto_inc ?rec) (ms_writer r, tables) = (w', tables')" "bt_wf tables'"
    "\<And>table. bt_get tables' table = map_option (\<lambda>t. if table \<in> set (high_water_dirty ?w) then t\<lparr>tb_high_water := mark_of (counters ?w) table\<rparr> else t) (bt_get tables table)"
    using resume_marks [of "mark_of (counters ?w)" "high_water_dirty ?w" "ms_writer r" tables] m(2)
    by (auto simp: from_diff_def diff commit_diff_def)
  have "publishes ?s ?tx tables'" 
    by (rule marked_stage [OF o(1, 2) p(2), of tables, unfolded f, OF m(3, 4) p(3)])
  then have agree: "tables_agree tables' (ms_committed st')" "bt_wf tables'"
    using published_agree [OF assms(1-3) st'] by (simp_all add: publishes_def)
  let ?r1 = "publish_versioned (w'\<lparr>next_tx_id := sat_add (rec_tx_id ?rec) 1\<rparr>) tables' r"
  let ?r2 = "if env_retire_ok env' then count_blobs (diff_tables diff) (retain_in_temporal_window (env_retained env') (rec_tx_id ?rec) (rec_timestamp ?rec) tables' ?r1) else ?r1"
  have id: "rec_tx_id ?rec = next_tx_id (ms_writer r)" "rec_tx_id ?rec = tx_id tx"
    using assms(2) r(4) by (simp_all add: from_diff_def diff commit_diff_def tx_ok_def)
  have "\<lparr>diff_tx_id = rec_tx_id ?rec, diff_tables = diff_tables diff, diff_auto_inc = rec_auto_inc ?rec\<rparr> = diff"
    by (simp add: from_diff_def)
  then have eq: "apply_replica_record env' ?rec r = (?r2, if env_retire_ok env' then Inr diff else Inl Io)"
    by (simp add: apply_replica_record_def Let_def id(1) [symmetric] muts p(1))
  have g: "ms_committed ?r2 = tables'" "ms_catalog ?r2 = ms_catalog r" "next_tx_id (ms_writer ?r2) = sat_add (tx_id tx) 1"
    by (simp_all add: count_blobs_def retain_in_temporal_window_def publish_versioned_def id(2))
  have "ms_catalog st' = ms_catalog st" "next_tx_id (ms_writer st') = sat_add (tx_id tx) 1"
    using st'(2) by (simp_all add: published_def same_config_def)
  then have "replica_of st' ?r2" unfolding replica_of_def g using agree r(3) by simp
  then show ?thesis using eq by blast
qed

section \<open>Property of replication\<close>

text \<open>A primary and a replica that is given the record of every commit that returned its diff.\<close>

inductive followed :: "MemStore \<Rightarrow> MemStore \<Rightarrow> MemStore \<Rightarrow> MemStore \<Rightarrow> bool" for st0 r0 where
  start: "followed st0 r0 st0 r0"
| commit: "followed st0 r0 st r \<Longrightarrow> tx_reach st tx \<Longrightarrow> commit env st tx = (st', Inr diff) \<Longrightarrow>
    followed st0 r0 st' (fst (apply_replica_record env' (from_diff diff shard ts caller reducer) r))"
| rollback: "followed st0 r0 st r \<Longrightarrow> tx_reach st tx \<Longrightarrow> followed st0 r0 (rollback st tx) r"

text \<open>Nothing in a transaction uses up its transaction id before it commits.\<close>

lemma assign_tx_id: "assign_auto_inc st table schema vs w = Inr (w', us) \<Longrightarrow> next_tx_id w' = next_tx_id w"
  by (auto simp: assign_auto_inc_def Let_def split: option.splits RowValue.splits if_splits prod.splits)

interpretation numbered: tx_closed st "\<lambda>tx. (store_ok st \<and> tx_ok st tx) \<and> next_tx_id (tx_writer tx) = next_tx_id (ms_writer st)" for st
proof unfold_locales
  fix tx vs table replace
  assume P: "(store_ok st \<and> tx_ok st tx) \<and> next_tx_id (tx_writer tx) = next_tx_id (ms_writer st)" and vs: "row_wf vs"
  have "next_tx_id (tx_writer (fst (tx_write st table vs replace tx))) = next_tx_id (tx_writer tx)"
    by (rule tx_write_cases [of st tx vs table replace])
      (use P vs assign_tx_id in \<open>auto simp: counter_step_def write_stages_def\<close>)
  then show "(store_ok st \<and> tx_ok st (fst (tx_write st table vs replace tx))) \<and>
      next_tx_id (tx_writer (fst (tx_write st table vs replace tx))) = next_tx_id (ms_writer st)"
    using kept.writes [of st tx vs table replace] P vs by simp
next
  fix tx table pk_values
  assume P: "(store_ok st \<and> tx_ok st tx) \<and> next_tx_id (tx_writer tx) = next_tx_id (ms_writer st)"
  have "tx_writer (fst (delete_one st table pk_values tx)) = tx_writer tx"
    by (rule delete_one_cases [of st tx table pk_values]) (use P in auto)
  then show "(store_ok st \<and> tx_ok st (fst (delete_one st table pk_values tx))) \<and>
      next_tx_id (tx_writer (fst (delete_one st table pk_values tx))) = next_tx_id (ms_writer st)"
    using kept.deletes [of st tx table pk_values] P by simp
qed simp

lemma reach_tx_id: "tx_reach st tx \<Longrightarrow> store_ok st \<Longrightarrow> (store_ok st \<and> tx_ok st tx) \<and> next_tx_id (tx_writer tx) = next_tx_id (ms_writer st)"
proof (induction rule: tx_reach.induct)
  case start
  then show ?case using begin_ok by (simp add: begin_tx_def)
next
  case (row tx vs table replace)
  then show ?case using numbered.writes [of st tx vs table replace] by blast
next
  case (del tx table pk_values r)
  then show ?case using numbered.tx_delete_kept [of st tx table pk_values r] by blast
qed

lemma followed_ok: "followed st0 r0 st r \<Longrightarrow> store_ok st0 \<Longrightarrow> replica_of st0 r0 \<Longrightarrow> store_ok st \<and> replica_of st r"
proof (induction rule: followed.induct)
  case (commit st r tx env st' diff env' shard ts caller reducer)
  have st: "store_ok st" "replica_of st r" using commit by blast+
  have tx: "tx_ok st tx" using tx_reach_ok [OF commit(2) st(1)] .
  have "store_ok st'" using commit_ok [OF st(1) tx, of env] commit(3) by auto
  then show ?case using replica_step [OF st(1) tx st(2) commit(3), of env' shard ts caller reducer] by auto
next
  case (rollback st r tx)
  then have "tx_ok st tx" "next_tx_id (tx_writer tx) = next_tx_id (ms_writer st)" using reach_tx_id by blast+
  then show ?case using rollback rollback_ok [of st tx] by (simp add: replica_of_def) (simp add: rollback_def)
qed simp



end
