(* ===== verification/LogReplay.thy ===== *)
theory LogReplay
  imports Segment
begin

text \<open>
  What a scan of the commit log returns.  \<open>valid_entries\<close> is the reference reading of a segment:
  the longest run of frames that pass every check.  Scanning and replay with any visitor are
  shown to be a fold of the visitor over these entries, and the reading of a file written by the
  encoder, torn at any byte, is shown to be exactly what was written completely.
\<close>

section \<open>The reference reading of a segment\<close>

type_synonym entry = "u64 \<times> TxRecord"

definition accept_next :: "log_env \<Rightarrow> bytes \<Rightarrow> u32 \<Rightarrow> u64 option \<Rightarrow> u64 \<Rightarrow> nat \<Rightarrow> (u64 \<times> TxRecord \<times> nat) option" where
  "accept_next env bs shard prev m off =
    (case scan_entry env bs off of
       Entry e body end \<Rightarrow>
         (case record_decode env body of
            Inr r \<Rightarrow> if m \<le> e \<and> rec_shard_id r = shard \<and> \<not> not_increasing prev (rec_tx_id r)
              then Some (e, r, end) else None
          | Inl _ \<Rightarrow> None)
     | _ \<Rightarrow> None)"

lemma accept_next_progress: "accept_next env bs shard prev m off = Some (e, r, end) \<Longrightarrow> off < end \<and> end \<le> length bs"
  by (auto simp: accept_next_def dest: scan_entry_progress split: ScannedEntry.splits sum.splits if_splits)

function valid_entries :: "log_env \<Rightarrow> bytes \<Rightarrow> u32 \<Rightarrow> u64 option \<Rightarrow> u64 \<Rightarrow> nat \<Rightarrow> entry list \<times> nat" where
  "valid_entries env bs shard prev m off =
    (case accept_next env bs shard prev m off of
       None \<Rightarrow> ([], off)
     | Some (e, r, end) \<Rightarrow>
         (case valid_entries env bs shard (Some (rec_tx_id r)) e end of (es, off') \<Rightarrow> ((e, r) # es, off')))"
  by pat_completeness auto
termination
  by (relation "measure (\<lambda>(env, bs, shard, prev, m, off). length bs - off)")
    (auto dest!: accept_next_progress)

declare valid_entries.simps [simp del]

text \<open>Epochs never decrease, ids strictly increase, every record is of this shard.\<close>

fun chain_ok :: "u32 \<Rightarrow> u64 option \<Rightarrow> u64 \<Rightarrow> entry list \<Rightarrow> bool" where
  "chain_ok shard prev m [] = True"
| "chain_ok shard prev m ((e, r) # es) =
    (m \<le> e \<and> rec_shard_id r = shard \<and> \<not> not_increasing prev (rec_tx_id r) \<and>
     chain_ok shard (Some (rec_tx_id r)) e es)"

definition last_tx :: "u64 option \<Rightarrow> entry list \<Rightarrow> u64 option" where
  "last_tx prev es = (if es = [] then prev else Some (rec_tx_id (snd (last es))))"

definition last_epoch :: "u64 \<Rightarrow> entry list \<Rightarrow> u64" where
  "last_epoch m es = (if es = [] then m else fst (last es))"

definition visit_all :: "(u64 \<Rightarrow> TxRecord \<Rightarrow> 's \<Rightarrow> 's result) \<Rightarrow> entry list \<Rightarrow> 's \<Rightarrow> 's result" where
  "visit_all visit es = try_fold (\<lambda>(e, r). visit e r) es"

text \<open>The bytes of a run of entries.\<close>

definition entry_frames :: "log_env \<Rightarrow> entry list \<Rightarrow> bytes result" where
  "entry_frames env es = rmap concat (try_map (\<lambda>(e, r). encode_entry_frame env e r) es)"

definition scan_result :: "SegmentScan \<Rightarrow> entry list \<Rightarrow> nat \<Rightarrow> ScanFault option \<Rightarrow> SegmentScan" where
  "scan_result scan es off fault =
    \<lparr>scan_entries = scan_entries scan + length es,
     scan_last_tx = (if es = [] then scan_last_tx scan else last_tx None es),
     scan_max_epoch = last_epoch (scan_max_epoch scan) es,
     scan_valid_len = (if es = [] then scan_valid_len scan else off),
     scan_fault = fault\<rparr>"

definition fresh_scan :: "u64 \<Rightarrow> SegmentScan" where
  "fresh_scan m = \<lparr>scan_entries = 0, scan_last_tx = None, scan_max_epoch = m,
    scan_valid_len = SEGMENT_HEADER_LEN, scan_fault = None\<rparr>"

definition add_entries :: "ReplayReport \<Rightarrow> entry list \<Rightarrow> ReplayReport" where
  "add_entries rep es = rep\<lparr>rep_records := rep_records rep + length es,
    rep_last_tx_id := last_tx (rep_last_tx_id rep) es\<rparr>"

text \<open>What a crash leaves behind the last complete frame: nothing, or the start of one more frame.\<close>

definition torn_tail :: "log_env \<Rightarrow> bytes \<Rightarrow> bool" where
  "torn_tail env t = (t = [] \<or> (\<exists>e r f. encode_entry_frame env e r = Inr f \<and> strict_prefix t f))"

text \<open>
  The reference reading of a whole log: segment after segment until the first one that does not
  end cleanly; the flag says whether all of it was read.
\<close>

fun log_entries :: "log_env \<Rightarrow> directory \<Rightarrow> u32 \<Rightarrow> SegmentRef list \<Rightarrow> u64 option \<Rightarrow> u64 \<Rightarrow> entry list \<times> bool" where
  "log_entries env d shard [] prev m = ([], True)"
| "log_entries env d shard (seg # segs) prev m =
    (case map_of d (seg_path seg) of
       None \<Rightarrow> ([], False)
     | Some bs \<Rightarrow>
         (case decode_segment_header env bs of
            Inl _ \<Rightarrow> ([], False)
          | Inr h \<Rightarrow>
              if h < m then ([], False)
              else (case valid_entries env bs shard prev h SEGMENT_HEADER_LEN of (es, off) \<Rightarrow>
                if off = length bs
                then (case log_entries env d shard segs (last_tx prev es) (last_epoch h es) of
                  (es', clean) \<Rightarrow> (es @ es', clean))
                else (es, False))))"

text \<open>
  A log as the writer leaves it: the files of its segments are a header and the frames of a group
  of entries, the last file may carry a torn tail; ids and epochs are ordered across all of it.
\<close>

fun written_segments :: "log_env \<Rightarrow> directory \<Rightarrow> SegmentRef list \<Rightarrow> (u64 \<times> entry list) list \<Rightarrow> bytes \<Rightarrow> bool" where
  "written_segments env d [] [] t = (t = [])"
| "written_segments env d (seg # segs) ((h, es) # gs) t =
    (\<exists>fs. entry_frames env es = Inr fs \<and>
       map_of d (seg_path seg) = Some (encode_segment_header env h @ fs @ (if segs = [] then t else [])) \<and>
       (if segs = [] then gs = [] else written_segments env d segs gs t))"
| "written_segments env d _ _ t = False"

fun groups_ok :: "u32 \<Rightarrow> u64 option \<Rightarrow> u64 \<Rightarrow> (u64 \<times> entry list) list \<Rightarrow> bool" where
  "groups_ok shard prev m [] = True"
| "groups_ok shard prev m ((h, es) # gs) =
    (m \<le> h \<and> chain_ok shard prev h es \<and> groups_ok shard (last_tx prev es) (last_epoch h es) gs)"

definition report_of :: "entry list \<Rightarrow> Corruption option \<Rightarrow> ReplayReport" where
  "report_of es cor = \<lparr>rep_records = length es, rep_last_tx_id = last_tx None es, rep_corruption = cor\<rparr>"

text \<open>A sample log: records named by their id, a serializer that writes the id.\<close>

definition demo_record :: "u64 \<Rightarrow> TxRecord" where
  "demo_record tx = \<lparr>rec_tx_id = tx, rec_timestamp = 0, rec_shard_id = 0, rec_mutations = [],
    rec_auto_inc = [], rec_caller = [], rec_reducer_name = []\<rparr>"

definition demo_env :: log_env where
  "demo_env = \<lparr>crc32c = (\<lambda>_. 0),
    record_encode = (\<lambda>r. if r = demo_record (rec_tx_id r) \<and> rec_tx_id r < 256 then Inr [ucast (rec_tx_id r)] else Inl Io),
    record_decode = (\<lambda>bs. case bs of [b] \<Rightarrow> Inr (demo_record (ucast b)) | _ \<Rightarrow> Inl [])\<rparr>"

definition demo_dir :: directory where
  "demo_dir =
    [(segment_file_name 0 1, encode_segment_header demo_env 0 @ frame_bytes demo_env 0 [1] @ frame_bytes demo_env 0 [2]),
     (segment_file_name 0 3, encode_segment_header demo_env 4 @ frame_bytes demo_env 4 [3] @ [1, 0, 0, 0, 4])]"

section \<open>Scanning is a fold over the reference reading\<close>

lemma last_tx_simps [simp]:
  "last_tx prev [] = prev" "last_tx prev ((e, r) # es) = last_tx (Some (rec_tx_id r)) es"
  by (simp_all add: last_tx_def)

lemma last_epoch_simps [simp]: "last_epoch m [] = m" "last_epoch m ((e, r) # es) = last_epoch e es"
  by (simp_all add: last_epoch_def)

lemma visit_all_simps [simp]:
  "visit_all visit [] s = Inr s"
  "visit_all visit ((e, r) # es) s = rbind (visit e r s) (visit_all visit es)"
  by (simp_all add: visit_all_def)

lemma scan_loop_none:
  assumes "accept_next env bs shard prev (scan_max_epoch scan) off = None" "scan_fault scan = None"
    and "off \<le> length bs"
  shows "\<exists>fault. (fault = None \<longleftrightarrow> off = length bs) \<and> (\<forall>f. fault = Some f \<longrightarrow> fault_offset f = off) \<and>
    (\<forall>visit s. scan_loop env bs shard visit prev scan off s = Inr (scan\<lparr>scan_fault := fault\<rparr>, s))"
proof (cases "scan_entry env bs off")
  case CleanEof
  then have "off = length bs"
    using assms(3) by (auto simp: scan_entry_def Let_def split: if_splits)
  moreover have "scan\<lparr>scan_fault := None\<rparr> = scan" using assms(2) by simp
  ultimately show ?thesis
    using CleanEof by (intro exI [of _ None]) (simp add: scan_loop.simps)
next
  case (Entry e body n)
  then have "off \<noteq> length bs" by (auto dest: scan_entry_progress)
  show ?thesis
  proof (cases "record_decode env body")
    case (Inl reason)
    then show ?thesis
      using Entry \<open>off \<noteq> length bs\<close>
      by (intro exI [of _ "Some \<lparr>fault_offset = off, fault_reason = (if e < scan_max_epoch scan
        then ''entry epoch regresses'' else reason)\<rparr>"]) (simp add: scan_loop.simps with_fault_def)
  next
    case (Inr r)
    then show ?thesis
      using Entry \<open>off \<noteq> length bs\<close> assms(1)
      by (intro exI [of _ "Some \<lparr>fault_offset = off, fault_reason = (if e < scan_max_epoch scan
        then ''entry epoch regresses'' else if rec_shard_id r \<noteq> shard then ''entry shard_id''
        else ''tx_id does not strictly increase'')\<rparr>"])
        (auto simp: scan_loop.simps with_fault_def accept_next_def not_le split: if_splits)
  qed
next
  case (Torn reason)
  then have "off \<noteq> length bs" by (auto simp: scan_entry_def)
  then show ?thesis
    using Torn by (intro exI [of _ "Some \<lparr>fault_offset = off, fault_reason = reason\<rparr>"])
      (simp add: scan_loop.simps with_fault_def)
next
  case (Corrupt reason)
  then have "off \<noteq> length bs" by (auto simp: scan_entry_def)
  then show ?thesis
    using Corrupt by (intro exI [of _ "Some \<lparr>fault_offset = off, fault_reason = reason\<rparr>"])
      (simp add: scan_loop.simps with_fault_def)
qed

lemma scan_loop_some:
  assumes "accept_next env bs shard prev (scan_max_epoch scan) off = Some (e, r, end)"
  shows "scan_loop env bs shard visit prev scan off s =
    rbind (visit e r s) (\<lambda>s'. scan_loop env bs shard visit (Some (rec_tx_id r))
      (scan_accept scan (rec_tx_id r) e end) end s')"
  using assms by (subst scan_loop.simps)
    (auto simp: accept_next_def split: ScannedEntry.splits sum.splits if_splits)

lemma accept_next_epoch: "accept_next env bs shard prev m off = Some (e, r, end) \<Longrightarrow> m \<le> e"
  by (auto simp: accept_next_def split: ScannedEntry.splits sum.splits if_splits)

lemma valid_entries_Nil: "valid_entries env bs shard prev m off = ([], off') \<Longrightarrow> off' = off"
  by (subst (asm) valid_entries.simps) (auto split: option.splits prod.splits)

lemma scan_loop_eq:
  assumes "scan_fault scan = None" "off \<le> length bs"
    and "valid_entries env bs shard prev (scan_max_epoch scan) off = (es, off')"
  shows "\<exists>fault. (fault = None \<longleftrightarrow> off' = length bs) \<and> (\<forall>f. fault = Some f \<longrightarrow> fault_offset f = off') \<and>
    (\<forall>(visit :: u64 \<Rightarrow> TxRecord \<Rightarrow> 's \<Rightarrow> 's result) s. scan_loop env bs shard visit prev scan off s =
      rmap (\<lambda>s'. (scan_result scan es off' fault, s')) (visit_all visit es s))"
  using assms
proof (induction "length bs - off" arbitrary: prev scan off es rule: less_induct)
  case less
  show ?case
  proof (cases "accept_next env bs shard prev (scan_max_epoch scan) off")
    case None
    then have "es = []" "off' = off" using less.prems(3) by (auto simp: valid_entries.simps)
    moreover have "scan\<lparr>scan_fault := f\<rparr> = scan_result scan [] off f" for f
      by (simp add: scan_result_def)
    ultimately show ?thesis
      using scan_loop_none [OF None less.prems(1, 2)] by auto
  next
    case (Some x)
    obtain e r n where x: "x = (e, r, n)" by (cases x)
    note acc = Some [unfolded x]
    obtain es' where es: "es = (e, r) # es'"
      and rest: "valid_entries env bs shard (Some (rec_tx_id r)) e n = (es', off')"
      using less.prems(3) acc by (auto simp: valid_entries.simps [of env bs shard prev] split: prod.splits)
    have prog: "off < n" "n \<le> length bs" using accept_next_progress [OF acc] by auto
    let ?scan = "scan_accept scan (rec_tx_id r) e n"
    have m: "scan_max_epoch ?scan = e"
      using accept_next_epoch [OF acc] by (simp add: scan_accept_def max_def)
    have lt: "length bs - n < length bs - off" using prog by linarith
    have fnone: "scan_fault ?scan = None" by (simp add: scan_accept_def less.prems(1))
    obtain fault where f: "fault = None \<longleftrightarrow> off' = length bs" "\<forall>f. fault = Some f \<longrightarrow> fault_offset f = off'"
      "\<forall>(visit :: u64 \<Rightarrow> TxRecord \<Rightarrow> 's \<Rightarrow> 's result) s. scan_loop env bs shard visit (Some (rec_tx_id r)) ?scan n s =
        rmap (\<lambda>s'. (scan_result ?scan es' off' fault, s')) (visit_all visit es' s)"
      using less.hyps [OF lt fnone prog(2), unfolded m, OF rest] by (elim exE conjE) (rule that)
    have "scan_result ?scan es' off' fault = scan_result scan es off' fault"
      using m valid_entries_Nil [of env bs shard "Some (rec_tx_id r)" e n off'] rest
      by (cases "es' = []") (auto simp: scan_result_def scan_accept_def es last_tx_def last_epoch_def)
    then show ?thesis
      using f by (intro exI [of _ fault]) (simp add: scan_loop_some [OF acc] es rmap_def rbind_assoc)
  qed
qed

lemma valid_entries_chain:
  "valid_entries env bs shard prev m off = (es, off') \<Longrightarrow> chain_ok shard prev m es"
proof (induction env bs shard prev m off arbitrary: es rule: valid_entries.induct)
  case (1 env bs shard prev m off)
  show ?case
  proof (cases "accept_next env bs shard prev m off")
    case None
    then show ?thesis using "1.prems" by (simp add: valid_entries.simps)
  next
    case (Some x)
    then show ?thesis
      using "1.prems" "1.IH" [of x]
      by (auto simp: valid_entries.simps [of env bs shard prev] accept_next_def
        split: prod.splits ScannedEntry.splits sum.splits if_splits)
  qed
qed

lemma entry_frames_simps:
  "entry_frames env [] = Inr fs \<longleftrightarrow> fs = []"
  "entry_frames env ((e, r) # es) = Inr fs \<longleftrightarrow>
    (\<exists>f fs'. encode_entry_frame env e r = Inr f \<and> entry_frames env es = Inr fs' \<and> fs = f @ fs')"
  by (auto simp: entry_frames_def result_simps)

lemma encode_entry_frame_iff:
  "encode_entry_frame env e r = Inr f \<longleftrightarrow>
   (\<exists>body. record_encode env r = Inr body \<and> length body \<le> 2 ^ 30 \<and> f = frame_bytes env e body)"
  by (auto simp: encode_entry_frame_def result_simps encode_entry_iff)

lemma scan_written_frame:
  assumes "codec_ok env" "encode_entry_frame env e r = Inr f" "drop off bs = f @ rest" "off \<le> length bs"
  shows "\<exists>body. scan_entry env bs off = Entry e body (off + length f) \<and> record_decode env body = Inr r"
proof -
  obtain body where b: "record_encode env r = Inr body" "length body \<le> 2 ^ 30" "f = frame_bytes env e body"
    using assms(2) by (auto simp: encode_entry_frame_iff)
  then have "record_decode env body = Inr r" using assms(1) by (simp add: codec_ok_def)
  then show ?thesis
    using scan_frame [OF b(2), of env e rest] scan_entry_drop [OF assms(4), of env] assms(3) b(3)
    by auto
qed

lemma valid_entries_written:
  assumes "codec_ok env" "entry_frames env es = Inr fs" "chain_ok shard prev m es"
    and "drop off bs = fs @ rest" "off \<le> length bs"
    and "accept_next env bs shard (last_tx prev es) (last_epoch m es) (off + length fs) = None"
  shows "valid_entries env bs shard prev m off = (es, off + length fs)"
  using assms(2-)
proof (induction es arbitrary: prev m off fs)
  case Nil
  then show ?case by (simp add: entry_frames_simps valid_entries.simps)
next
  case (Cons x es)
  obtain e r where x: "x = (e, r)" by (cases x)
  obtain f fs' where f: "encode_entry_frame env e r = Inr f" "entry_frames env es = Inr fs'" "fs = f @ fs'"
    using Cons.prems(1) by (auto simp: x entry_frames_simps)
  have acc: "accept_next env bs shard prev m off = Some (e, r, off + length f)"
    using scan_written_frame [OF assms(1) f(1), of off bs "fs' @ rest"] Cons.prems(2-4)
    by (auto simp: x f(3) accept_next_def)
  have "off + length f \<le> length bs"
    using accept_next_progress [OF acc] by simp
  moreover have "drop (off + length f) bs = fs' @ rest"
    using arg_cong [OF Cons.prems(3), of "drop (length f)"] f(3) by (simp add: add.commute)
  ultimately have "valid_entries env bs shard (Some (rec_tx_id r)) e (off + length f) = (es, off + length f + length fs')"
    using Cons.IH [OF f(2), of "Some (rec_tx_id r)" e "off + length f"] Cons.prems(2, 5)
    by (simp add: x f(3) add.assoc)
  then show ?case
    by (subst valid_entries.simps) (simp add: acc x f(3) add.assoc)
qed

section \<open>Whole segments and whole logs\<close>

lemma header_length: "decode_segment_header env bs = Inr h \<Longrightarrow> SEGMENT_HEADER_LEN \<le> length bs"
  by (auto simp: decode_segment_header_def split: if_splits)

lemma visit_all_append: "visit_all visit (es @ es') s = rbind (visit_all visit es s) (visit_all visit es')"
  by (simp add: visit_all_def try_fold_append)

lemma last_tx_append: "last_tx prev (es @ es') = last_tx (last_tx prev es) es'"
  by (auto simp: last_tx_def)

lemma last_epoch_append: "last_epoch m (es @ es') = last_epoch (last_epoch m es) es'"
  by (auto simp: last_epoch_def)

lemma chain_ok_append:
  "chain_ok shard prev m (es @ es') \<longleftrightarrow> chain_ok shard prev m es \<and> chain_ok shard (last_tx prev es) (last_epoch m es) es'"
  by (induction es arbitrary: prev m) auto

lemma chain_ok_mono: "m \<le> m' \<Longrightarrow> chain_ok shard prev m' es \<Longrightarrow> chain_ok shard prev m es"
  by (cases es) auto

lemma scan_segment_header_bad:
  "decode_segment_header env bs = Inl reason \<Longrightarrow>
   scan_segment_bytes env bs shard prev m visit s = Inr (HeaderCorrupt reason, s)"
  by (simp add: scan_segment_bytes_def)

lemma scan_segment_regress:
  "decode_segment_header env bs = Inr h \<Longrightarrow> h < m \<Longrightarrow>
   scan_segment_bytes env bs shard prev m visit s =
     Inr (Scanned (with_fault (fresh_scan m) 0 ''segment header epoch regresses''), s)"
  by (simp add: scan_segment_bytes_def fresh_scan_def max_def)

lemma scan_segment_eq:
  assumes "decode_segment_header env bs = Inr h" "m \<le> h"
    and "valid_entries env bs shard prev h SEGMENT_HEADER_LEN = (es, off)"
  shows "\<exists>fault. (fault = None \<longleftrightarrow> off = length bs) \<and> (\<forall>f. fault = Some f \<longrightarrow> fault_offset f = off) \<and>
    (\<forall>(visit :: u64 \<Rightarrow> TxRecord \<Rightarrow> 's \<Rightarrow> 's result) s. scan_segment_bytes env bs shard prev m visit s =
      rmap (\<lambda>s'. (Scanned (scan_result (fresh_scan h) es off fault), s')) (visit_all visit es s))"
proof -
  have fs: "scan_fault (fresh_scan h) = None" and me: "scan_max_epoch (fresh_scan h) = h"
    by (simp_all add: fresh_scan_def)
  obtain fault where f: "fault = None \<longleftrightarrow> off = length bs" "\<forall>f. fault = Some f \<longrightarrow> fault_offset f = off"
    "\<forall>(visit :: u64 \<Rightarrow> TxRecord \<Rightarrow> 's \<Rightarrow> 's result) s. scan_loop env bs shard visit prev (fresh_scan h) SEGMENT_HEADER_LEN s =
      rmap (\<lambda>s'. (scan_result (fresh_scan h) es off fault, s')) (visit_all visit es s)"
    using scan_loop_eq [OF fs header_length [OF assms(1)], unfolded me, OF assms(3)]
    by (elim exE conjE) (rule that)
  have "max h m = h" "\<not> h < m" using assms(2) by (simp_all add: max_def not_less)
  then show ?thesis
    using f assms(1) by (intro exI [of _ fault])
      (simp add: scan_segment_bytes_def fresh_scan_def [symmetric] rmap_def rbind_assoc)
qed

lemma scan_result_fresh:
  "scan_last_tx (scan_result (fresh_scan h) es off fault) = last_tx None es"
  "scan_max_epoch (scan_result (fresh_scan h) es off fault) = last_epoch h es"
  "scan_fault (scan_result (fresh_scan h) es off fault) = fault"
  "scan_entries (scan_result (fresh_scan h) es off fault) = length es"
  "scan_valid_len (scan_result (fresh_scan h) es off fault) = (if es = [] then SEGMENT_HEADER_LEN else off)"
  by (simp_all add: scan_result_def fresh_scan_def last_tx_def)

lemma option_or_last_tx: "option_or (last_tx None es) prev = last_tx prev es"
  by (simp add: option_or_def last_tx_def)

lemma last_epoch_ge: "chain_ok shard prev m es \<Longrightarrow> m \<le> last_epoch m es"
proof (induction es arbitrary: prev m)
  case (Cons x es)
  obtain e r where x: "x = (e, r)" by (cases x)
  have "m \<le> e" "e \<le> last_epoch e es" using Cons x by auto
  then have "m \<le> last_epoch e es" by (rule order_trans)
  then show ?case by (simp add: x)
qed simp

lemma add_entries_simps [simp]:
  "add_entries rep [] = rep"
  "add_entries (add_entries rep es) es' = add_entries rep (es @ es')"
  by (simp_all add: add_entries_def last_tx_append)

lemma add_entries_Cons:
  "add_entries rep ((e, r) # es) =
    add_entries (rep\<lparr>rep_records := Suc (rep_records rep), rep_last_tx_id := Some (rec_tx_id r)\<rparr>) es"
  by (simp add: add_entries_def)

lemma replay_visit_app:
  "replay_visit visit e r (rep, s) =
    rmap (\<lambda>s'. (rep\<lparr>rep_records := Suc (rep_records rep), rep_last_tx_id := Some (rec_tx_id r)\<rparr>, s')) (visit e r s)"
  by (simp add: replay_visit_def)

lemma visit_all_replay:
  "visit_all (replay_visit visit) es (rep, s) = rmap (\<lambda>s'. (add_entries rep es, s')) (visit_all visit es s)"
proof (induction es arbitrary: rep s)
  case (Cons x es)
  obtain e r where x: "x = (e, r)" by (cases x)
  show ?case
    by (cases "visit e r s") (simp_all add: x replay_visit_app add_entries_Cons Cons)
qed simp

lemma replay_loop_eq:
  assumes "\<forall>seg \<in> set segs. map_of d (seg_path seg) \<noteq> None"
    and "log_entries env d shard segs prev m = (es, clean)" and "rep_corruption rep = None"
  shows "\<exists>cor. (cor = None \<longleftrightarrow> clean) \<and>
    (\<forall>(visit :: u64 \<Rightarrow> TxRecord \<Rightarrow> 's \<Rightarrow> 's result) s. replay_loop env d shard visit segs prev m (rep, s) =
      rmap (\<lambda>s'. ((add_entries rep es)\<lparr>rep_corruption := cor\<rparr>, s')) (visit_all visit es s))"
  using assms
proof (induction segs arbitrary: prev m es clean rep)
  case Nil
  then have "rep\<lparr>rep_corruption := None\<rparr> = rep" by simp
  then show ?case using Nil by (intro exI [of _ None]) auto
next
  case (Cons seg segs)
  obtain bs where bs: "map_of d (seg_path seg) = Some bs" using Cons.prems(1) by auto
  show ?case
  proof (cases "decode_segment_header env bs")
    case (Inl reason)
    then have "es = []" "\<not> clean" using Cons.prems(2) bs by auto
    then show ?thesis
      using Inl bs by (intro exI [of _ "Some \<lparr>cor_segment = seg_path seg, cor_offset = 0, cor_reason = reason\<rparr>"])
        (simp add: dir_read_def scan_segment_header_bad)
  next
    case (Inr h)
    show ?thesis
    proof (cases "h < m")
      case True
      then have "es = []" "\<not> clean" using Cons.prems(2) bs Inr by auto
      then show ?thesis
        using True Inr bs
        by (intro exI [of _ "Some \<lparr>cor_segment = seg_path seg, cor_offset = 0,
          cor_reason = ''segment header epoch regresses''\<rparr>"])
          (simp add: dir_read_def scan_segment_regress with_fault_def)
    next
      case False
      obtain es1 off where ve: "valid_entries env bs shard prev h SEGMENT_HEADER_LEN = (es1, off)" by force
      have mh: "m \<le> h" using False by simp
      obtain fault where f: "fault = None \<longleftrightarrow> off = length bs" "\<forall>f. fault = Some f \<longrightarrow> fault_offset f = off"
        "\<forall>(visit :: u64 \<Rightarrow> TxRecord \<Rightarrow> ReplayReport \<times> 's \<Rightarrow> (ReplayReport \<times> 's) result) s.
          scan_segment_bytes env bs shard prev m visit s =
          rmap (\<lambda>s'. (Scanned (scan_result (fresh_scan h) es1 off fault), s')) (visit_all visit es1 s)"
        using scan_segment_eq [OF Inr mh ve] by (elim exE conjE) (rule that)
      note step = bs dir_read_def f(3) visit_all_replay scan_result_fresh option_or_last_tx
      show ?thesis
      proof (cases "off = length bs")
        case False
        then have "es = es1" "\<not> clean" using Cons.prems(2) bs Inr ve \<open>\<not> h < m\<close> by auto
        moreover obtain fl where "fault = Some fl" using f(1) False by (cases fault) auto
        ultimately show ?thesis
          by (intro exI [of _ "Some \<lparr>cor_segment = seg_path seg, cor_offset = fault_offset fl, cor_reason = fault_reason fl\<rparr>"])
            (simp add: step rmap_def rbind_assoc)
      next
        case True
        obtain es2 clean2 where rest: "log_entries env d shard segs (last_tx prev es1) (last_epoch h es1) = (es2, clean2)"
          by force
        then have es: "es = es1 @ es2" "clean = clean2"
          using Cons.prems(2) bs Inr ve True \<open>\<not> h < m\<close> by auto
        have mx: "max (last_epoch h es1) m = last_epoch h es1"
          using order_trans [OF mh last_epoch_ge [OF valid_entries_chain [OF ve]]] by (rule max_absorb1)
        have readable: "\<forall>seg \<in> set segs. map_of d (seg_path seg) \<noteq> None" using Cons.prems(1) by simp
        have rc: "rep_corruption (add_entries rep es1) = None" using Cons.prems(3) by (simp add: add_entries_def)
        obtain cor where c: "cor = None \<longleftrightarrow> clean2"
          "\<forall>(visit :: u64 \<Rightarrow> TxRecord \<Rightarrow> 's \<Rightarrow> 's result) s.
            replay_loop env d shard visit segs (last_tx prev es1) (last_epoch h es1) (add_entries rep es1, s) =
            rmap (\<lambda>s'. ((add_entries (add_entries rep es1) es2)\<lparr>rep_corruption := cor\<rparr>, s')) (visit_all visit es2 s)"
          using Cons.IH [OF readable rest rc] by (elim exE conjE) (rule that)
        show ?thesis
          using c f(1) True es
          by (intro exI [of _ cor]) (simp add: step mx rmap_def rbind_assoc visit_all_append)
      qed
    qed
  qed
qed

lemma list_segments_member:
  "seg \<in> set (list_segments d shard) \<longleftrightarrow>
   seg_path seg \<in> fst ` set d \<and> parse_segment_file_name (seg_path seg) shard = Some (seg_first_tx_id seg)"
  by (cases seg) (force simp: list_segments_def split: option.splits)

lemma list_segments_readable: "\<forall>seg \<in> set (list_segments d shard). map_of d (seg_path seg) \<noteq> None"
  by (auto simp: list_segments_member map_of_eq_None_iff)

lemma log_entries_chain: "log_entries env d shard segs prev m = (es, clean) \<Longrightarrow> chain_ok shard prev m es"
proof (induction segs arbitrary: prev m es clean)
  case (Cons seg segs)
  then show ?case
    by (auto simp: chain_ok_append dest!: valid_entries_chain split: option.splits sum.splits if_splits prod.splits
      intro: chain_ok_mono [OF leI])
qed simp

lemma chain_ok_sorted:
  "chain_ok shard prev m es \<Longrightarrow>
   sorted_wrt (<) (map (\<lambda>(e, r). rec_tx_id r) es) \<and> sorted (map fst es) \<and>
   (\<forall>(e, r) \<in> set es. m \<le> e \<and> \<not> not_increasing prev (rec_tx_id r) \<and> rec_shard_id r = shard)"
proof (induction es arbitrary: prev m)
  case (Cons x es)
  obtain e r where x: "x = (e, r)" by (cases x)
  have "\<forall>(e', r') \<in> set es. e \<le> e' \<and> rec_tx_id r < rec_tx_id r'"
    and rest: "sorted_wrt (<) (map (\<lambda>(e, r). rec_tx_id r) es)" "sorted (map fst es)"
      "\<forall>(e, r) \<in> set es. rec_shard_id r = shard"
    using Cons.IH [of "Some (rec_tx_id r)" e] Cons.prems
    by (auto simp: x not_increasing_def not_le)
  moreover have "m \<le> e" "\<not> not_increasing prev (rec_tx_id r)" "rec_shard_id r = shard"
    using Cons.prems by (auto simp: x)
  ultimately show ?case
    by (auto simp: x not_increasing_def split: option.splits intro: order_trans)
qed simp

lemma replay_eq:
  assumes "log_entries env d shard (list_segments d shard) None 0 = (es, clean)"
  shows "\<exists>cor. (cor = None \<longleftrightarrow> clean) \<and>
    (\<forall>(visit :: u64 \<Rightarrow> TxRecord \<Rightarrow> 's \<Rightarrow> 's result) s.
      replay env d shard visit s = rmap (\<lambda>s'. (report_of es cor, s')) (visit_all visit es s))"
proof -
  let ?rep = "\<lparr>rep_records = 0, rep_last_tx_id = None, rep_corruption = None\<rparr>"
  have "rep_corruption ?rep = None" by simp
  moreover have "(add_entries ?rep es)\<lparr>rep_corruption := cor\<rparr> = report_of es cor" for cor
    by (simp add: add_entries_def report_of_def)
  ultimately show ?thesis
    using replay_loop_eq [OF list_segments_readable assms, of ?rep] by (simp add: replay_def)
qed

lemma torn_tail_stops:
  assumes "torn_tail env t" "drop off bs = t" "off \<le> length bs"
  shows "accept_next env bs shard prev m off = None"
proof (cases "t = []")
  case True
  then show ?thesis using assms by (simp add: accept_next_def scan_entry_def)
next
  case False
  then obtain e body where "length body \<le> 2 ^ 30" "strict_prefix t (frame_bytes env e body)"
    using assms(1) by (auto simp: torn_tail_def encode_entry_frame_iff)
  then show ?thesis
    using scan_torn [of body t env e] False scan_entry_drop [OF assms(3), of env] assms(2)
    by (auto simp: accept_next_def)
qed

lemma valid_entries_file:
  assumes "codec_ok env" "entry_frames env es = Inr fs" "chain_ok shard prev h es" "torn_tail env t"
  shows "valid_entries env (encode_segment_header env h @ fs @ t) shard prev h SEGMENT_HEADER_LEN =
    (es, SEGMENT_HEADER_LEN + length fs)"
  by (rule valid_entries_written [OF assms(1-3), where rest = t])
    (simp_all add: SEGMENT_HEADER_LEN_def torn_tail_stops [OF assms(4)])

lemma log_entries_written:
  assumes "codec_ok env" "torn_tail env t" "written_segments env d segs gs t" "groups_ok shard prev m gs"
  shows "log_entries env d shard segs prev m = (concat (map snd gs), t = [])"
  using assms(3, 4)
proof (induction segs arbitrary: gs prev m)
  case Nil
  then show ?case by (cases gs) auto
next
  case (Cons seg segs)
  obtain h es gs' where gs: "gs = (h, es) # gs'"
    using Cons.prems(1) by (cases gs) auto
  let ?t = "if segs = [] then t else []"
  obtain fs where fs: "entry_frames env es = Inr fs"
    "map_of d (seg_path seg) = Some (encode_segment_header env h @ fs @ ?t)"
    "if segs = [] then gs' = [] else written_segments env d segs gs' t"
    using Cons.prems(1) by (auto simp: gs)
  have g: "m \<le> h" "chain_ok shard prev h es" "groups_ok shard (last_tx prev es) (last_epoch h es) gs'"
    using Cons.prems(2) by (auto simp: gs)
  have "torn_tail env ?t" using assms(2) by (simp add: torn_tail_def)
  then have ve: "valid_entries env (encode_segment_header env h @ fs @ ?t) shard prev h SEGMENT_HEADER_LEN =
    (es, SEGMENT_HEADER_LEN + length fs)"
    by (rule valid_entries_file [OF assms(1) fs(1) g(2)])
  show ?case
  proof (cases "segs = []")
    case True
    then show ?thesis
      using fs(2, 3) g(1) ve by (auto simp: gs decode_encode_header SEGMENT_HEADER_LEN_def)
  next
    case False
    then show ?thesis
      using fs(2, 3) g(1) ve Cons.IH [OF _ g(3)]
      by (simp add: gs decode_encode_header SEGMENT_HEADER_LEN_def)
  qed
qed

section \<open>What replay returns\<close>

text \<open>
  C14: replay is exact.  For every directory there is one list of entries, a function of the bytes
  alone, such that replaying with any visitor feeds it exactly these entries in order, stops at the
  visitor's first error, and otherwise reports their number and the last transaction id; corruption
  is reported exactly when some byte of the segments was not accepted.  The entries are all of the
  replayed shard, their transaction ids strictly increase and their epochs never decrease.
\<close>

theorem replay_exact:
  fixes env d shard
  defines "es \<equiv> fst (log_entries env d shard (list_segments d shard) None 0)"
  shows "(\<exists>cor. (cor = None \<longleftrightarrow> snd (log_entries env d shard (list_segments d shard) None 0)) \<and>
      (\<forall>(visit :: u64 \<Rightarrow> TxRecord \<Rightarrow> 's \<Rightarrow> 's result) s.
        replay env d shard visit s = rmap (\<lambda>s'. (report_of es cor, s')) (visit_all visit es s))) \<and>
    sorted_wrt (<) (map (\<lambda>(e, r). rec_tx_id r) es) \<and> sorted (map fst es) \<and>
    list_all (\<lambda>(e, r). rec_shard_id r = shard) es"
proof -
  obtain clean where c: "log_entries env d shard (list_segments d shard) None 0 = (es, clean)"
    by (simp add: es_def prod_eq_iff)
  show ?thesis
    using replay_eq [OF c, where 's = 's] chain_ok_sorted [OF log_entries_chain [OF c]] c
    by (auto simp: list_all_iff)
qed

text \<open>
  C2: nothing that was written completely is lost to a crash, and nothing else appears.  When the
  segment files hold what the writer wrote and the last file ends in an append cut at an arbitrary
  byte, replay delivers exactly the completely written entries, and it reports corruption exactly
  when there is such a torn tail.  The only fact about the serializer is that it reads back what it
  wrote; the checksum can be any function.
\<close>

theorem crash_replay:
  fixes visit :: "u64 \<Rightarrow> TxRecord \<Rightarrow> 's \<Rightarrow> 's result"
  assumes "codec_ok env" "written_segments env d (list_segments d shard) gs t" "groups_ok shard None 0 gs"
    and "torn_tail env t"
  shows "\<exists>cor. (cor = None \<longleftrightarrow> t = []) \<and>
    replay env d shard visit s =
      rmap (\<lambda>s'. (report_of (concat (map snd gs)) cor, s')) (visit_all visit (concat (map snd gs)) s)"
  using replay_eq [OF log_entries_written [OF assms(1, 4, 2, 3)], where 's = 's] by blast

lemma demo_codec: "codec_ok demo_env"
proof -
  have "(ucast (ucast x :: u8) :: u64) = x" if "x < 256" for x :: u64
    using that by (simp add: word_unat_eq_iff word_less_nat_alt unsigned_ucast_eq take_bit_eq_mod unat_mod_distrib)
  then show ?thesis by (auto simp: codec_ok_def demo_env_def split: if_splits)
qed

lemma demo_segments:
  "list_segments demo_dir 0 = [\<lparr>seg_path = segment_file_name 0 1, seg_first_tx_id = 1\<rparr>,
    \<lparr>seg_path = segment_file_name 0 3, seg_first_tx_id = 3\<rparr>]"
  by (simp add: list_segments_def demo_dir_def parse_segment_name)

lemma demo_frames:
  "tx < 256 \<Longrightarrow> encode_entry_frame demo_env e (demo_record tx) = Inr (frame_bytes demo_env e [ucast tx])"
  by (simp add: encode_entry_frame_iff) (simp add: demo_env_def demo_record_def)

abbreviation demo_groups :: "(u64 \<times> entry list) list" where
  "demo_groups \<equiv> [(0, [(0, demo_record 1), (0, demo_record 2)]), (4, [(4, demo_record 3)])]"

lemma demo_written: "written_segments demo_env demo_dir (list_segments demo_dir 0) demo_groups [1, 0, 0, 0, 4]"
proof -
  have "parse_segment_file_name (segment_file_name 0 1) 0 \<noteq> parse_segment_file_name (segment_file_name 0 3) 0"
    by (simp add: parse_segment_name)
  then have "segment_file_name 0 1 \<noteq> segment_file_name 0 3" by metis
  then show ?thesis
    by (simp add: demo_segments entry_frames_simps demo_frames) (simp add: demo_dir_def)
qed

lemma demo_torn: "torn_tail demo_env [1, 0, 0, 0, 4]"
proof -
  have "strict_prefix [1, 0, 0, 0, 4] (frame_bytes demo_env 4 [4])"
    by (simp add: frame_bytes_def to_le_bytes_def Let_def)
  then show ?thesis using demo_frames [of 4 4] by (auto simp: torn_tail_def)
qed

lemma demo_groups_ok: "groups_ok 0 None 0 demo_groups"
  by (simp add: not_increasing_def demo_record_def word_le_nat_alt)

theorem crash_replay_witness:
  "\<exists>cor. (cor = None \<longleftrightarrow> [1, 0, 0, 0, 4 :: u8] = []) \<and>
    replay demo_env demo_dir 0 (\<lambda>e r txs. Inr (txs @ [rec_tx_id r])) [] =
      Inr (report_of [(0, demo_record 1), (0, demo_record 2), (4, demo_record 3)] cor, [1, 2, 3])"
  using crash_replay [OF demo_codec demo_written demo_groups_ok demo_torn,
    of "\<lambda>e r txs. Inr (txs @ [rec_tx_id r])" "[]"]
  by (simp add: demo_record_def)

end
