(* ===== verification/Replication.thy ===== *)
theory Replication
  imports LogReplay "HOL-Library.Char_ord"
begin

text \<open>
  The primary's side of replication, \<open>src/crates/fluxum-server/src/replication.rs\<close>: persisted
  epochs, the session table with acknowledgments and fencing, the admission of a replica's hello, the
  semi-sync visibility barrier, and the streamer with its flow-control window and its checkpoint
  chunks.  Sessions are shared objects of the code (\<open>Arc\<close>): they live in a heap, and the session
  table maps a member name to a heap cell.  What another task or the clock decides (a log offset, a
  timer that fired) is an argument of the step that observes it.
\<close>

section \<open>Messages\<close>

record ReplicaHello =
  rh_shard_id :: u32
  rh_member_name :: string
  rh_epoch :: u64
  rh_last_applied_tx_id :: u64

record ReplAck =
  ra_epoch :: u64
  ra_applied_tx_id :: u64
  ra_durable_tx_id :: u64

record PrimaryHello =
  ph_shard_id :: u32
  ph_epoch :: u64
  ph_first_available_tx_id :: u64
  ph_latest_tx_id :: u64
  ph_sync_full :: bool
  ph_from_tx_id :: u64

record ReplCheckpoint =
  rc_last_tx_id :: u64
  rc_chunk :: bytes
  rc_done :: bool

record ReplBatch =
  rb_epoch :: u64
  rb_frames :: "bytes list"

datatype ServerMessage =
    MPrimaryHello PrimaryHello
  | MReplCheckpoint ReplCheckpoint
  | MReplBatch ReplBatch
  | MReplHeartbeat u64 u64
  | MReplFence u64
  | MError string

section \<open>Persisted epochs\<close>

text \<open>
  A marker file is missing, holds a value, or cannot be decoded.  Rewriting it truncates it first, so
  an I/O error leaves it as it was, undecodable, or written but not known to be synced.
\<close>

datatype 'a marker = NoMarker | Marker 'a | Garbled

datatype io = IoOk | IoNotOpened | IoTorn | IoNotSynced

fun rewrite_marker :: "io \<Rightarrow> 'a \<Rightarrow> 'a marker \<Rightarrow> bool \<times> 'a marker" where
  "rewrite_marker IoOk x m = (True, Marker x)"
| "rewrite_marker IoNotOpened x m = (False, m)"
| "rewrite_marker IoTorn x m = (False, Garbled)"
| "rewrite_marker IoNotSynced x m = (False, Marker x)"

fun load_epoch :: "u64 marker \<Rightarrow> u64 result" where
  "load_epoch NoMarker = Inr 1"
| "load_epoch (Marker e) = Inr e"
| "load_epoch Garbled = Inl (Storage ''replication.epoch decode failed'')"

definition persist_epoch :: "io \<Rightarrow> u64 \<Rightarrow> u64 marker \<Rightarrow> unit result \<times> u64 marker" where
  "persist_epoch io epoch m =
    (case rewrite_marker io epoch m of (ok, m') \<Rightarrow> (if ok then Inr () else Inl Io, m'))"

text \<open>\<open>semi_sync.quorum\<close> is a member count or the word \<open>majority\<close>.\<close>

definition quorum_total :: "string \<Rightarrow> nat \<Rightarrow> nat" where
  "quorum_total quorum members =
    (case parse_uint (2 ^ 64) quorum of Some count \<Rightarrow> count | None \<Rightarrow> members div 2 + 1)"

definition admit_batch_epoch :: "u64 \<Rightarrow> u64 \<Rightarrow> unit result" where
  "admit_batch_epoch batch_epoch persisted =
    (if batch_epoch < persisted then Inl (Storage ''stale-epoch batch rejected'') else Inr ())"

section \<open>The primary and its sessions\<close>

record SemiSyncRuntime =
  ss_quorum_total :: nat
  ss_ack_timeout :: nat
  ss_degrade :: bool

record PrimaryOptions =
  po_window_bytes :: u64
  po_semi_sync :: "SemiSyncRuntime option"

record ReplicaSession =
  rs_applied :: u64
  rs_durable :: u64

record ReplicationPrimary =
  rp_shard_id :: u32
  rp_epoch :: u64
  rp_options :: PrimaryOptions
  rp_heap :: "ReplicaSession list"
  rp_sessions :: "(string, nat) btree"
  rp_fenced :: bool
  rp_degraded :: bool

definition primary_new :: "u32 \<Rightarrow> u64 \<Rightarrow> PrimaryOptions \<Rightarrow> ReplicationPrimary" where
  "primary_new shard_id epoch options =
    \<lparr>rp_shard_id = shard_id, rp_epoch = epoch, rp_options = options, rp_heap = [], rp_sessions = [],
     rp_fenced = False, rp_degraded = False\<rparr>"

definition adopt_epoch :: "u64 \<Rightarrow> ReplicationPrimary \<Rightarrow> ReplicationPrimary" where
  "adopt_epoch epoch p = p\<lparr>rp_epoch := max (rp_epoch p) epoch\<rparr>"

definition fence :: "u64 \<Rightarrow> ReplicationPrimary \<Rightarrow> ReplicationPrimary" where
  "fence theirs p = p\<lparr>rp_epoch := max (rp_epoch p) theirs, rp_fenced := True\<rparr>"

definition ack :: "string \<Rightarrow> ReplAck \<Rightarrow> ReplicationPrimary \<Rightarrow> ReplicationPrimary" where
  "ack member a p =
    (let p' = (if ra_epoch a > rp_epoch p then fence (ra_epoch a) p else p) in
     case bt_get (rp_sessions p') member of
       None \<Rightarrow> p'
     | Some h \<Rightarrow>
         let s = rp_heap p' ! h in
         p'\<lparr>rp_heap := (rp_heap p')[h := s\<lparr>rs_applied := max (rs_applied s) (ra_applied_tx_id a),
           rs_durable := max (rs_durable s) (ra_durable_tx_id a)\<rparr>]\<rparr>)"

definition durable_offsets :: "ReplicationPrimary \<Rightarrow> (string \<times> u64) list" where
  "durable_offsets p = map (\<lambda>(name, h). (name, rs_durable (rp_heap p ! h))) (rp_sessions p)"

definition connected :: "ReplicationPrimary \<Rightarrow> nat" where
  "connected p = length (rp_sessions p)"

datatype admission =
    Refused "ServerMessage option"
  | Accepted nat bool

definition accept :: "ReplicaHello \<Rightarrow> string \<Rightarrow> u64 option \<Rightarrow> u64 \<Rightarrow> ReplicationPrimary \<Rightarrow>
    admission \<times> ReplicationPrimary" where
  "accept hello member first_available latest p =
    (if rh_shard_id hello \<noteq> rp_shard_id p then (Refused None, p)
     else if rh_epoch hello > rp_epoch p
       then (Refused (Some (MReplFence (rh_epoch hello))), fence (rh_epoch hello) p)
     else if rh_last_applied_tx_id hello > latest then (Refused None, p)
     else
       let next_needed = sat_add (rh_last_applied_tx_id hello) 1;
           sync_full = (case first_available of
               Some first \<Rightarrow> rh_last_applied_tx_id hello = 0 \<or> next_needed < first
             | None \<Rightarrow> rh_last_applied_tx_id hello = 0 \<and> latest > 0);
           session = \<lparr>rs_applied = rh_last_applied_tx_id hello, rs_durable = rh_last_applied_tx_id hello\<rparr>;
           handle = length (rp_heap p)
       in (Accepted handle sync_full,
           p\<lparr>rp_heap := rp_heap p @ [session], rp_sessions := bt_insert member handle (rp_sessions p)\<rparr>))"

text \<open>The end of the task that \<open>accept\<close> spawned: it removes the member's entry.\<close>

definition session_end :: "string \<Rightarrow> ReplicationPrimary \<Rightarrow> ReplicationPrimary" where
  "session_end member p = p\<lparr>rp_sessions := bt_remove member (rp_sessions p)\<rparr>"

section \<open>The semi-sync barrier\<close>

definition CLUSTER_SHARD_UNAVAILABLE :: nat where "CLUSTER_SHARD_UNAVAILABLE = 8000"

definition fenced_err :: FluxumError where
  "fenced_err = Query CLUSTER_SHARD_UNAVAILABLE ''fenced: a higher epoch exists'' (Some 1000)"

definition holding :: "u64 \<Rightarrow> ReplicationPrimary \<Rightarrow> nat" where
  "holding tx_id p = length (filter (\<lambda>(name, h). rs_durable (rp_heap p ! h) \<ge> tx_id) (rp_sessions p))"

text \<open>One turn of the barrier's loop; no answer means that it waits for the next acknowledgment.\<close>

definition barrier_turn :: "SemiSyncRuntime \<Rightarrow> u64 \<Rightarrow> bool \<Rightarrow> ReplicationPrimary \<Rightarrow>
    unit result option \<times> ReplicationPrimary" where
  "barrier_turn semi tx_id timed_out p =
    (if holding tx_id p \<ge> ss_quorum_total semi - 1 then (Some (Inr ()), p\<lparr>rp_degraded := False\<rparr>)
     else if rp_fenced p then (Some (Inl fenced_err), p)
     else if timed_out then
       if ss_degrade semi then (Some (Inr ()), p\<lparr>rp_degraded := True\<rparr>)
       else (Some (Inl (Query CLUSTER_SHARD_UNAVAILABLE ''semi-sync quorum not reached''
         (Some (if ss_ack_timeout semi < 2 ^ 32 then ss_ack_timeout semi else 1000)))), p)
     else (None, p))"

text \<open>
  The barrier over the other tasks' steps: before each turn the interleaved steps change the primary,
  and the deadline may have passed.
\<close>

fun barrier_loop :: "SemiSyncRuntime \<Rightarrow> u64 \<Rightarrow> ((ReplicationPrimary \<Rightarrow> ReplicationPrimary) \<times> bool) list \<Rightarrow>
    ReplicationPrimary \<Rightarrow> unit result option \<times> ReplicationPrimary" where
  "barrier_loop semi tx_id [] p = (None, p)"
| "barrier_loop semi tx_id ((others, timed_out) # turns) p =
    (case barrier_turn semi tx_id timed_out (others p) of
       (Some r, p') \<Rightarrow> (Some r, p')
     | (None, p') \<Rightarrow> barrier_loop semi tx_id turns p')"

definition visibility_barrier :: "u64 \<Rightarrow> ((ReplicationPrimary \<Rightarrow> ReplicationPrimary) \<times> bool) list \<Rightarrow>
    ReplicationPrimary \<Rightarrow> unit result option \<times> ReplicationPrimary" where
  "visibility_barrier tx_id turns p =
    (if rp_fenced p then (Some (Inl fenced_err), p)
     else case po_semi_sync (rp_options p) of
       None \<Rightarrow> (Some (Inr ()), p)
     | Some semi \<Rightarrow>
         if ss_quorum_total semi - 1 = 0 then (Some (Inr ()), p)
         else barrier_loop semi tx_id turns p)"

text \<open>The steps other tasks take on a primary.\<close>

inductive primary_step :: "ReplicationPrimary \<Rightarrow> ReplicationPrimary \<Rightarrow> bool" where
  adopt: "primary_step p (adopt_epoch epoch p)"
| acked: "primary_step p (ack member a p)"
| hello: "primary_step p (snd (accept hello member first_available latest p))"
| ended: "primary_step p (session_end member p)"
| turned: "primary_step p (snd (barrier_turn semi tx_id timed_out p))"

definition primary_wf :: "ReplicationPrimary \<Rightarrow> bool" where
  "primary_wf p = (bt_wf (rp_sessions p) \<and> (\<forall>(name, h) \<in> set (rp_sessions p). h < length (rp_heap p)) \<and>
    distinct (map snd (rp_sessions p)))"

section \<open>The streamer\<close>

definition CHECKPOINT_CHUNK_BYTES :: nat where "CHECKPOINT_CHUNK_BYTES = 262144"
definition BATCH_BUDGET_BYTES :: nat where "BATCH_BUDGET_BYTES = 1048576"

function chunks :: "nat \<Rightarrow> 'a list \<Rightarrow> 'a list list" where
  "chunks n xs = (if n = 0 \<or> xs = [] then [] else take n xs # chunks n (drop n xs))"
  by pat_completeness auto
termination
  by (relation "measure (\<lambda>(n, xs). length xs)") auto

declare chunks.simps [simp del]

definition checkpoint_messages :: "nat \<Rightarrow> u64 \<Rightarrow> bytes \<Rightarrow> ReplCheckpoint list" where
  "checkpoint_messages n last_tx_id pack =
    map (\<lambda>(i, chunk). \<lparr>rc_last_tx_id = last_tx_id, rc_chunk = chunk, rc_done = ((i + 1) * n \<ge> length pack)\<rparr>)
      (List.enumerate 0 (chunks n pack))"

definition session_hello :: "ReplicationPrimary \<Rightarrow> u64 \<Rightarrow> u64 option \<Rightarrow> (bytes \<times> u64) option \<Rightarrow> u64 \<Rightarrow>
    ServerMessage list \<times> u64" where
  "session_hello p latest first_available checkpoint replica_applied =
    (let from_tx = (case checkpoint of None \<Rightarrow> replica_applied | Some (pack, last_tx_id) \<Rightarrow> last_tx_id);
         hello = \<lparr>ph_shard_id = rp_shard_id p, ph_epoch = rp_epoch p,
           ph_first_available_tx_id = (case first_available of None \<Rightarrow> 1 | Some f \<Rightarrow> f),
           ph_latest_tx_id = latest, ph_sync_full = (checkpoint \<noteq> None), ph_from_tx_id = sat_add from_tx 1\<rparr>
     in (MPrimaryHello hello #
         (case checkpoint of None \<Rightarrow> []
          | Some (pack, last_tx_id) \<Rightarrow> map MReplCheckpoint (checkpoint_messages CHECKPOINT_CHUNK_BYTES last_tx_id pack)),
         from_tx))"

record Streamer =
  sm_last_sent :: u64
  sm_in_flight :: "(u64 \<times> nat) list"

definition in_flight_bytes :: "Streamer \<Rightarrow> nat" where
  "in_flight_bytes sm = sum_list (map snd (sm_in_flight sm))"

definition release_window :: "u64 \<Rightarrow> Streamer \<Rightarrow> Streamer" where
  "release_window acked sm = sm\<lparr>sm_in_flight := dropWhile (\<lambda>(tx, b). tx \<le> acked) (sm_in_flight sm)\<rparr>"

text \<open>
  One turn of the streaming loop: the session's acknowledged offset, the durable offset of the log
  and its files are read; a batch goes out when the window has room and the log has moved.  A turn
  that sends no batch waits, and sends a heartbeat when its timer fired.
\<close>

definition stream_turn :: "log_env \<Rightarrow> ReplicationPrimary \<Rightarrow> u64 \<Rightarrow> u64 \<Rightarrow> directory \<Rightarrow> bool \<Rightarrow> Streamer \<Rightarrow>
    (ServerMessage list \<times> Streamer) result" where
  "stream_turn env p acked durable d tick sm0 =
    (let sm = release_window acked sm0;
         hb = (if tick then [MReplHeartbeat (rp_epoch p) durable] else [])
     in if in_flight_bytes sm \<ge> unat (po_window_bytes (rp_options p)) then Inr (hb, sm)
        else if durable > sm_last_sent sm then
          rbind (read_frames_after env d (rp_shard_id p) (sm_last_sent sm) BATCH_BUDGET_BYTES) (\<lambda>(frames, new_last).
            if frames \<noteq> [] then
              Inr ([MReplBatch \<lparr>rb_epoch = rp_epoch p, rb_frames = frames\<rparr>],
                   sm\<lparr>sm_in_flight := sm_in_flight sm @ [(new_last, sum_list (map length frames))],
                      sm_last_sent := new_last\<rparr>)
            else Inr (hb, sm))
        else Inr (hb, sm))"

section \<open>Reference reading of the stream source\<close>

text \<open>What \<open>read_frames_after\<close> does with a run of entries, given by id and frame.\<close>

fun stream_items :: "u64 \<Rightarrow> (u64 \<times> bytes) list \<Rightarrow> stream_state \<Rightarrow> bool \<times> stream_state" where
  "stream_items after_tx [] st = (False, st)"
| "stream_items after_tx ((tx, frame) # items) st =
    (if after_tx < tx \<and> tx = st_last_tx st + 1 then
       if st_frames st \<noteq> [] \<and> st_budget st < length frame then (True, st)
       else stream_items after_tx items
         \<lparr>st_frames = st_frames st @ [frame], st_last_tx = tx, st_budget = st_budget st - length frame\<rparr>
     else stream_items after_tx items st)"

fun consecutive :: "u64 list \<Rightarrow> bool" where
  "consecutive (x # y # xs) = (y = x + 1 \<and> x < y \<and> consecutive (y # xs))"
| "consecutive _ = True"

definition stream_ok :: "log_env \<Rightarrow> u64 \<Rightarrow> nat \<Rightarrow> stream_state \<Rightarrow> bool" where
  "stream_ok env after_tx max_bytes st =
    (unat (st_last_tx st) = unat after_tx + length (st_frames st) \<and>
     (\<forall>i < length (st_frames st). \<exists>e r. decode_entry_frame env (st_frames st ! i) = Inr (e, r) \<and>
       unat (rec_tx_id r) = unat after_tx + i + 1) \<and>
     st_budget st = max_bytes - sum_list (map length (st_frames st)) \<and>
     (length (st_frames st) \<le> 1 \<or> sum_list (map length (st_frames st)) \<le> max_bytes))"

definition items_of :: "entry list \<Rightarrow> bytes list \<Rightarrow> (u64 \<times> bytes) list" where
  "items_of es fs = zip (map (\<lambda>(e, r). rec_tx_id r) es) fs"

definition framed :: "log_env \<Rightarrow> entry list \<Rightarrow> bytes list \<Rightarrow> bool" where
  "framed env = list_all2 (\<lambda>(e, r) f. encode_entry_frame env e r = Inr f)"

section \<open>Sessions\<close>

lemma primary_new_wf: "primary_wf (primary_new shard epoch options)"
  by (simp add: primary_wf_def primary_new_def)

lemma fence_simps [simp]:
  "rp_sessions (fence e p) = rp_sessions p" "rp_heap (fence e p) = rp_heap p" "rp_fenced (fence e p)"
  "rp_epoch (fence e p) = max (rp_epoch p) e" "rp_options (fence e p) = rp_options p"
  by (simp_all add: fence_def)

lemma barrier_turn_simps [simp]:
  "rp_sessions (snd (barrier_turn semi tx t p)) = rp_sessions p"
  "rp_heap (snd (barrier_turn semi tx t p)) = rp_heap p"
  "rp_fenced (snd (barrier_turn semi tx t p)) = rp_fenced p"
  "rp_epoch (snd (barrier_turn semi tx t p)) = rp_epoch p"
  by (simp_all add: barrier_turn_def)

lemma ack_simps [simp]:
  "rp_sessions (ack m a p) = rp_sessions p" "length (rp_heap (ack m a p)) = length (rp_heap p)"
  "rp_fenced (ack m a p) = (rp_fenced p \<or> rp_epoch p < ra_epoch a)"
  "rp_epoch (ack m a p) = max (rp_epoch p) (ra_epoch a)"
  by (auto simp: ack_def Let_def max_def split: option.splits)

lemma snd_bt_insert: "set (bt_insert k v m) \<subseteq> insert (k, v) (set m)"
  by (induction k v m rule: bt_insert.induct) auto

lemma snd_bt_remove: "set (bt_remove k m) \<subseteq> set m"
  by (induction k m rule: bt_remove.induct) auto

lemma distinct_snd_insert:
  "distinct (map snd m) \<Longrightarrow> v \<notin> snd ` set m \<Longrightarrow> distinct (map snd (bt_insert k v m))"
proof (induction k v m rule: bt_insert.induct)
  case (2 k v k' v' m)
  then show ?case using snd_bt_insert [of k v m] by (auto dest!: subsetD)
qed simp

lemma distinct_snd_remove: "distinct (map snd m) \<Longrightarrow> distinct (map snd (bt_remove k m))"
proof (induction k m rule: bt_remove.induct)
  case (2 k k' v m)
  then show ?case using snd_bt_remove [of k m] by (auto dest!: subsetD)
qed simp

lemma accept_wf: "primary_wf p \<Longrightarrow> primary_wf (snd (accept hello member first latest p))"
proof -
  assume wf: "primary_wf p"
  let ?s = "bt_insert member (length (rp_heap p)) (rp_sessions p)"
  have "length (rp_heap p) \<notin> snd ` set (rp_sessions p)" using wf by (auto simp: primary_wf_def)
  then have "distinct (map snd ?s)" using wf by (simp add: primary_wf_def distinct_snd_insert)
  moreover have "\<forall>(name, h) \<in> set ?s. h < Suc (length (rp_heap p))"
    using wf snd_bt_insert [of member "length (rp_heap p)" "rp_sessions p"] by (fastforce simp: primary_wf_def)
  ultimately show ?thesis
    using wf by (auto simp: accept_def Let_def primary_wf_def)
qed

lemma primary_step_wf: "primary_step p p' \<Longrightarrow> primary_wf p \<Longrightarrow> primary_wf p'"
proof (induction rule: primary_step.induct)
  case (hello p hello member first_available latest)
  then show ?case by (simp add: accept_wf)
next
  case (ended p member)
  then show ?case
    using snd_bt_remove [of member "rp_sessions p"]
    by (auto simp: session_end_def primary_wf_def distinct_snd_remove)
qed (auto simp: primary_wf_def adopt_epoch_def)

lemma primary_step_mono:
  "primary_step p p' \<Longrightarrow> rp_epoch p \<le> rp_epoch p' \<and> (rp_fenced p \<longrightarrow> rp_fenced p')"
  by (induction rule: primary_step.induct)
    (auto simp: adopt_epoch_def accept_def Let_def session_end_def)

lemma primary_steps_wf: "primary_step\<^sup>*\<^sup>* p p' \<Longrightarrow> primary_wf p \<Longrightarrow> primary_wf p'"
  by (induction rule: rtranclp_induct) (auto intro: primary_step_wf)

lemma primary_steps_mono:
  "primary_step\<^sup>*\<^sup>* p p' \<Longrightarrow> rp_epoch p \<le> rp_epoch p' \<and> (rp_fenced p \<longrightarrow> rp_fenced p')"
  by (induction rule: rtranclp_induct) (auto dest: primary_step_mono)

lemma barrier_loop_ok:
  "barrier_loop semi tx turns p = (Some (Inr ()), p') \<Longrightarrow> \<not> ss_degrade semi \<Longrightarrow>
   ss_quorum_total semi - 1 \<le> holding tx p'"
  by (induction semi tx turns p rule: barrier_loop.induct)
    (auto simp: barrier_turn_def holding_def split: prod.splits option.splits if_splits)

lemma barrier_loop_wf:
  assumes "\<forall>(others, timed_out) \<in> set turns. \<forall>q. primary_step\<^sup>*\<^sup>* q (others q)"
  shows "primary_wf p \<Longrightarrow> primary_wf (snd (barrier_loop semi tx turns p))"
  using assms
proof (induction semi tx turns p rule: barrier_loop.induct)
  case (2 semi tx others timed_out turns p)
  let ?p = "snd (barrier_turn semi tx timed_out (others p))"
  have "primary_step\<^sup>*\<^sup>* p (others p)" using "2.prems"(2) by simp
  then have "primary_wf ?p"
    using primary_steps_wf "2.prems"(1) primary_step_wf [OF primary_step.turned] by blast
  then show ?case
    using "2.IH" "2.prems"(2) by (auto split: prod.splits option.splits)
qed simp

lemma holding_card:
  assumes "bt_wf (rp_sessions p)"
  shows "holding tx p = card {name. \<exists>h. bt_get (rp_sessions p) name = Some h \<and> tx \<le> rs_durable (rp_heap p ! h)}"
proof -
  let ?fs = "filter (\<lambda>(name, h). tx \<le> rs_durable (rp_heap p ! h)) (rp_sessions p)"
  have "{name. \<exists>h. bt_get (rp_sessions p) name = Some h \<and> tx \<le> rs_durable (rp_heap p ! h)} = set (map fst ?fs)"
    using assms by (auto simp: bt_get_Some_iff image_iff)
  moreover have "distinct (map fst ?fs)" using bt_wf_distinct [OF assms] by (rule distinct_map_filter)
  ultimately show ?thesis using distinct_card [of "map fst ?fs"] by (simp add: holding_def)
qed

section \<open>The stream source\<close>

lemma entry_slice:
  assumes "scan_entry env bs off = Entry e body n"
  shows "byte_slice bs off n = frame_bytes env e body \<and> length body \<le> 2 ^ 30"
proof -
  have "off < n" "n \<le> length bs" using scan_entry_progress [OF assms] by auto
  then obtain k where k: "scan_entry env (drop off bs) 0 = Entry e body k" "n = off + k"
    using assms scan_entry_drop [of off bs env] by (auto split: ScannedEntry.splits)
  have "length body \<le> 2 ^ 30" "k = 16 + length body" "prefix (frame_bytes env e body) (drop off bs)"
    using scan_entry_sound [OF k(1)] by auto
  then show ?thesis using k(2) by (auto simp: byte_slice_def prefix_def)
qed

lemma decode_frame_bytes:
  "length body \<le> 2 ^ 30 \<Longrightarrow> record_decode env body = Inr r \<Longrightarrow>
   decode_entry_frame env (frame_bytes env e body) = Inr (e, r)"
  by (auto simp: decode_entry_frame_iff encode_entry_iff)

lemma succ_no_wrap:
  assumes "(a :: u64) < b" "b = c + 1"
  shows "unat b = unat c + 1"
proof -
  have b: "unat b = (unat c + 1) mod 2 ^ 64" using assms(2) by (simp add: unat_word_ariths)
  have "unat c + 1 < 2 ^ 64"
  proof (rule ccontr)
    assume "\<not> unat c + 1 < 2 ^ 64"
    then have "unat c + 1 = 2 ^ 64" using unat_bound [of c] by simp
    then have "unat b = 0" using b by simp
    then show False using assms(1) by (simp add: word_less_nat_alt)
  qed
  then show ?thesis using b by simp
qed

lemma stream_loop_ok:
  assumes "stream_ok env after_tx m st" "stream_loop env bs after_tx off st = Inr (done, st')"
  shows "stream_ok env after_tx m st'"
  using assms
proof (induction env bs after_tx off st rule: stream_loop.induct)
  case (1 env bs after_tx off st)
  show ?case
  proof (cases "scan_entry env bs off")
    case (Entry e body n)
    then obtain r where r: "record_decode env body = Inr r"
      using "1.prems"(2) by (cases "record_decode env body") (auto simp: stream_loop.simps [of env bs after_tx off st])
    let ?f = "byte_slice bs off n"
    let ?st = "\<lparr>st_frames = st_frames st @ [?f], st_last_tx = rec_tx_id r, st_budget = st_budget st - length ?f\<rparr>"
    have f: "decode_entry_frame env ?f = Inr (e, r)" "16 \<le> length ?f"
      using entry_slice [OF Entry] r by (auto simp: decode_frame_bytes)
    show ?thesis
    proof (cases "after_tx < rec_tx_id r \<and> rec_tx_id r = st_last_tx st + 1")
      case False
      then show ?thesis
        using "1.IH"(2) [OF Entry r False] "1.prems"
        by (auto simp: stream_loop.simps [of env bs after_tx off st] Entry r split: if_splits)
    next
      case True
      then have tx: "unat (rec_tx_id r) = unat (st_last_tx st) + 1"
        using succ_no_wrap by blast
      show ?thesis
      proof (cases "st_frames st \<noteq> [] \<and> st_budget st < length ?f")
        case True
        then show ?thesis
          using \<open>after_tx < rec_tx_id r \<and> _\<close> "1.prems"
          by (auto simp: stream_loop.simps [of env bs after_tx off st] Entry r Let_def split: if_splits)
      next
        case False
        have "stream_ok env after_tx m ?st"
          using "1.prems"(1) False tx f
          by (auto simp: stream_ok_def nth_append less_Suc_eq)
        then show ?thesis
          using "1.IH"(1) [OF Entry r True refl False] "1.prems"(2) True False
          by (auto simp: stream_loop.simps [of env bs after_tx off st] Entry r Let_def split: if_splits)
      qed
    qed
  qed (use "1.prems" in \<open>auto simp: stream_loop.simps [of env bs after_tx off st]\<close>)
qed

lemma stream_segments_ok:
  "stream_segments env d after_tx segs st = Inr st' \<Longrightarrow> stream_ok env after_tx m st \<Longrightarrow> stream_ok env after_tx m st'"
  by (induction env d after_tx segs st rule: stream_segments.induct)
    (auto simp: result_simps split: if_splits dest: stream_loop_ok)


lemma framed_iff: "entry_frames env es = Inr bs \<longleftrightarrow> (\<exists>fs. framed env es fs \<and> bs = concat fs)"
  by (auto simp: entry_frames_def framed_def rmap_eq_Inr_iff try_map_Inr_iff case_prod_beta')

lemma stream_stop:
  assumes "torn_tail env t" "drop off bs = t" "off \<le> length bs"
  shows "stream_loop env bs after_tx off st = Inr (False, st)"
proof (cases "t = []")
  case True
  then show ?thesis using assms by (simp add: stream_loop.simps scan_entry_def)
next
  case False
  then obtain e body where "length body \<le> 2 ^ 30" "strict_prefix t (frame_bytes env e body)"
    using assms(1) by (auto simp: torn_tail_def encode_entry_frame_iff)
  then show ?thesis
    using scan_torn [of body t env e] False scan_entry_drop [OF assms(3), of env] assms(2)
    by (auto simp: stream_loop.simps)
qed

lemma stream_loop_written:
  assumes "codec_ok env" "framed env es fs" "drop off bs = concat fs @ t" "torn_tail env t" "off \<le> length bs"
  shows "stream_loop env bs after_tx off st = Inr (stream_items after_tx (items_of es fs) st)"
  using assms(2-)
proof (induction es arbitrary: off fs st)
  case Nil
  then show ?case by (simp add: framed_def items_of_def stream_stop)
next
  case (Cons x es)
  obtain e r where x: "x = (e, r)" by (cases x)
  obtain f fs' where f: "fs = f # fs'" "encode_entry_frame env e r = Inr f" "framed env es fs'"
    using Cons.prems(1) by (auto simp: x framed_def list_all2_Cons1)
  have d: "drop off bs = f @ concat fs' @ t" using Cons.prems(2) f(1) by simp
  obtain body where b: "scan_entry env bs off = Entry e body (off + length f)" "record_decode env body = Inr r"
    using scan_written_frame [OF assms(1) f(2) d Cons.prems(4)] by blast
  have le: "off + length f \<le> length bs" using scan_entry_progress [OF b(1)] by simp
  have rest: "drop (off + length f) bs = concat fs' @ t"
    using arg_cong [OF d, of "drop (length f)"] by (simp add: add.commute)
  have slice: "byte_slice bs off (off + length f) = f" by (simp add: byte_slice_def d)
  show ?case
    by (subst stream_loop.simps)
      (auto simp: b slice items_of_def x f(1) Let_def Cons.IH [OF f(3) rest Cons.prems(3) le, unfolded items_of_def])
qed

lemma stream_items_append:
  "stream_items a (xs @ ys) st =
    (case stream_items a xs st of (done, st') \<Rightarrow> if done then (True, st') else stream_items a ys st')"
  by (induction a xs st rule: stream_items.induct) auto

lemma stream_segments_written:
  assumes "codec_ok env" "torn_tail env t" "written_segments env d segs gs t"
  shows "\<exists>fs. framed env (concat (map snd gs)) fs \<and>
    stream_segments env d a segs st = Inr (snd (stream_items a (items_of (concat (map snd gs)) fs) st))"
  using assms(3)
proof (induction segs arbitrary: gs st)
  case Nil
  then show ?case by (cases gs) (auto simp: framed_def items_of_def)
next
  case (Cons seg segs)
  obtain h es gs' where gs: "gs = (h, es) # gs'" using Cons.prems by (cases gs) auto
  let ?t = "if segs = [] then t else []"
  obtain fs where fs: "framed env es fs"
    "map_of d (seg_path seg) = Some (encode_segment_header env h @ concat fs @ ?t)"
    "if segs = [] then gs' = [] else written_segments env d segs gs' t"
    using Cons.prems by (auto simp: gs framed_iff)
  have "torn_tail env ?t" using assms(2) by (simp add: torn_tail_def)
  then have loop: "stream_loop env (encode_segment_header env h @ concat fs @ ?t) a SEGMENT_HEADER_LEN st =
      Inr (stream_items a (items_of es fs) st)" for st
    by (intro stream_loop_written [OF assms(1) fs(1)]) (simp_all add: SEGMENT_HEADER_LEN_def)
  obtain fin st' where it: "stream_items a (items_of es fs) st = (fin, st')" by force
  show ?case
  proof (cases "segs = []")
    case True
    then show ?thesis
      using fs it by (intro exI [of _ fs]) (simp add: gs dir_read_def loop [unfolded if_P [OF True]])
  next
    case False
    then obtain fs' where fs': "framed env (concat (map snd gs')) fs'"
      "stream_segments env d a segs st' = Inr (snd (stream_items a (items_of (concat (map snd gs')) fs') st'))"
      using fs(3) Cons.IH [of gs' st'] by auto
    have "length es = length fs" using fs(1) by (auto simp: framed_def dest: list_all2_lengthD)
    then have "items_of (concat (map snd gs)) (fs @ fs') = items_of es fs @ items_of (concat (map snd gs')) fs'"
      by (simp add: gs items_of_def)
    moreover have "framed env (concat (map snd gs)) (fs @ fs')"
      using fs(1) fs'(1) by (simp add: gs framed_def list_all2_appendI)
    ultimately show ?thesis
      using fs(2) fs'(2) it False
      by (intro exI [of _ "fs @ fs'"]) (simp add: dir_read_def loop [unfolded if_not_P [OF False], simplified] stream_items_append)
  qed
qed

text \<open>On consecutive ids the stream takes a run that starts right after \<open>after_tx\<close>.\<close>

lemma stream_items_skip:
  "\<forall>(tx, f) \<in> set xs. tx \<le> a \<Longrightarrow> stream_items a (xs @ ys) st = stream_items a ys st"
  by (induction xs) auto

lemma stream_items_run:
  assumes "consecutive (st_last_tx st # map fst xs)" "a \<le> st_last_tx st"
  shows "\<exists>k. k \<le> length xs \<and> (st_frames st = [] \<and> xs \<noteq> [] \<longrightarrow> 0 < k) \<and>
    st_frames (snd (stream_items a xs st)) = st_frames st @ map snd (take k xs)"
  using assms
proof (induction xs arbitrary: st)
  case (Cons x xs)
  obtain tx f where x: "x = (tx, f)" by (cases x)
  let ?st = "\<lparr>st_frames = st_frames st @ [f], st_last_tx = tx, st_budget = st_budget st - length f\<rparr>"
  have tx: "tx = st_last_tx st + 1" "a < tx" "consecutive (tx # map fst xs)"
    using Cons.prems by (auto simp: x intro: order.strict_trans1)
  show ?case
  proof (cases "st_frames st \<noteq> [] \<and> st_budget st < length f")
    case True
    then show ?thesis using tx by (intro exI [of _ 0]) (simp add: x)
  next
    case False
    obtain k where "k \<le> length xs" "st_frames (snd (stream_items a xs ?st)) = st_frames ?st @ map snd (take k xs)"
      using Cons.IH [of ?st] tx(3) less_imp_le [OF tx(2)] by auto
    then show ?thesis
      using False tx by (intro exI [of _ "Suc k"]) (auto simp: x)
  qed
qed auto


lemma consecutive_Cons: "consecutive (x # xs) \<Longrightarrow> \<forall>y \<in> set xs. x < y"
proof (induction xs arbitrary: x)
  case (Cons y ys)
  then show ?case by (auto intro: less_trans)
qed simp

lemma consecutive_drop: "consecutive xs \<Longrightarrow> consecutive (drop i xs)"
proof (induction xs arbitrary: i)
  case (Cons x xs)
  then show ?case by (cases i; cases xs) auto
qed simp

lemma consecutive_before: "consecutive xs \<Longrightarrow> i < length xs \<Longrightarrow> \<forall>y \<in> set (take i xs). y < xs ! i"
proof (induction xs arbitrary: i)
  case (Cons x xs)
  have "consecutive xs" using Cons.prems(1) by (cases xs) auto
  then show ?case
    using Cons consecutive_Cons [OF Cons.prems(1)] by (cases i) auto
qed simp

lemma stream_items_from:
  assumes "consecutive (map fst xs)" "i < length xs" "fst (xs ! i) = a + 1" "a < a + 1"
  shows "\<exists>k. 0 < k \<and> k \<le> length xs - i \<and>
    st_frames (snd (stream_items a xs \<lparr>st_frames = [], st_last_tx = a, st_budget = m\<rparr>)) =
      map snd (take k (drop i xs))"
proof -
  let ?st = "\<lparr>st_frames = [], st_last_tx = a, st_budget = m\<rparr>"
  have "y \<le> a" if "y < a + 1" for y
    using that succ_no_wrap [OF assms(4) refl] by (simp add: word_less_nat_alt word_le_nat_alt)
  then have "\<forall>(tx, f) \<in> set (take i xs). tx \<le> a"
    using consecutive_before [OF assms(1), of i] assms(2, 3) by (auto simp: take_map)
  then have skip: "stream_items a xs ?st = stream_items a (drop i xs) ?st"
    using stream_items_skip [of "take i xs" a "drop i xs"] by simp
  have "map fst (drop i xs) = (a + 1) # map fst (drop (Suc i) xs)"
    using assms(2, 3) by (simp add: Cons_nth_drop_Suc [symmetric])
  then have "consecutive (a # map fst (drop i xs))"
    using consecutive_drop [OF assms(1), of i] assms(4) by (simp add: drop_map)
  then show ?thesis
    using stream_items_run [of ?st "drop i xs" a] assms(2) by (auto simp: skip)
qed

lemma framed_take_drop: "framed env es fs \<Longrightarrow> framed env (take k (drop i es)) (take k (drop i fs))"
  by (simp add: framed_def)

section \<open>Properties of the primary\<close>

text \<open>
  C10: a semi-sync acknowledgment means a quorum.  Whatever the other tasks do between the turns of
  the barrier, when it lets an acknowledgment of a transaction out without degradation, at least
  \<open>quorum_total - 1\<close> distinct replica members hold the transaction durably, so that with the primary
  itself the configured quorum holds it.
\<close>

theorem barrier_quorum:
  assumes "primary_wf p" "po_semi_sync (rp_options p) = Some semi" "\<not> ss_degrade semi"
    and "\<forall>(others, timed_out) \<in> set turns. \<forall>q. primary_step\<^sup>*\<^sup>* q (others q)"
    and "visibility_barrier tx_id turns p = (Some (Inr ()), p')"
  shows "ss_quorum_total semi \<le>
    card {name. \<exists>h. bt_get (rp_sessions p') name = Some h \<and> tx_id \<le> rs_durable (rp_heap p' ! h)} + 1"
proof (cases "ss_quorum_total semi - 1 = 0")
  case False
  then have loop: "barrier_loop semi tx_id turns p = (Some (Inr ()), p')"
    using assms(2, 5) by (auto simp: visibility_barrier_def split: if_splits)
  then have "primary_wf p'" using barrier_loop_wf [OF assms(4, 1), of semi tx_id] by simp
  then show ?thesis
    using barrier_loop_ok [OF loop assms(3)] holding_card [of p' tx_id] by (simp add: primary_wf_def)
qed simp


text \<open>
  C34: a reconnect can disconnect the new session.  When a member reconnects before the task of its
  old session has ended, the end of the old task removes the entry of the new session: the new
  session keeps streaming, but every acknowledgment on it is dropped and it counts for no quorum.
\<close>

theorem reconnect_unregisters:
  assumes "primary_wf p" "accept hello member f l p = (Accepted h full, p1)"
    and "accept hello' member f' l' p1 = (Accepted h' full', p2)"
  shows "let p3 = session_end member p2 in
    h' < length (rp_heap p3) \<and> h' \<notin> snd ` set (rp_sessions p3) \<and> rp_heap (ack member a p3) = rp_heap p3"
proof -
  have wf2: "primary_wf p2"
    using accept_wf [OF accept_wf [OF assms(1), of hello member f l], of hello' member f' l'] assms(2, 3) by simp
  have h': "h' < length (rp_heap p2)" "bt_get (rp_sessions p2) member = Some h'"
    using assms(3) by (auto simp: accept_def Let_def bt_get_insert split: if_splits)
  let ?p3 = "session_end member p2"
  have none: "bt_get (rp_sessions ?p3) member = None"
    using wf2 by (simp add: session_end_def bt_get_remove primary_wf_def)
  have wf3: "primary_wf ?p3" by (rule primary_step_wf [OF primary_step.ended wf2])
  have "h' \<notin> snd ` set (rp_sessions ?p3)"
  proof
    assume "h' \<in> snd ` set (rp_sessions ?p3)"
    then obtain name where n: "(name, h') \<in> set (rp_sessions ?p3)" by auto
    then have "(name, h') \<in> set (rp_sessions p2)" "(member, h') \<in> set (rp_sessions p2)"
      using snd_bt_remove [of member "rp_sessions p2"] h'(2) wf2
      by (auto simp: session_end_def primary_wf_def bt_get_Some_iff)
    then have "name = member"
      using wf2 inj_onD [of snd "set (rp_sessions p2)" "(name, h')" "(member, h')"]
      by (simp add: primary_wf_def distinct_map)
    then show False using n none by (auto simp: bt_get_None_iff image_iff)
  qed
  then show ?thesis
    using h'(1) none by (auto simp: ack_def Let_def session_end_def)
qed

text \<open>
  C19: the replication stream has no gap and no duplicate.  The frames read after \<open>after_tx\<close> decode to
  records with the ids \<open>after_tx + 1\<close>, \<open>after_tx + 2\<close> and so on up to the returned id, without
  wrap-around, and more than one frame is returned only within the byte budget.
\<close>

theorem stream_contiguous:
  assumes "read_frames_after env d shard after_tx max_bytes = Inr (fs, new_last)"
  shows "unat new_last = unat after_tx + length fs \<and>
    (\<forall>i < length fs. \<exists>e r. decode_entry_frame env (fs ! i) = Inr (e, r) \<and>
      unat (rec_tx_id r) = unat after_tx + i + 1) \<and>
    (length fs \<le> 1 \<or> sum_list (map length fs) \<le> max_bytes)"
proof -
  let ?st = "\<lparr>st_frames = [], st_last_tx = after_tx, st_budget = max_bytes\<rparr>"
  obtain st where st: "stream_segments env d after_tx (list_segments d shard) ?st = Inr st"
    "fs = st_frames st" "new_last = st_last_tx st"
    using assms by (auto simp: read_frames_after_def result_simps)
  have "stream_ok env after_tx max_bytes ?st" by (simp add: stream_ok_def)
  then show ?thesis
    using stream_segments_ok [OF st(1)] st(2, 3) by (simp add: stream_ok_def)
qed

text \<open>
  C18: streaming makes progress.  On a log as the writer leaves it, with consecutive ids and possibly
  a torn last append, a replica whose next entry is in the log always gets at least that entry,
  however small the byte budget: the frames returned are those of a non-empty run of entries that
  starts with it.
\<close>

theorem stream_delivers:
  assumes "codec_ok env" "written_segments env d (list_segments d shard) gs t" "torn_tail env t"
    and "consecutive (map (\<lambda>(e, r). rec_tx_id r) (concat (map snd gs)))"
    and "i < length (concat (map snd gs))" "rec_tx_id (snd (concat (map snd gs) ! i)) = after_tx + 1"
    and "after_tx < after_tx + 1"
  shows "\<exists>k fs new_last. 0 < k \<and> k \<le> length (concat (map snd gs)) - i \<and>
    read_frames_after env d shard after_tx max_bytes = Inr (fs, new_last) \<and>
    framed env (take k (drop i (concat (map snd gs)))) fs"
proof -
  let ?es = "concat (map snd gs)"
  let ?st = "\<lparr>st_frames = [], st_last_tx = after_tx, st_budget = max_bytes\<rparr>"
  obtain fs where fs: "framed env ?es fs"
    "stream_segments env d after_tx (list_segments d shard) ?st = Inr (snd (stream_items after_tx (items_of ?es fs) ?st))"
    using stream_segments_written [OF assms(1, 3, 2), of after_tx ?st] by auto
  have len: "length fs = length ?es" using fs(1) by (simp add: framed_def list_all2_lengthD)
  have maps: "map fst (items_of ?es fs) = map (\<lambda>(e, r). rec_tx_id r) ?es" "map snd (items_of ?es fs) = fs"
    using len by (simp_all add: items_of_def)
  have "fst (items_of ?es fs ! i) = after_tx + 1"
    using assms(5, 6) len by (simp add: items_of_def case_prod_beta')
  then obtain k where k: "0 < k" "k \<le> length ?es - i"
    "st_frames (snd (stream_items after_tx (items_of ?es fs) ?st)) = map snd (take k (drop i (items_of ?es fs)))"
    using stream_items_from [of "items_of ?es fs" i after_tx max_bytes] assms(4, 5, 7) maps len
    by (auto simp: items_of_def)
  have "map snd (take k (drop i (items_of ?es fs))) = take k (drop i fs)"
    using maps(2) by (simp flip: drop_map take_map)
  then have "read_frames_after env d shard after_tx max_bytes =
      Inr (take k (drop i fs), st_last_tx (snd (stream_items after_tx (items_of ?es fs) ?st)))"
    using fs(2) k(3) by (simp add: read_frames_after_def)
  then show ?thesis using k(1, 2) framed_take_drop [OF fs(1), of k i] by blast
qed


section \<open>Instances\<close>

definition demo_semi :: SemiSyncRuntime where
  "demo_semi = \<lparr>ss_quorum_total = 2, ss_ack_timeout = 5000, ss_degrade = False\<rparr>"

definition demo_primary :: ReplicationPrimary where
  "demo_primary = primary_new 0 1 \<lparr>po_window_bytes = 64, po_semi_sync = Some demo_semi\<rparr>"

definition demo_hello :: ReplicaHello where
  "demo_hello = \<lparr>rh_shard_id = 0, rh_member_name = ''b'', rh_epoch = 1, rh_last_applied_tx_id = 4\<rparr>"

lemmas demo_primary_defs = demo_primary_def demo_semi_def demo_hello_def primary_new_def

lemma demo_primary_wf: "primary_wf demo_primary"
  unfolding demo_primary_def by (rule primary_new_wf)

theorem barrier_quorum_witness:
  "let turns = [(\<lambda>q. snd (accept demo_hello ''b'' (Some 1) 9 q), False),
      (ack ''b'' \<lparr>ra_epoch = 1, ra_applied_tx_id = 7, ra_durable_tx_id = 7\<rparr>, False)];
      p' = snd (visibility_barrier 7 turns demo_primary) in
    2 \<le> card {name. \<exists>h. bt_get (rp_sessions p') name = Some h \<and> 7 \<le> rs_durable (rp_heap p' ! h)} + 1"
proof -
  let ?turns = "[(\<lambda>q. snd (accept demo_hello ''b'' (Some 1) 9 q), False),
      (ack ''b'' \<lparr>ra_epoch = 1, ra_applied_tx_id = 7, ra_durable_tx_id = 7\<rparr>, False)]"
  have "visibility_barrier 7 ?turns demo_primary = (Some (Inr ()), snd (visibility_barrier 7 ?turns demo_primary))"
    by (simp add: demo_primary_defs visibility_barrier_def barrier_turn_def holding_def accept_def ack_def Let_def
      word_less_nat_alt word_le_nat_alt max_def)
  then show ?thesis
    using barrier_quorum [OF demo_primary_wf, of demo_semi ?turns 7 "snd (visibility_barrier 7 ?turns demo_primary)"]
    by (simp add: demo_primary_defs Let_def primary_step.acked primary_step.hello r_into_rtranclp)
qed


theorem reconnect_unregisters_witness:
  "let p1 = snd (accept demo_hello ''b'' (Some 1) 9 demo_primary); p2 = snd (accept demo_hello ''b'' (Some 1) 9 p1);
      p3 = session_end ''b'' p2 in
    1 < length (rp_heap p3) \<and> 1 \<notin> snd ` set (rp_sessions p3) \<and>
    rp_heap (ack ''b'' \<lparr>ra_epoch = 1, ra_applied_tx_id = 7, ra_durable_tx_id = 7\<rparr> p3) = rp_heap p3"
proof -
  have "accept demo_hello ''b'' (Some 1) 9 demo_primary = (Accepted 0 False, snd (accept demo_hello ''b'' (Some 1) 9 demo_primary))"
    "accept demo_hello ''b'' (Some 1) 9 (snd (accept demo_hello ''b'' (Some 1) 9 demo_primary)) =
      (Accepted 1 False, snd (accept demo_hello ''b'' (Some 1) 9 (snd (accept demo_hello ''b'' (Some 1) 9 demo_primary))))"
    by (simp_all add: demo_primary_defs accept_def Let_def sat_add_def word_less_nat_alt word_le_nat_alt)
  from reconnect_unregisters [OF demo_primary_wf this] show ?thesis by (simp add: Let_def)
qed

theorem stream_delivers_witness:
  "\<exists>k fs new_last. 0 < k \<and> k \<le> Suc (Suc 0) \<and> read_frames_after demo_env demo_dir 0 1 0 = Inr (fs, new_last) \<and>
    framed demo_env (take k [(0, demo_record 2), (4, demo_record 3)]) fs"
  using stream_delivers [OF demo_codec demo_written demo_torn, of 1 1 0]
  by (simp add: demo_record_def word_less_nat_alt)

theorem stream_contiguous_witness:
  "\<exists>fs new_last. read_frames_after demo_env demo_dir 0 1 100 = Inr (fs, new_last) \<and>
    unat new_last = 1 + length fs"
proof -
  obtain fs where "stream_segments demo_env demo_dir 1 (list_segments demo_dir 0)
      \<lparr>st_frames = [], st_last_tx = 1, st_budget = 100\<rparr> = Inr fs"
    using stream_segments_written [OF demo_codec demo_torn demo_written] by blast
  then obtain fs new_last where "read_frames_after demo_env demo_dir 0 1 100 = Inr (fs, new_last)"
    by (auto simp: read_frames_after_def)
  then show ?thesis using stream_contiguous [of demo_env demo_dir 0 1 100 fs new_last] by auto
qed

end
