(* ===== verification/Election.thy ===== *)
theory Election
  imports Replication
begin

text \<open>
  Primary election, \<open>src/crates/fluxum-server/src/election.rs\<close>: durable ballots, the vote rule, the
  answer to a vote request, one candidacy round with its promotion, and demotion.  The concurrent
  system is a step relation on the members of a replica set: the election task of a member and the
  task that answers vote requests share its ballot, and a candidacy reads the ballot, writes the file
  and writes the cached ballot in separate steps, as the code does.  Time, I/O outcomes and everything
  that does not touch a ballot are left open.
\<close>

section \<open>Ballots and the vote rule\<close>

record Ballot =
  bal_epoch :: u64
  voted_for :: string

record VoteRequest =
  vq_shard_id :: u32
  vq_member_name :: string
  vq_epoch :: u64
  vq_last_log_epoch :: u64
  vq_last_applied_tx_id :: u64

record VoteResponse =
  vr_epoch :: u64
  vr_granted :: bool

fun load_ballot :: "Ballot marker \<Rightarrow> Ballot option result" where
  "load_ballot NoMarker = Inr None"
| "load_ballot (Marker b) = Inr (Some b)"
| "load_ballot Garbled = Inl (Storage ''election.vote decode failed'')"

definition persist_ballot :: "io \<Rightarrow> Ballot \<Rightarrow> Ballot marker \<Rightarrow> unit result \<times> Ballot marker" where
  "persist_ballot io ballot m =
    (case rewrite_marker io ballot m of (ok, m') \<Rightarrow> (if ok then Inr () else Inl Io, m'))"

definition majority :: "nat \<Rightarrow> nat" where
  "majority members = members div 2 + 1"

text \<open>Tuples compare lexicographically.\<close>

definition head_less :: "u64 \<times> u64 \<Rightarrow> u64 \<times> u64 \<Rightarrow> bool" where
  "head_less a b = (fst a < fst b \<or> fst a = fst b \<and> snd a < snd b)"

definition decide_vote :: "u64 \<Rightarrow> Ballot option \<Rightarrow> u64 \<times> u64 \<Rightarrow> bool \<Rightarrow> VoteRequest \<Rightarrow> Ballot option" where
  "decide_vote acting_epoch ballot our_head hears_a_primary req =
    (if hears_a_primary then None
     else if vq_epoch req \<le> acting_epoch then None
     else if (case ballot of None \<Rightarrow> False
         | Some b \<Rightarrow> bal_epoch b \<ge> vq_epoch req \<and>
             \<not> (bal_epoch b = vq_epoch req \<and> voted_for b = vq_member_name req)) then None
     else if head_less (vq_last_log_epoch req, vq_last_applied_tx_id req) our_head then None
     else Some \<lparr>bal_epoch = vq_epoch req, voted_for = vq_member_name req\<rparr>)"

section \<open>The state of a member\<close>

record RoleState =
  role_primary :: bool
  role_epoch :: u64
  role_hint :: "string option"

definition role_set :: "bool \<Rightarrow> u64 \<Rightarrow> RoleState \<Rightarrow> RoleState" where
  "role_set primary epoch r = r\<lparr>role_primary := primary, role_epoch := max (role_epoch r) epoch\<rparr>"

text \<open>
  \<open>ElectionState\<close> with what its methods reach: the two marker files, the contact clock, the
  replication service and the log of the shard.  Times are milliseconds.
\<close>

record ElectionState =
  el_shard_id :: u32
  el_member_name :: string
  el_epoch_file :: "u64 marker"
  el_ballot_file :: "Ballot marker"
  el_role :: RoleState
  el_ballot :: "Ballot option"
  el_contact :: nat
  el_election_timeout :: nat
  el_max_staleness :: nat
  el_primary :: "ReplicationPrimary option"
  el_log_epoch :: u64
  el_durable :: "u64 option result"

definition election_new :: "u32 \<Rightarrow> string \<Rightarrow> u64 marker \<Rightarrow> Ballot marker \<Rightarrow> bool \<Rightarrow> u64 \<Rightarrow> nat \<Rightarrow> nat \<Rightarrow> nat \<Rightarrow>
    ReplicationPrimary option \<Rightarrow> u64 \<Rightarrow> u64 option result \<Rightarrow> ElectionState result" where
  "election_new shard_id member_name epoch_file ballot_file primary epoch election_timeout max_staleness now
      replication log_epoch durable =
    rbind (load_ballot ballot_file) (\<lambda>ballot. Inr
      \<lparr>el_shard_id = shard_id, el_member_name = member_name, el_epoch_file = epoch_file,
       el_ballot_file = ballot_file,
       el_role = \<lparr>role_primary = primary, role_epoch = epoch, role_hint = None\<rparr>, el_ballot = ballot,
       el_contact = now, el_election_timeout = election_timeout, el_max_staleness = max_staleness,
       el_primary = replication, el_log_epoch = log_epoch, el_durable = durable\<rparr>)"

definition read_is_stale :: "nat \<Rightarrow> ElectionState \<Rightarrow> bool" where
  "read_is_stale now st = (\<not> role_primary (el_role st) \<and> now - el_contact st > el_max_staleness st)"

definition note_contact :: "nat \<Rightarrow> ElectionState \<Rightarrow> ElectionState" where
  "note_contact now st = st\<lparr>el_contact := now\<rparr>"

definition acting :: "ElectionState \<Rightarrow> u64" where
  "acting st = (case load_epoch (el_epoch_file st) of Inr e \<Rightarrow> e | Inl _ \<Rightarrow> role_epoch (el_role st))"

definition durable_or_zero :: "ElectionState \<Rightarrow> u64" where
  "durable_or_zero st = (case el_durable st of Inr (Some tx) \<Rightarrow> tx | _ \<Rightarrow> 0)"

definition fenced :: "ElectionState \<Rightarrow> bool" where
  "fenced st = (case el_primary st of None \<Rightarrow> False | Some p \<Rightarrow> rp_fenced p)"

definition hears_a_primary :: "nat \<Rightarrow> ElectionState \<Rightarrow> bool" where
  "hears_a_primary now st =
    (if role_primary (el_role st) then \<not> fenced st else now - el_contact st < el_election_timeout st)"

definition balloted :: "ElectionState \<Rightarrow> u64" where
  "balloted st = (case el_ballot st of None \<Rightarrow> 0 | Some b \<Rightarrow> bal_epoch b)"

definition answer :: "nat \<Rightarrow> io \<Rightarrow> VoteRequest \<Rightarrow> ElectionState \<Rightarrow> VoteResponse \<times> ElectionState" where
  "answer now io req st =
    (let deny = (\<lambda>epoch. \<lparr>vr_epoch = epoch, vr_granted = False\<rparr>) in
     if vq_shard_id req \<noteq> el_shard_id st then (deny (acting st), st)
     else case decide_vote (acting st) (el_ballot st) (el_log_epoch st, durable_or_zero st)
         (hears_a_primary now st) req of
       Some grant \<Rightarrow>
         (case persist_ballot io grant (el_ballot_file st) of
            (Inl _, file) \<Rightarrow> (deny (acting st), st\<lparr>el_ballot_file := file\<rparr>)
          | (Inr _, file) \<Rightarrow>
              (\<lparr>vr_epoch = acting st, vr_granted = True\<rparr>,
               note_contact now (st\<lparr>el_ballot_file := file, el_ballot := Some grant\<rparr>)))
     | None \<Rightarrow> (deny (max (acting st) (balloted st)), st))"

definition self_grant :: "u64 \<Rightarrow> ElectionState \<Rightarrow> Ballot" where
  "self_grant epoch st = \<lparr>bal_epoch = epoch, voted_for = el_member_name st\<rparr>"

text \<open>The two effects of \<open>self_ballot\<close>: the file, then the cached ballot.\<close>

definition self_persist :: "io \<Rightarrow> u64 \<Rightarrow> ElectionState \<Rightarrow> bool \<times> ElectionState" where
  "self_persist io epoch st =
    (case persist_ballot io (self_grant epoch st) (el_ballot_file st) of
       (r, file) \<Rightarrow> (is_ok r, st\<lparr>el_ballot_file := file\<rparr>))"

definition self_cache :: "u64 \<Rightarrow> ElectionState \<Rightarrow> ElectionState" where
  "self_cache epoch st = st\<lparr>el_ballot := Some (self_grant epoch st)\<rparr>"

definition self_ballot :: "io \<Rightarrow> u64 \<Rightarrow> ElectionState \<Rightarrow> bool \<times> ElectionState" where
  "self_ballot io epoch st =
    (case self_persist io epoch st of (ok, st') \<Rightarrow> if ok then (True, self_cache epoch st') else (False, st'))"

definition next_epoch :: "ElectionState \<Rightarrow> u64" where
  "next_epoch st = max (acting st) (balloted st) + 1"

section \<open>Candidacy and demotion\<close>

definition vote_request :: "u64 \<Rightarrow> ElectionState \<Rightarrow> VoteRequest" where
  "vote_request epoch st =
    \<lparr>vq_shard_id = el_shard_id st, vq_member_name = el_member_name st, vq_epoch = epoch,
     vq_last_log_epoch = el_log_epoch st, vq_last_applied_tx_id = durable_or_zero st\<rparr>"

definition log_set_epoch :: "bool \<Rightarrow> u64 \<Rightarrow> ElectionState \<Rightarrow> bool \<times> ElectionState" where
  "log_set_epoch writer_alive epoch st =
    (if epoch < el_log_epoch st \<or> \<not> writer_alive then (False, st) else (True, st\<lparr>el_log_epoch := epoch\<rparr>))"

text \<open>REP-032: the epoch file, the writer's epoch, the replication service, then the role.\<close>

definition promote :: "io \<Rightarrow> bool \<Rightarrow> u64 \<Rightarrow> ElectionState \<Rightarrow> bool \<times> ElectionState" where
  "promote io writer_alive epoch st =
    (case persist_epoch io epoch (el_epoch_file st) of
       (Inl _, file) \<Rightarrow> (False, st\<lparr>el_epoch_file := file\<rparr>)
     | (Inr _, file) \<Rightarrow>
         (case log_set_epoch writer_alive epoch (st\<lparr>el_epoch_file := file\<rparr>) of
            (False, st') \<Rightarrow> (False, st')
          | (True, st') \<Rightarrow>
              (True, st'\<lparr>el_primary := map_option (adopt_epoch epoch) (el_primary st'),
                el_role := (role_set True epoch (el_role st'))\<lparr>role_hint := None\<rparr>\<rparr>)))"

text \<open>A response that did not arrive in time, or not at all, is \<open>None\<close>.\<close>

definition tally_votes :: "VoteResponse option list \<Rightarrow> nat" where
  "tally_votes responses = 1 + length (filter (\<lambda>r. case r of Some v \<Rightarrow> vr_granted v | None \<Rightarrow> False) responses)"

definition highest_seen :: "u64 \<Rightarrow> VoteResponse option list \<Rightarrow> u64" where
  "highest_seen epoch responses =
    fold (\<lambda>r h. case r of Some v \<Rightarrow> max h (vr_epoch v) | None \<Rightarrow> h) responses epoch"

definition conclude_candidacy :: "io \<Rightarrow> bool \<Rightarrow> u64 \<Rightarrow> VoteResponse option list \<Rightarrow> ElectionState \<Rightarrow>
    bool \<times> ElectionState" where
  "conclude_candidacy io writer_alive epoch responses st =
    (if highest_seen epoch responses > epoch
     then (False, st\<lparr>el_epoch_file := snd (persist_epoch io (highest_seen epoch responses) (el_epoch_file st))\<rparr>)
     else if tally_votes responses < majority (length responses + 1) then (False, st)
     else promote io writer_alive epoch st)"

definition run_candidacy :: "io \<Rightarrow> io \<Rightarrow> bool \<Rightarrow> VoteResponse option list \<Rightarrow> ElectionState \<Rightarrow> bool \<times> ElectionState" where
  "run_candidacy io1 io2 writer_alive responses st =
    (let epoch = next_epoch st in
     case self_ballot io1 epoch st of
       (False, st') \<Rightarrow> (False, st')
     | (True, st') \<Rightarrow> conclude_candidacy io2 writer_alive epoch responses st')"

definition demote :: "nat \<Rightarrow> io \<Rightarrow> ElectionState \<Rightarrow> ElectionState" where
  "demote now io st =
    (let epoch = (case el_primary st of None \<Rightarrow> role_epoch (el_role st) | Some p \<Rightarrow> rp_epoch p) in
     note_contact now (st\<lparr>el_epoch_file := snd (persist_epoch io epoch (el_epoch_file st)),
       el_role := role_set False epoch (el_role st)\<rparr>))"

text \<open>
  The outer loop of the election task once per turn: a primary parks until it is fenced and then
  demotes itself; a follower whose timer ran out stands for election.
\<close>

definition election_turn :: "nat \<Rightarrow> io \<Rightarrow> io \<Rightarrow> bool \<Rightarrow> VoteResponse option list \<Rightarrow> ElectionState \<Rightarrow> ElectionState" where
  "election_turn now io1 io2 writer_alive responses st =
    (if role_primary (el_role st) then (if fenced st then demote now io1 st else st)
     else if now - el_contact st < el_election_timeout st then st
     else case run_candidacy io1 io2 writer_alive responses st of
       (True, st') \<Rightarrow> st'
     | (False, st') \<Rightarrow> note_contact now st')"

section \<open>The members of a replica set\<close>

text \<open>Where the election task of a member is.\<close>

datatype phase = Following | Proposed u64 | Persisted u64 | Asking u64 "string set"

text \<open>
  A grant names the voter, the epoch and the candidate.  \<open>sys_requests\<close>, \<open>sys_grants\<close> and
  \<open>sys_leaders\<close> record everything that was ever sent and won, so a message can be delayed,
  duplicated or lost.
\<close>

record system =
  sys_member :: "string \<Rightarrow> ElectionState"
  sys_phase :: "string \<Rightarrow> phase"
  sys_requests :: "VoteRequest set"
  sys_grants :: "(string \<times> u64 \<times> string) set"
  sys_leaders :: "(string \<times> u64) set"

definition upd_member :: "string \<Rightarrow> ElectionState \<Rightarrow> phase \<Rightarrow> system \<Rightarrow> system" where
  "upd_member m st ph s = s\<lparr>sys_member := (sys_member s)(m := st), sys_phase := (sys_phase s)(m := ph)\<rparr>"

definition do_propose :: "string \<Rightarrow> system \<Rightarrow> system" where
  "do_propose m s = upd_member m (sys_member s m) (Proposed (next_epoch (sys_member s m))) s"

definition do_persist :: "string \<Rightarrow> io \<Rightarrow> u64 \<Rightarrow> system \<Rightarrow> system" where
  "do_persist m io epoch s =
    (case self_persist io epoch (sys_member s m) of
       (ok, st) \<Rightarrow> upd_member m st (if ok then Persisted epoch else Following) s)"

definition do_cache :: "string \<Rightarrow> u64 \<Rightarrow> system \<Rightarrow> system" where
  "do_cache m epoch s =
    (let st = self_cache epoch (sys_member s m) in
     (upd_member m st (Asking epoch {m}) s)
       \<lparr>sys_requests := insert (vote_request epoch st) (sys_requests s),
        sys_grants := insert (m, epoch, m) (sys_grants s)\<rparr>)"

definition do_answer :: "string \<Rightarrow> nat \<Rightarrow> io \<Rightarrow> VoteRequest \<Rightarrow> system \<Rightarrow> system" where
  "do_answer m now io req s =
    (case answer now io req (sys_member s m) of
       (resp, st) \<Rightarrow> (upd_member m st (sys_phase s m) s)
         \<lparr>sys_grants := (if vr_granted resp then insert (m, vq_epoch req, vq_member_name req) (sys_grants s)
            else sys_grants s)\<rparr>)"

definition do_count :: "string \<Rightarrow> u64 \<Rightarrow> string set \<Rightarrow> string \<Rightarrow> system \<Rightarrow> system" where
  "do_count c epoch votes voter s = upd_member c (sys_member s c) (Asking epoch (insert voter votes)) s"

definition do_promote :: "string \<Rightarrow> io \<Rightarrow> bool \<Rightarrow> u64 \<Rightarrow> system \<Rightarrow> system" where
  "do_promote c io writer_alive epoch s =
    (case promote io writer_alive epoch (sys_member s c) of
       (won, st) \<Rightarrow> (upd_member c st Following s)
         \<lparr>sys_leaders := (if won then insert (c, epoch) (sys_leaders s) else sys_leaders s)\<rparr>)"

definition is_quorum :: "string list \<Rightarrow> string set \<Rightarrow> bool" where
  "is_quorum members q = (q \<subseteq> set members \<and> majority (card (set members)) \<le> card q)"

text \<open>
  With \<open>serial\<close>, no vote is answered while the same member's candidacy is between reading and
  writing its ballot, and the epoch counter does not wrap around.  The code is the relation without
  it.
\<close>

inductive election_step :: "bool \<Rightarrow> string list \<Rightarrow> system \<Rightarrow> system \<Rightarrow> bool" for serial members where
  propose: "\<lbrakk>m \<in> set members; sys_phase s m = Following;
    serial \<longrightarrow> max (acting (sys_member s m)) (balloted (sys_member s m)) \<noteq> - 1\<rbrakk> \<Longrightarrow>
    election_step serial members s (do_propose m s)"
| persist: "\<lbrakk>m \<in> set members; sys_phase s m = Proposed epoch\<rbrakk> \<Longrightarrow>
    election_step serial members s (do_persist m io epoch s)"
| cache: "\<lbrakk>m \<in> set members; sys_phase s m = Persisted epoch\<rbrakk> \<Longrightarrow>
    election_step serial members s (do_cache m epoch s)"
| vote: "\<lbrakk>m \<in> set members; req \<in> sys_requests s;
    serial \<longrightarrow> (\<forall>epoch. sys_phase s m \<noteq> Proposed epoch \<and> sys_phase s m \<noteq> Persisted epoch)\<rbrakk> \<Longrightarrow>
    election_step serial members s (do_answer m now io req s)"
| count: "\<lbrakk>sys_phase s c = Asking epoch votes; (voter, epoch, c) \<in> sys_grants s\<rbrakk> \<Longrightarrow>
    election_step serial members s (do_count c epoch votes voter s)"
| win: "\<lbrakk>c \<in> set members; sys_phase s c = Asking epoch votes; majority (card (set members)) \<le> card votes\<rbrakk> \<Longrightarrow>
    election_step serial members s (do_promote c io writer_alive epoch s)"
| lose: "sys_phase s c = Asking epoch votes \<Longrightarrow>
    election_step serial members s (upd_member c (sys_member s c) Following s)"
| environment: "\<lbrakk>el_ballot st = el_ballot (sys_member s m); el_ballot_file st = el_ballot_file (sys_member s m);
    el_member_name st = el_member_name (sys_member s m)\<rbrakk> \<Longrightarrow>
    election_step serial members s (upd_member m st (sys_phase s m) s)"
| restart: "\<lbrakk>load_ballot (el_ballot_file (sys_member s m)) = Inr b; el_ballot st = b;
    el_ballot_file st = el_ballot_file (sys_member s m); el_member_name st = el_member_name (sys_member s m)\<rbrakk> \<Longrightarrow>
    election_step serial members s (upd_member m st Following s)"

definition initial_system :: "(string \<Rightarrow> ElectionState) \<Rightarrow> system" where
  "initial_system f = \<lparr>sys_member = f, sys_phase = (\<lambda>_. Following), sys_requests = {}, sys_grants = {},
    sys_leaders = {}\<rparr>"

text \<open>A sample set of three members, and a campaign of one of them that another one supports.\<close>

definition demo_member :: "string \<Rightarrow> ElectionState" where
  "demo_member m = \<lparr>el_shard_id = 0, el_member_name = m, el_epoch_file = NoMarker, el_ballot_file = NoMarker,
    el_role = \<lparr>role_primary = False, role_epoch = 1, role_hint = None\<rparr>, el_ballot = None, el_contact = 0,
    el_election_timeout = 1000, el_max_staleness = 5000, el_primary = None, el_log_epoch = 1, el_durable = Inr (Some 7)\<rparr>"

abbreviation demo_set :: "string list" where
  "demo_set \<equiv> [''a'', ''b'', ''c'']"

definition campaign :: "string \<Rightarrow> string \<Rightarrow> system \<Rightarrow> system" where
  "campaign c v s =
    (let s1 = do_cache c 2 (do_persist c IoOk 2 s);
         s2 = do_answer v 2000 IoOk (vote_request 2 (sys_member s1 c)) s1
     in do_promote c IoOk True 2 (do_count c 2 {c} v s2))"

section \<open>Quorums meet\<close>

text \<open>What the election needs of a notion of quorum, and what it gives.\<close>

locale quorum_system =
  fixes quorum :: "'m set \<Rightarrow> bool"
  assumes quorums_meet: "quorum a \<Longrightarrow> quorum b \<Longrightarrow> a \<inter> b \<noteq> {}"
begin

lemma one_choice:
  assumes "quorum a" "quorum b" "\<And>v. v \<in> a \<Longrightarrow> P v x" "\<And>v. v \<in> b \<Longrightarrow> P v y"
    and "\<And>v. P v x \<Longrightarrow> P v y \<Longrightarrow> x = y"
  shows "x = y"
  using quorums_meet [OF assms(1, 2)] assms(3-5) by blast

lemma common_voter: "quorum a \<Longrightarrow> quorum b \<Longrightarrow> \<exists>v. v \<in> a \<and> v \<in> b"
  using quorums_meet by blast

end

interpretation mq: quorum_system "is_quorum members" for members
proof
  fix a b assume "is_quorum members a" "is_quorum members b"
  then have ab: "a \<union> b \<subseteq> set members" "card (set members) < card a + card b" and fin: "finite a" "finite b"
    by (auto simp: is_quorum_def majority_def intro: finite_subset)
  show "a \<inter> b \<noteq> {}"
  proof
    assume "a \<inter> b = {}"
    then have "card a + card b = card (a \<union> b)" using fin by (simp add: card_Un_disjoint)
    also have "\<dots> \<le> card (set members)" using ab(1) by (simp add: card_mono)
    finally show False using ab(2) by simp
  qed
qed

section \<open>One vote per member and epoch\<close>

lemma decide_vote_Some:
  "decide_vote acting_epoch ballot head hears req = Some g \<longleftrightarrow>
    \<not> hears \<and> acting_epoch < vq_epoch req \<and>
    (\<forall>b. ballot = Some b \<longrightarrow> bal_epoch b < vq_epoch req \<or> b = \<lparr>bal_epoch = vq_epoch req, voted_for = vq_member_name req\<rparr>) \<and>
    \<not> head_less (vq_last_log_epoch req, vq_last_applied_tx_id req) head \<and>
    g = \<lparr>bal_epoch = vq_epoch req, voted_for = vq_member_name req\<rparr>"
  by (cases ballot) (auto simp: decide_vote_def not_le not_less)

text \<open>A ballot covers a grant of its member: the grant is of an earlier epoch, or it is this ballot.\<close>

definition covers :: "Ballot option \<Rightarrow> u64 \<Rightarrow> string \<Rightarrow> bool" where
  "covers b epoch c = (\<exists>x. b = Some x \<and> (epoch < bal_epoch x \<or> x = \<lparr>bal_epoch = epoch, voted_for = c\<rparr>))"

definition member_ok :: "(string \<times> u64 \<times> string) set \<Rightarrow> string \<Rightarrow> ElectionState \<Rightarrow> phase \<Rightarrow> bool" where
  "member_ok grants m st ph =
    ((\<forall>epoch c. (m, epoch, c) \<in> grants \<longrightarrow> covers (el_ballot st) epoch c \<and>
       (el_ballot_file st = Garbled \<or> (\<exists>x. el_ballot_file st = Marker x \<and> covers (Some x) epoch c))) \<and>
     (\<forall>epoch. ph = Proposed epoch \<or> ph = Persisted epoch \<longrightarrow>
       (\<forall>epoch' c. (m, epoch', c) \<in> grants \<longrightarrow> epoch' < epoch)) \<and>
     (\<forall>epoch. ph = Persisted epoch \<longrightarrow> el_ballot_file st = Marker \<lparr>bal_epoch = epoch, voted_for = m\<rparr>) \<and>
     (\<forall>epoch votes. ph = Asking epoch votes \<longrightarrow> (\<forall>v \<in> votes. (v, epoch, m) \<in> grants)) \<and>
     el_member_name st = m)"

definition election_inv :: "string list \<Rightarrow> system \<Rightarrow> bool" where
  "election_inv members s =
    ((\<forall>m. member_ok (sys_grants s) m (sys_member s m) (sys_phase s m)) \<and>
     (\<forall>m epoch c c'. (m, epoch, c) \<in> sys_grants s \<and> (m, epoch, c') \<in> sys_grants s \<longrightarrow> c = c') \<and>
     (\<forall>m epoch c. (m, epoch, c) \<in> sys_grants s \<longrightarrow> m \<in> set members) \<and>
     (\<forall>c epoch. (c, epoch) \<in> sys_leaders s \<longrightarrow>
       (\<exists>q. is_quorum members q \<and> (\<forall>v \<in> q. (v, epoch, c) \<in> sys_grants s))))"

lemma covers_later:
  "covers b epoch c \<Longrightarrow> (\<forall>x. b = Some x \<longrightarrow> bal_epoch x < bal_epoch g \<or> x = g) \<Longrightarrow> covers (Some g) epoch c"
  by (auto simp: covers_def)

lemma covers_self: "g = \<lparr>bal_epoch = epoch, voted_for = c\<rparr> \<Longrightarrow> covers (Some g) epoch c"
  by (simp add: covers_def)

lemma member_ok_other:
  assumes ok: "member_ok g m st ph" and "g \<subseteq> g'" and old: "\<And>e c. (m, e, c) \<in> g' \<longleftrightarrow> (m, e, c) \<in> g"
  shows "member_ok g' m st ph"
  using ok \<open>g \<subseteq> g'\<close> unfolding member_ok_def old by (auto 0 3)

lemma upd_member_simps [simp]:
  "sys_member (upd_member m st ph s) = (sys_member s)(m := st)"
  "sys_phase (upd_member m st ph s) = (sys_phase s)(m := ph)"
  "sys_requests (upd_member m st ph s) = sys_requests s"
  "sys_grants (upd_member m st ph s) = sys_grants s"
  "sys_leaders (upd_member m st ph s) = sys_leaders s"
  by (simp_all add: upd_member_def)

text \<open>A step that changes one member and adds grants of that member only.\<close>

lemma election_inv_upd:
  assumes inv: "election_inv members s"
    and upd: "sys_member s' = (sys_member s)(m := st)" "sys_phase s' = (sys_phase s)(m := ph)"
    and more: "sys_grants s \<subseteq> sys_grants s'"
    and new: "\<And>m' e c. (m', e, c) \<in> sys_grants s' \<Longrightarrow> (m', e, c) \<in> sys_grants s \<or>
      m' = m \<and> m \<in> set members \<and> (\<forall>c'. (m, e, c') \<in> sys_grants s' \<longrightarrow> c' = c)"
    and ok: "member_ok (sys_grants s') m st ph"
    and leaders: "\<And>c e. (c, e) \<in> sys_leaders s' \<Longrightarrow> (c, e) \<in> sys_leaders s \<or>
      (\<exists>q. is_quorum members q \<and> (\<forall>v \<in> q. (v, e, c) \<in> sys_grants s))"
  shows "election_inv members s'"
  unfolding election_inv_def
proof (intro conjI allI impI)
  fix m'
  show "member_ok (sys_grants s') m' (sys_member s' m') (sys_phase s' m')"
  proof (cases "m' = m")
    case True
    then show ?thesis using ok by (simp add: upd)
  next
    case False
    have "member_ok (sys_grants s) m' (sys_member s m') (sys_phase s m')"
      using inv by (simp add: election_inv_def)
    moreover have "(m', e, c) \<in> sys_grants s' \<longleftrightarrow> (m', e, c) \<in> sys_grants s" for e c
      using new [of m' e c] more False by blast
    ultimately show ?thesis
      using False more by (simp add: upd member_ok_other)
  qed
next
  fix m' e c c'
  assume a: "(m', e, c) \<in> sys_grants s' \<and> (m', e, c') \<in> sys_grants s'"
  have "(m', e, c) \<in> sys_grants s \<and> (m', e, c') \<in> sys_grants s \<longrightarrow> c = c'"
    using inv unfolding election_inv_def by blast
  then show "c = c'" using new [of m' e c] new [of m' e c'] a by blast
next
  fix m' e c
  assume "(m', e, c) \<in> sys_grants s'"
  moreover have "(m', e, c) \<in> sys_grants s \<longrightarrow> m' \<in> set members"
    using inv unfolding election_inv_def by blast
  ultimately show "m' \<in> set members" using new [of m' e c] by blast
next
  fix c e
  assume "(c, e) \<in> sys_leaders s'"
  moreover have "(c, e) \<in> sys_leaders s \<longrightarrow> (\<exists>q. is_quorum members q \<and> (\<forall>v \<in> q. (v, e, c) \<in> sys_grants s))"
    using inv unfolding election_inv_def by blast
  ultimately have "\<exists>q. is_quorum members q \<and> (\<forall>v \<in> q. (v, e, c) \<in> sys_grants s)"
    using leaders [of c e] by blast
  then show "\<exists>q. is_quorum members q \<and> (\<forall>v \<in> q. (v, e, c) \<in> sys_grants s')"
    using more by blast
qed

lemma member_ok_inv: "election_inv members s \<Longrightarrow> member_ok (sys_grants s) m (sys_member s m) (sys_phase s m)"
  by (simp add: election_inv_def)

lemma word_succ_gt:
  assumes "(a :: u64) \<noteq> - 1"
  shows "a < a + 1"
proof -
  have "unat a \<noteq> 2 ^ 64 - 1" using assms unat_max [where 'a = 64] by (simp add: word_unat_eq_iff)
  then have "unat a + 1 < 2 ^ 64" using unat_bound [of a] by simp
  then show ?thesis by (simp add: word_less_nat_alt unat_word_ariths)
qed

lemma propose_ok:
  assumes "member_ok g m st ph" "max (acting st) (balloted st) \<noteq> - 1"
  shows "member_ok g m st (Proposed (next_epoch st))"
proof -
  have "balloted st < next_epoch st"
    unfolding next_epoch_def using word_succ_gt [OF assms(2)] by (metis max.cobounded2 order.strict_trans1)
  then have "e < next_epoch st" if "(m, e, c) \<in> g" for e c
    using assms(1) that by (auto simp: member_ok_def covers_def balloted_def dest!: spec intro: less_trans)
  then show ?thesis using assms(1) by (auto simp: member_ok_def)
qed

lemma persist_ok:
  assumes "member_ok g m st (Proposed e)" "self_persist io e st = (ok, st')"
  shows "member_ok g m st' (if ok then Persisted e else Following)"
proof -
  have "covers (Some \<lparr>bal_epoch = e, voted_for = m\<rparr>) e' c" if "(m, e', c) \<in> g" for e' c
    using assms(1) that by (auto simp: member_ok_def covers_def)
  then show ?thesis
    using assms by (cases io) (auto simp: member_ok_def self_persist_def persist_ballot_def self_grant_def)
qed

lemma cache_ok:
  assumes "member_ok g m st (Persisted e)"
  shows "member_ok (insert (m, e, m) g) m (self_cache e st) (Asking e {m})"
proof -
  have "e' < e" if "(m, e', c) \<in> g" for e' c using assms that by (auto simp: member_ok_def)
  then show ?thesis
    using assms by (auto simp: member_ok_def self_cache_def self_grant_def covers_def)
qed

lemma answer_ok:
  assumes ok: "member_ok g m st ph" and ans: "answer now io req st = (resp, st')"
    and ph: "\<And>e. ph \<noteq> Proposed e \<and> ph \<noteq> Persisted e"
  shows "member_ok (if vr_granted resp then insert (m, vq_epoch req, vq_member_name req) g else g) m st' ph"
    and "vr_granted resp \<Longrightarrow> (m, vq_epoch req, c) \<in> g \<Longrightarrow> c = vq_member_name req"
proof -
  let ?g = "\<lparr>bal_epoch = vq_epoch req, voted_for = vq_member_name req\<rparr>"
  let ?d = "decide_vote (acting st) (el_ballot st) (el_log_epoch st, durable_or_zero st) (hears_a_primary now st) req"
  consider (deny) "st' = st" "\<not> vr_granted resp"
    | (failed) "st' = st\<lparr>el_ballot_file := snd (persist_ballot io ?g (el_ballot_file st))\<rparr>" "\<not> vr_granted resp"
        "io \<noteq> IoOk" "?d = Some ?g"
    | (grant) "st' = note_contact now (st\<lparr>el_ballot_file := Marker ?g, el_ballot := Some ?g\<rparr>)" "vr_granted resp"
        "?d = Some ?g"
  proof (cases ?d)
    case None
    then show ?thesis using ans that(1) by (auto simp: answer_def Let_def split: if_splits)
  next
    case (Some x)
    then have "x = ?g" by (simp add: decide_vote_Some)
    then show ?thesis
      using ans that Some
      by (cases io) (auto simp: answer_def Let_def persist_ballot_def split: if_splits)
  qed
  note cases = this
  have later: "\<forall>x. el_ballot st = Some x \<longrightarrow> bal_epoch x < bal_epoch ?g \<or> x = ?g" if "?d = Some ?g"
    using that unfolding decide_vote_Some by auto
  have cov: "covers (Some ?g) e c" if "?d = Some ?g" "(m, e, c) \<in> g" for e c
  proof (rule covers_later [OF _ later])
    show "covers (el_ballot st) e c" using ok that(2) by (simp add: member_ok_def)
  qed (rule that(1))
  from cases show "member_ok (if vr_granted resp then insert (m, vq_epoch req, vq_member_name req) g else g) m st' ph"
  proof cases
    case deny
    then show ?thesis using ok by simp
  next
    case failed
    then show ?thesis
      using ok ph cov by (cases io) (auto simp: member_ok_def persist_ballot_def)
  next
    case grant
    then show ?thesis
      using ok ph cov covers_self [of ?g] by (auto simp: member_ok_def note_contact_def)
  qed
  assume "vr_granted resp" "(m, vq_epoch req, c) \<in> g"
  then show "c = vq_member_name req"
    using cases cov [of "vq_epoch req" c] by (auto simp: covers_def)
qed

lemma count_ok:
  "member_ok g c st (Asking e votes) \<Longrightarrow> (voter, e, c) \<in> g \<Longrightarrow> member_ok g c st (Asking e (insert voter votes))"
  by (auto simp: member_ok_def)

lemma promote_keeps_ballot:
  "el_ballot (snd (promote io w e st)) = el_ballot st \<and>
   el_ballot_file (snd (promote io w e st)) = el_ballot_file st \<and>
   el_member_name (snd (promote io w e st)) = el_member_name st"
  by (auto simp: promote_def log_set_epoch_def split: prod.splits sum.splits bool.splits if_splits)

lemma same_ballot_ok:
  assumes "member_ok g m st ph" "el_ballot st' = el_ballot st" "el_ballot_file st' = el_ballot_file st"
    and "el_member_name st' = el_member_name st"
  shows "member_ok g m st' ph" "member_ok g m st' Following"
  using assms by (auto simp: member_ok_def)

lemma restart_ok:
  assumes "member_ok g m st ph" "load_ballot (el_ballot_file st) = Inr (el_ballot st')"
    and "el_ballot_file st' = el_ballot_file st" "el_member_name st' = el_member_name st"
  shows "member_ok g m st' Following"
  using assms by (cases "el_ballot_file st") (auto simp: member_ok_def)

lemma election_step_inv:
  "election_step True members s s' \<Longrightarrow> election_inv members s \<Longrightarrow> election_inv members s'"
proof (induction rule: election_step.induct)
  case (propose m s)
  then show ?case
    using propose_ok [OF member_ok_inv [OF propose.prems]]
    by (intro election_inv_upd [OF propose.prems]) (auto simp: do_propose_def)
next
  case (persist m s epoch io)
  obtain ok st where p: "self_persist io epoch (sys_member s m) = (ok, st)" by force
  show ?case
    using persist_ok [OF member_ok_inv [OF persist.prems, of m, unfolded persist.hyps] p]
    by (intro election_inv_upd [OF persist.prems]) (auto simp: do_persist_def p)
next
  case (cache m s epoch)
  let ?s = "do_cache m epoch s"
  have ok: "member_ok (sys_grants s) m (sys_member s m) (Persisted epoch)"
    using member_ok_inv [OF cache.prems, of m] cache.hyps by simp
  then have "(m, epoch, c) \<notin> sys_grants s" for c by (auto simp: member_ok_def)
  then show ?case
    using cache_ok [OF ok] cache.hyps
    by (intro election_inv_upd [OF cache.prems, where m = m]) (auto simp: do_cache_def Let_def)
next
  case (vote m req s now io)
  obtain resp st where a: "answer now io req (sys_member s m) = (resp, st)" by force
  have ph: "\<And>e. sys_phase s m \<noteq> Proposed e \<and> sys_phase s m \<noteq> Persisted e" using vote.hyps by blast
  note ok = answer_ok [OF member_ok_inv [OF vote.prems] a ph]
  show ?case
    using ok vote.hyps
    by (intro election_inv_upd [OF vote.prems, where m = m]) (auto simp: do_answer_def a split: if_splits)
next
  case (count s c epoch votes voter)
  then show ?case
    using count_ok [OF member_ok_inv [OF count.prems, of c, unfolded count.hyps]]
    by (intro election_inv_upd [OF count.prems]) (auto simp: do_count_def)
next
  case (win c s epoch votes io writer_alive)
  obtain won st where p: "promote io writer_alive epoch (sys_member s c) = (won, st)" by force
  have ok: "member_ok (sys_grants s) c (sys_member s c) (Asking epoch votes)"
    using member_ok_inv [OF win.prems, of c] win.hyps by simp
  then have v: "\<forall>v \<in> votes. (v, epoch, c) \<in> sys_grants s" by (simp add: member_ok_def)
  then have "votes \<subseteq> set members" using win.prems unfolding election_inv_def by blast
  then have q: "is_quorum members votes" using win.hyps by (simp add: is_quorum_def)
  have "member_ok (sys_grants s) c st Following"
    using same_ballot_ok(2) [OF ok, of st] promote_keeps_ballot [of io writer_alive epoch "sys_member s c"] p by simp
  then show ?case
    using v q by (intro election_inv_upd [OF win.prems]) (auto simp: do_promote_def p split: if_splits)
next
  case (lose s c epoch votes)
  then show ?case
    using same_ballot_ok(2) [OF member_ok_inv [OF lose.prems] refl refl refl]
    by (intro election_inv_upd [OF lose.prems]) auto
next
  case (environment st s m)
  then show ?case
    using same_ballot_ok(1) [OF member_ok_inv [OF environment.prems] environment.hyps]
    by (intro election_inv_upd [OF environment.prems]) auto
next
  case (restart s m b st)
  then show ?case
    using restart_ok [OF member_ok_inv [OF restart.prems], of m st]
    by (intro election_inv_upd [OF restart.prems]) auto
qed

lemma election_steps_inv:
  "(election_step True members)\<^sup>*\<^sup>* s s' \<Longrightarrow> election_inv members s \<Longrightarrow> election_inv members s'"
  by (induction rule: rtranclp_induct) (auto intro: election_step_inv)

lemma initial_inv: "\<forall>m. el_member_name (f m) = m \<Longrightarrow> election_inv members (initial_system f)"
  by (simp add: election_inv_def initial_system_def member_ok_def)

section \<open>Properties of the election\<close>

text \<open>
  C4: at most one primary per epoch, as long as no vote is answered inside a candidacy's own
  read-and-write of its ballot.  From members with arbitrary markers and roles, over any interleaving
  of candidacies, votes, failing ballot writes, crashes with restart from disk and arbitrary
  replication activity, and with messages delayed, duplicated or lost, two members that were promoted
  in the same epoch are the same member.
\<close>

theorem one_leader_per_epoch:
  assumes "\<forall>m. el_member_name (f m) = m" "(election_step True members)\<^sup>*\<^sup>* (initial_system f) s"
    and "(c, epoch) \<in> sys_leaders s" "(c', epoch) \<in> sys_leaders s"
  shows "c = c'"
proof -
  have inv: "election_inv members s"
    using election_steps_inv [OF assms(2) initial_inv [OF assms(1)]] .
  obtain q q' where q: "is_quorum members q" "\<forall>v \<in> q. (v, epoch, c) \<in> sys_grants s"
    "is_quorum members q'" "\<forall>v \<in> q'. (v, epoch, c') \<in> sys_grants s"
    using inv assms(3, 4) unfolding election_inv_def by meson
  show ?thesis
    by (rule mq.one_choice [OF q(1, 3), of "\<lambda>v c. (v, epoch, c) \<in> sys_grants s"])
      (use q(2, 4) inv in \<open>auto simp: election_inv_def\<close>)
qed

lemma demo_answer:
  assumes "el_shard_id st = 0" "el_log_epoch st = 1" "el_durable st = Inr (Some 7)"
  shows "answer 2000 IoOk (vote_request 2 st) (demo_member v) =
    (\<lparr>vr_epoch = 1, vr_granted = True\<rparr>, (demo_member v)\<lparr>el_ballot_file := Marker \<lparr>bal_epoch = 2, voted_for = el_member_name st\<rparr>,
      el_ballot := Some \<lparr>bal_epoch = 2, voted_for = el_member_name st\<rparr>, el_contact := 2000\<rparr>)"
  using assms
  by (simp add: answer_def Let_def vote_request_def demo_member_def decide_vote_def acting_def hears_a_primary_def
    head_less_def durable_or_zero_def persist_ballot_def note_contact_def word_le_nat_alt)

lemma campaign_wins:
  assumes set: "c \<in> set demo_set" "v \<in> set demo_set" "c \<noteq> v"
    and ph: "sys_phase s c = Proposed 2"
      "serial \<longrightarrow> (\<forall>e. sys_phase s v \<noteq> Proposed e \<and> sys_phase s v \<noteq> Persisted e)"
    and v: "sys_member s v = demo_member v"
    and c: "el_shard_id (sys_member s c) = 0" "el_log_epoch (sys_member s c) = 1"
      "el_durable (sys_member s c) = Inr (Some 7)" "el_member_name (sys_member s c) = c"
  shows "(election_step serial demo_set)\<^sup>*\<^sup>* s (campaign c v s)"
    and "sys_leaders (campaign c v s) = insert (c, 2) (sys_leaders s)"
    and "w \<noteq> c \<Longrightarrow> sys_phase (campaign c v s) w = sys_phase s w"
    and "w \<noteq> c \<Longrightarrow> w \<noteq> v \<Longrightarrow> sys_member (campaign c v s) w = sys_member s w"
    and "sys_member (campaign c v s) v = (demo_member v)\<lparr>el_ballot_file := Marker \<lparr>bal_epoch = 2, voted_for = c\<rparr>,
      el_ballot := Some \<lparr>bal_epoch = 2, voted_for = c\<rparr>, el_contact := 2000\<rparr>"
proof -
  let ?b = "\<lparr>bal_epoch = 2, voted_for = c\<rparr>"
  let ?st = "(sys_member s c)\<lparr>el_ballot_file := Marker ?b, el_ballot := Some ?b\<rparr>"
  let ?sv = "(demo_member v)\<lparr>el_ballot_file := Marker ?b, el_ballot := Some ?b, el_contact := 2000\<rparr>"
  define s1 where "s1 = do_persist c IoOk 2 s"
  define s2 where "s2 = do_cache c 2 s1"
  define s3 where "s3 = do_answer v 2000 IoOk (vote_request 2 (sys_member s2 c)) s2"
  define s4 where "s4 = do_count c 2 {c} v s3"
  define s5 where "s5 = do_promote c IoOk True 2 s4"
  have s1: "sys_phase s1 = (sys_phase s)(c := Persisted 2)" "sys_grants s1 = sys_grants s"
    "sys_member s1 = (sys_member s)(c := (sys_member s c)\<lparr>el_ballot_file := Marker ?b\<rparr>)"
    "sys_leaders s1 = sys_leaders s"
    by (simp_all add: s1_def do_persist_def self_persist_def persist_ballot_def self_grant_def c)
  have s2: "sys_phase s2 = (sys_phase s)(c := Asking 2 {c})" "sys_member s2 = (sys_member s)(c := ?st)"
    "vote_request 2 ?st \<in> sys_requests s2" "sys_grants s2 = insert (c, 2, c) (sys_grants s)"
    "sys_leaders s2 = sys_leaders s"
    by (simp_all add: s2_def s1 do_cache_def self_cache_def self_grant_def c Let_def)
  have "el_shard_id ?st = 0" "el_log_epoch ?st = 1" "el_durable ?st = Inr (Some 7)" using c by simp_all
  then have ans: "answer 2000 IoOk (vote_request 2 ?st) (demo_member v) = (\<lparr>vr_epoch = 1, vr_granted = True\<rparr>, ?sv)"
    using demo_answer [of ?st v] c by simp
  have s3: "sys_phase s3 = (sys_phase s)(c := Asking 2 {c})" "sys_member s3 = (sys_member s)(c := ?st, v := ?sv)"
    "(v, 2, c) \<in> sys_grants s3" "sys_leaders s3 = sys_leaders s"
    using set(3) ans by (auto simp: s3_def s2 do_answer_def v vote_request_def c)
  have s4: "sys_phase s4 = (sys_phase s)(c := Asking 2 {v, c})" "sys_member s4 = sys_member s3"
    "sys_leaders s4 = sys_leaders s"
    by (auto simp: s4_def s3 do_count_def)
  have s5: "sys_leaders s5 = insert (c, 2) (sys_leaders s)" "\<And>w. w \<noteq> c \<Longrightarrow> sys_phase s5 w = sys_phase s w"
    "\<And>w. w \<noteq> c \<Longrightarrow> sys_member s5 w = sys_member s3 w"
    using set(3) by (auto simp: s5_def s4 s3 do_promote_def promote_def persist_epoch_def log_set_epoch_def c word_less_nat_alt)
  have s: "campaign c v s = s5"
    by (simp add: campaign_def s1_def s2_def s3_def s4_def s5_def Let_def)
  have "election_step serial demo_set s s1" unfolding s1_def by (rule persist [OF set(1) ph(1)])
  moreover have "election_step serial demo_set s1 s2" unfolding s2_def by (rule cache [OF set(1)]) (simp add: s1)
  moreover have "election_step serial demo_set s2 s3"
    unfolding s3_def by (rule vote [OF set(2)]) (use s2 ph set(3) in auto)
  moreover have "election_step serial demo_set s3 s4" unfolding s4_def by (rule count) (simp_all add: s3)
  moreover have "election_step serial demo_set s4 s5"
    unfolding s5_def by (rule win [OF set(1)]) (use s4 set(3) in \<open>auto simp: majority_def\<close>)
  ultimately show "(election_step serial demo_set)\<^sup>*\<^sup>* s (campaign c v s)"
    unfolding s by (blast intro: converse_rtranclp_into_rtranclp)
  show "sys_leaders (campaign c v s) = insert (c, 2) (sys_leaders s)" by (simp add: s s5)
  show "w \<noteq> c \<Longrightarrow> sys_phase (campaign c v s) w = sys_phase s w" by (simp add: s s5)
  show "w \<noteq> c \<Longrightarrow> w \<noteq> v \<Longrightarrow> sys_member (campaign c v s) w = sys_member s w" by (simp add: s s5 s3)
  show "sys_member (campaign c v s) v = ?sv" using set(3) by (simp add: s s5 s3)
qed

lemma propose_demo:
  assumes "m \<in> set demo_set" "sys_phase s m = Following" "sys_member s m = demo_member m"
  shows "election_step serial demo_set s (upd_member m (demo_member m) (Proposed 2) s)"
proof -
  have "next_epoch (demo_member m) = 2" "max (acting (demo_member m)) (balloted (demo_member m)) \<noteq> - 1"
    by (simp_all add: next_epoch_def acting_def balloted_def demo_member_def)
  then show ?thesis
    using propose [of m demo_set s serial] assms by (simp add: do_propose_def)
qed

text \<open>
  C32: as coded, one epoch can have two primaries.  Nothing keeps a vote from being answered between
  the moment a candidacy reads its ballot and the moment it overwrites it: a member then grants a
  rival's candidacy and still votes for itself in the same epoch.  In a set of three members both
  candidates can collect a majority of epoch 2.
\<close>

theorem two_leaders_reachable:
  "\<exists>s. (election_step False demo_set)\<^sup>*\<^sup>* (initial_system demo_member) s \<and>
    {(''a'', 2), (''b'', 2)} \<subseteq> sys_leaders s"
proof -
  let ?s0 = "initial_system demo_member"
  let ?s1 = "upd_member ''a'' (demo_member ''a'') (Proposed 2) ?s0"
  let ?s2 = "upd_member ''b'' (demo_member ''b'') (Proposed 2) ?s1"
  let ?s3 = "campaign ''b'' ''a'' ?s2"
  let ?s4 = "campaign ''a'' ''c'' ?s3"
  have step1: "election_step False demo_set ?s0 ?s1" by (rule propose_demo) (simp_all add: initial_system_def)
  have step2: "election_step False demo_set ?s1 ?s2" by (rule propose_demo) (simp_all add: initial_system_def)
  have pre1: "''b'' \<in> set demo_set" "''a'' \<in> set demo_set" "''b'' \<noteq> ''a''" "sys_phase ?s2 ''b'' = Proposed 2"
    "False \<longrightarrow> (\<forall>e. sys_phase ?s2 ''a'' \<noteq> Proposed e \<and> sys_phase ?s2 ''a'' \<noteq> Persisted e)"
    "sys_member ?s2 ''a'' = demo_member ''a''" "el_shard_id (sys_member ?s2 ''b'') = 0"
    "el_log_epoch (sys_member ?s2 ''b'') = 1" "el_durable (sys_member ?s2 ''b'') = Inr (Some 7)"
    "el_member_name (sys_member ?s2 ''b'') = ''b''"
    by (simp_all add: initial_system_def demo_member_def)
  note camp1 = campaign_wins [OF pre1]
  have ph: "sys_phase ?s3 ''a'' = Proposed 2" and mc: "sys_member ?s3 ''c'' = demo_member ''c''"
    using camp1(3) [of "''a''"] camp1(4) [of "''c''"] by (simp_all add: initial_system_def)
  have pre2: "''a'' \<in> set demo_set" "''c'' \<in> set demo_set" "''a'' \<noteq> ''c''" "sys_phase ?s3 ''a'' = Proposed 2"
    "False \<longrightarrow> (\<forall>e. sys_phase ?s3 ''c'' \<noteq> Proposed e \<and> sys_phase ?s3 ''c'' \<noteq> Persisted e)"
    "sys_member ?s3 ''c'' = demo_member ''c''" "el_shard_id (sys_member ?s3 ''a'') = 0"
    "el_log_epoch (sys_member ?s3 ''a'') = 1" "el_durable (sys_member ?s3 ''a'') = Inr (Some 7)"
    "el_member_name (sys_member ?s3 ''a'') = ''a''"
    by (simp_all add: ph mc camp1(5)) (simp_all add: demo_member_def)
  note camp2 = campaign_wins [OF pre2]
  have "(election_step False demo_set)\<^sup>*\<^sup>* ?s0 ?s4"
    using step1 step2 camp1(1) camp2(1) by (meson converse_rtranclp_into_rtranclp rtranclp_trans)
  then show ?thesis using camp1(2) camp2(2) by (intro exI [of _ ?s4]) simp
qed

theorem one_leader_per_epoch_witness:
  "\<exists>s. (election_step True demo_set)\<^sup>*\<^sup>* (initial_system demo_member) s \<and> {c. (c, 2) \<in> sys_leaders s} = {''b''}"
proof -
  let ?s0 = "initial_system demo_member"
  let ?s1 = "upd_member ''b'' (demo_member ''b'') (Proposed 2) ?s0"
  let ?s2 = "campaign ''b'' ''a'' ?s1"
  have "election_step True demo_set ?s0 ?s1" by (rule propose_demo) (simp_all add: initial_system_def)
  moreover have pre: "''b'' \<in> set demo_set" "''a'' \<in> set demo_set" "''b'' \<noteq> ''a''" "sys_phase ?s1 ''b'' = Proposed 2"
    "True \<longrightarrow> (\<forall>e. sys_phase ?s1 ''a'' \<noteq> Proposed e \<and> sys_phase ?s1 ''a'' \<noteq> Persisted e)"
    "sys_member ?s1 ''a'' = demo_member ''a''" "el_shard_id (sys_member ?s1 ''b'') = 0"
    "el_log_epoch (sys_member ?s1 ''b'') = 1" "el_durable (sys_member ?s1 ''b'') = Inr (Some 7)"
    "el_member_name (sys_member ?s1 ''b'') = ''b''"
    by (simp_all add: initial_system_def demo_member_def)
  note run = campaign_wins(1, 2) [OF pre]
  ultimately have reach: "(election_step True demo_set)\<^sup>*\<^sup>* ?s0 ?s2"
    using run(1) by (meson converse_rtranclp_into_rtranclp)
  have "\<forall>m. el_member_name (demo_member m) = m" by (simp add: demo_member_def)
  from one_leader_per_epoch [OF this reach, of _ 2 "''b''"] show ?thesis
    using reach run(2) by (intro exI [of _ ?s2]) (auto simp: initial_system_def)
qed

text \<open>
  C20: the winner of an election is up to date.  When a transaction is durable on a quorum of members
  and a candidate is granted a quorum of votes, some voter holds the transaction, and the candidate's
  log is at least that voter's: its log epoch is higher, or it is equal and the candidate holds the
  transaction too.
\<close>

theorem winner_up_to_date:
  assumes "is_quorum members holders" "\<And>m. m \<in> holders \<Longrightarrow> tx \<le> durable_or_zero (st m)"
    and "is_quorum members voters"
    and "\<And>v. v \<in> voters \<Longrightarrow> v = c \<or> vr_granted (fst (answer (now v) (io v) (vote_request epoch (st c)) (st v)))"
  shows "\<exists>v \<in> holders. el_log_epoch (st v) < el_log_epoch (st c) \<or>
    el_log_epoch (st v) = el_log_epoch (st c) \<and> tx \<le> durable_or_zero (st c)"
proof -
  obtain v where v: "v \<in> holders" "v \<in> voters" using mq.common_voter [OF assms(1, 3)] by blast
  have "\<not> head_less (el_log_epoch (st c), durable_or_zero (st c)) (el_log_epoch (st v), durable_or_zero (st v))"
  proof (cases "v = c")
    case False
    then have "vr_granted (fst (answer (now v) (io v) (vote_request epoch (st c)) (st v)))" using assms(4) v(2) by blast
    then obtain g where "decide_vote (acting (st v)) (el_ballot (st v)) (el_log_epoch (st v), durable_or_zero (st v))
        (hears_a_primary (now v) (st v)) (vote_request epoch (st c)) = Some g"
      by (auto simp: answer_def Let_def split: if_splits option.splits)
    then show ?thesis by (simp add: decide_vote_Some vote_request_def)
  qed (simp add: head_less_def)
  moreover have "tx \<le> durable_or_zero (st v)" using assms(2) v(1) .
  ultimately have "el_log_epoch (st v) < el_log_epoch (st c) \<or>
    el_log_epoch (st v) = el_log_epoch (st c) \<and> tx \<le> durable_or_zero (st c)"
    by (auto simp: head_less_def not_less)
  then show ?thesis using v(1) by blast
qed

theorem winner_up_to_date_witness:
  "\<exists>v \<in> {''a'', ''c''}. el_log_epoch (demo_member v) < el_log_epoch (demo_member ''b'') \<or>
    el_log_epoch (demo_member v) = el_log_epoch (demo_member ''b'') \<and> 5 \<le> durable_or_zero (demo_member ''b'')"
proof (rule winner_up_to_date)
  show "is_quorum demo_set {''a'', ''c''}" "is_quorum demo_set {''a'', ''b''}"
    by (simp_all add: is_quorum_def majority_def)
  show "5 \<le> durable_or_zero (demo_member m)" for m
    by (simp add: durable_or_zero_def demo_member_def word_le_nat_alt)
  have "vr_granted (fst (answer 2000 IoOk (vote_request 2 (demo_member ''b'')) (demo_member v)))" for v
    using demo_answer [of "demo_member ''b''" v] by (simp add: demo_member_def)
  then show "v = ''b'' \<or> vr_granted (fst (answer 2000 IoOk (vote_request 2 (demo_member ''b'')) (demo_member v)))" for v
    by blast
qed

lemma run_candidacy_won:
  assumes "run_candidacy io1 io2 w responses st = (True, st')"
  shows "role_primary (el_role st') \<and> fenced st' = fenced st \<and> el_epoch_file st' = Marker (next_epoch st) \<and>
    majority (length responses + 1) \<le> tally_votes responses"
proof -
  have pr: "role_primary (el_role s') \<and> fenced s' = fenced s \<and> el_epoch_file s' = Marker e"
    if "promote io2 w e s = (True, s')" for e s s'
    using that by (cases io2; cases "el_primary s")
      (auto simp: promote_def persist_epoch_def log_set_epoch_def fenced_def role_set_def adopt_epoch_def split: if_splits)
  have sb: "fenced s' = fenced st" if "self_ballot io1 (next_epoch st) st = (True, s')" for s'
    using that by (auto simp: self_ballot_def self_persist_def self_cache_def fenced_def split: prod.splits if_splits)
  show ?thesis
    using assms pr sb
    by (auto simp: run_candidacy_def conclude_candidacy_def Let_def split: prod.splits bool.splits if_splits)
qed

text \<open>
  C33: a member that was fenced once cannot serve as primary again.  Winning an election does not
  clear the fence of its replication service, so after any successful candidacy its next turn of the
  election loop demotes it.
\<close>

theorem fenced_winner_steps_down:
  assumes "fenced st" "run_candidacy io1 io2 writer_alive responses st = (True, st')"
  shows "role_primary (el_role st') \<and>
    \<not> role_primary (el_role (election_turn now io3 io4 writer_alive' responses' st'))"
  using run_candidacy_won [OF assms(2)] assms(1)
  by (simp add: election_turn_def demote_def note_contact_def role_set_def Let_def)

theorem fenced_winner_steps_down_witness:
  "let st = (demo_member ''a'')\<lparr>el_primary := Some (fence 3 demo_primary)\<rparr>;
       st' = snd (run_candidacy IoOk IoOk True [Some \<lparr>vr_epoch = 1, vr_granted = True\<rparr>, None] st) in
    role_primary (el_role st') \<and> \<not> role_primary (el_role (election_turn 9 IoOk IoOk True [] st'))"
proof -
  let ?st = "(demo_member ''a'')\<lparr>el_primary := Some (fence 3 demo_primary)\<rparr>"
  let ?r = "run_candidacy IoOk IoOk True [Some \<lparr>vr_epoch = 1, vr_granted = True\<rparr>, None] ?st"
  have "fenced ?st" by (simp add: fenced_def)
  moreover have "?r = (True, snd ?r)"
    by (simp add: run_candidacy_def Let_def self_ballot_def self_persist_def persist_ballot_def self_cache_def
      conclude_candidacy_def highest_seen_def tally_votes_def majority_def promote_def persist_epoch_def
      log_set_epoch_def next_epoch_def acting_def balloted_def demo_member_def word_less_nat_alt max_def)
  ultimately show ?thesis
    using fenced_winner_steps_down [of ?st] by (metis (no_types, lifting))
qed

end
