(* ===== verification/Pages.thy ===== *)
theory Pages
  imports LogFormat
begin

text \<open>
  Page images of the cold tier: \<open>src/crates/fluxum-core/src/store/pager/format.rs\<close> (headers, checksums,
  superblocks), \<open>pager/codec.rs\<close> (compression and sealing of stored pages and artifacts) and the
  keyring of \<open>crypto.rs\<close>.  CRC32C, LZ4, zstd and XChaCha20-Poly1305 are third-party crates: they are
  the fields of \<open>page_env\<close>, and the nonce a seal draws is an argument.
\<close>

unbundle bit_operations_syntax

section \<open>Third-party code\<close>

record page_env =
  pg_crc32c :: "bytes \<Rightarrow> u32"
  lz4_compress :: "bytes \<Rightarrow> string + bytes"
  lz4_decompress :: "bytes \<Rightarrow> nat \<Rightarrow> string + bytes"
  zstd_compress :: "bytes \<Rightarrow> string + bytes"
  zstd_decompress :: "bytes \<Rightarrow> nat \<Rightarrow> string + bytes"
  zstd_encode_all :: "bytes \<Rightarrow> int \<Rightarrow> string + bytes"
  zstd_decode_all :: "bytes \<Rightarrow> string + bytes"
  aead_encrypt :: "bytes \<Rightarrow> bytes \<Rightarrow> bytes \<Rightarrow> bytes \<Rightarrow> unit + bytes"
  aead_decrypt :: "bytes \<Rightarrow> bytes \<Rightarrow> bytes \<Rightarrow> bytes \<Rightarrow> unit + bytes"

text \<open>
  What their documentation promises: a decompressor given the original length returns the original, the
  cipher opens what it sealed under the same key, nonce and associated data, and a key that opens an
  envelope yields what was sealed.
\<close>

definition codecs_ok :: "page_env \<Rightarrow> bool" where
  "codecs_ok env =
    ((\<forall>x y. lz4_compress env x = Inr y \<longrightarrow> lz4_decompress env y (length x) = Inr x) \<and>
     (\<forall>x y. zstd_compress env x = Inr y \<longrightarrow> zstd_decompress env y (length x) = Inr x))"

definition cipher_ok :: "page_env \<Rightarrow> bool" where
  "cipher_ok env =
    (\<forall>key nonce msg aad c. aead_encrypt env key nonce msg aad = Inr c \<longrightarrow>
      aead_decrypt env key nonce c aad = Inr msg \<and>
      (\<forall>key' msg'. aead_decrypt env key' nonce c aad = Inr msg' \<longrightarrow> msg' = msg))"

section \<open>Page images\<close>

definition PAGE_MAGIC :: u32 where "PAGE_MAGIC = 0x50584C46"
definition SUPERBLOCK_MAGIC :: u32 where "SUPERBLOCK_MAGIC = 0x53584C46"
definition PAGE_HEADER_LEN :: nat where "PAGE_HEADER_LEN = 32"
definition SUPERBLOCK_LEN :: nat where "SUPERBLOCK_LEN = 32"
definition FORMAT_VERSION :: u16 where "FORMAT_VERSION = 2"
definition FLAG_CODEC_MASK :: u16 where "FLAG_CODEC_MASK = 3"
definition FLAG_INDEX :: u16 where "FLAG_INDEX = 4"
definition FLAG_OVERFLOW :: u16 where "FLAG_OVERFLOW = 8"
definition FLAG_ENCRYPTED :: u16 where "FLAG_ENCRYPTED = 16"
definition FLAG_VERSION_MASK :: u16 where "FLAG_VERSION_MASK = 0x0F00"
definition FLAG_KNOWN_MASK :: u16 where
  "FLAG_KNOWN_MASK = FLAG_CODEC_MASK OR FLAG_INDEX OR FLAG_OVERFLOW OR FLAG_ENCRYPTED OR FLAG_VERSION_MASK"

record PageHeader =
  hd_page_id :: u64
  hd_table_id :: u32
  hd_row_count :: u32
  hd_flags :: u16

definition header_new :: "u64 \<Rightarrow> u32 \<Rightarrow> u32 \<Rightarrow> u16 \<Rightarrow> PageHeader" where
  "header_new page_id table_id row_count flags =
    \<lparr>hd_page_id = page_id, hd_table_id = table_id, hd_row_count = row_count, hd_flags = flags OR push_bit 8 FORMAT_VERSION\<rparr>"

definition hd_codec :: "PageHeader \<Rightarrow> u16" where "hd_codec h = hd_flags h AND FLAG_CODEC_MASK"
definition is_index :: "PageHeader \<Rightarrow> bool" where "is_index h = (hd_flags h AND FLAG_INDEX \<noteq> 0)"
definition is_overflow :: "PageHeader \<Rightarrow> bool" where "is_overflow h = (hd_flags h AND FLAG_OVERFLOW \<noteq> 0)"
definition is_encrypted :: "PageHeader \<Rightarrow> bool" where "is_encrypted h = (hd_flags h AND FLAG_ENCRYPTED \<noteq> 0)"
definition hd_version :: "PageHeader \<Rightarrow> u16" where "hd_version h = drop_bit 8 (hd_flags h AND FLAG_VERSION_MASK)"

text \<open>The checksum covers the image with the checksum field zeroed.\<close>

definition page_crc :: "page_env \<Rightarrow> bytes \<Rightarrow> u32" where
  "page_crc env img = pg_crc32c env (take 28 img @ [0, 0, 0, 0] @ drop (min PAGE_HEADER_LEN (length img)) img)"

definition header_bytes :: "PageHeader \<Rightarrow> u32 \<Rightarrow> bytes" where
  "header_bytes h payload_len =
    to_le_bytes PAGE_MAGIC @ to_le_bytes (hd_page_id h) @ to_le_bytes (hd_table_id h) @ to_le_bytes (hd_row_count h) @
    to_le_bytes (hd_flags h) @ to_le_bytes (0 :: u16) @ to_le_bytes payload_len"

definition encode_page :: "page_env \<Rightarrow> PageHeader \<Rightarrow> bytes \<Rightarrow> bytes result" where
  "encode_page env h payload =
    (if length payload < 2 ^ 32 then
       let b = header_bytes h (word_of_nat (length payload))
       in Inr (b @ to_le_bytes (page_crc env (b @ to_le_bytes (0 :: u32) @ payload)) @ payload)
     else Inl (Storage ''payload exceeds the u32 payload_len field''))"

definition header_fields :: "bytes \<Rightarrow> PageHeader" where
  "header_fields img =
    \<lparr>hd_page_id = from_le_bytes (byte_slice img 4 12), hd_table_id = from_le_bytes (byte_slice img 12 16),
     hd_row_count = from_le_bytes (byte_slice img 16 20), hd_flags = from_le_bytes (byte_slice img 20 22)\<rparr>"

definition decode_page :: "page_env \<Rightarrow> bytes \<Rightarrow> u32 \<Rightarrow> u32 \<Rightarrow> u64 \<Rightarrow> (PageHeader \<times> bytes) result" where
  "decode_page env img shard_id table_id page_id =
    (let corrupt = Inl (PageCorrupt shard_id table_id page_id); h = header_fields img in
     if length img < PAGE_HEADER_LEN then corrupt
     else if page_crc env img \<noteq> from_le_bytes (byte_slice img 28 32) then corrupt
     else if from_le_bytes (byte_slice img 0 4) \<noteq> PAGE_MAGIC \<or> hd_page_id h \<noteq> page_id \<or> hd_table_id h \<noteq> table_id \<or>
       length img \<noteq> PAGE_HEADER_LEN + unat (from_le_bytes (byte_slice img 24 28) :: u32) then corrupt
     else if hd_flags h AND NOT FLAG_KNOWN_MASK \<noteq> 0 then Inl (Storage ''page carries unknown flag bits'')
     else if hd_version h \<noteq> FORMAT_VERSION then Inl (Storage ''unsupported page format version'')
     else if hd_codec h = 3 then Inl (Storage ''reserved compression codec bits 3'')
     else Inr (h, drop PAGE_HEADER_LEN img))"

definition trusted_header :: "bytes \<Rightarrow> (PageHeader \<times> bytes) result" where
  "trusted_header img =
    (if length img < PAGE_HEADER_LEN then Inl (Storage ''trusted page image shorter than the header'')
     else Inr (header_fields img, drop PAGE_HEADER_LEN img))"

section \<open>Superblocks\<close>

definition encode_superblock :: "page_env \<Rightarrow> u32 \<Rightarrow> u32 \<Rightarrow> u32 \<Rightarrow> bytes" where
  "encode_superblock env page_size shard_id table_id =
    (let b = to_le_bytes SUPERBLOCK_MAGIC @ to_le_bytes (ucast FORMAT_VERSION :: u32) @ to_le_bytes page_size @
       to_le_bytes shard_id @ to_le_bytes table_id @ replicate 8 0
     in b @ to_le_bytes (pg_crc32c env b))"

definition decode_superblock :: "page_env \<Rightarrow> bytes \<Rightarrow> u32 \<Rightarrow> u32 \<Rightarrow> u32 result" where
  "decode_superblock env block shard_id table_id =
    (let u32_at = (\<lambda>off. from_le_bytes (byte_slice block off (off + 4)) :: u32) in
     if length block < SUPERBLOCK_LEN then Inl (Storage ''bad superblock (truncated)'')
     else if pg_crc32c env (byte_slice block 0 28) \<noteq> u32_at 28 then Inl (Storage ''bad superblock (CRC32C mismatch)'')
     else if u32_at 0 \<noteq> SUPERBLOCK_MAGIC then Inl (Storage ''bad superblock (magic mismatch)'')
     else if u32_at 4 \<noteq> ucast FORMAT_VERSION then Inl (Storage ''bad superblock (unsupported file-format version)'')
     else if u32_at 12 \<noteq> shard_id \<or> u32_at 16 \<noteq> table_id then Inl (Storage ''bad superblock (coordinates)'')
     else Inr (u32_at 8))"

section \<open>Keyring\<close>

definition NONCE_LEN :: nat where "NONCE_LEN = 24"

record AtRestKey =
  key_id :: string
  key_bytes :: bytes

record Keyring =
  kr_active :: AtRestKey
  kr_previous :: "AtRestKey list"

definition seal_payload :: "page_env \<Rightarrow> bytes \<Rightarrow> Keyring \<Rightarrow> bytes \<Rightarrow> bytes \<Rightarrow> bytes result" where
  "seal_payload env nonce ring plaintext aad =
    (case aead_encrypt env (key_bytes (kr_active ring)) nonce plaintext aad of
       Inl _ \<Rightarrow> Inl (Storage ''at-rest seal failed'')
     | Inr ciphertext \<Rightarrow> Inr (nonce @ ciphertext))"

fun first_opening :: "page_env \<Rightarrow> AtRestKey list \<Rightarrow> bytes \<Rightarrow> bytes \<Rightarrow> bytes \<Rightarrow> bytes option" where
  "first_opening env [] nonce ciphertext aad = None"
| "first_opening env (key # keys) nonce ciphertext aad =
    (case aead_decrypt env (key_bytes key) nonce ciphertext aad of
       Inr plaintext \<Rightarrow> Some plaintext
     | Inl _ \<Rightarrow> first_opening env keys nonce ciphertext aad)"

definition open_payload :: "page_env \<Rightarrow> Keyring \<Rightarrow> bytes \<Rightarrow> bytes \<Rightarrow> (bytes \<times> bool) result" where
  "open_payload env ring sealed aad =
    (if length sealed < NONCE_LEN then Inl (Storage ''sealed payload shorter than the nonce'')
     else let nonce = take NONCE_LEN sealed; ciphertext = drop NONCE_LEN sealed in
       (case aead_decrypt env (key_bytes (kr_active ring)) nonce ciphertext aad of
          Inr plaintext \<Rightarrow> Inr (plaintext, True)
        | Inl _ \<Rightarrow>
            (case first_opening env (kr_previous ring) nonce ciphertext aad of
               Some plaintext \<Rightarrow> Inr (plaintext, False)
             | None \<Rightarrow> Inl (Storage ''at-rest decryption failed''))))"

section \<open>Stored pages\<close>

datatype PageCodec = CodecNone | Lz4 | Zstd

definition codec_bits :: "PageCodec \<Rightarrow> u16" where
  "codec_bits codec = (case codec of CodecNone \<Rightarrow> 0 | Lz4 \<Rightarrow> 1 | Zstd \<Rightarrow> 2)"

definition codec_from_bits :: "u16 \<Rightarrow> PageCodec option" where
  "codec_from_bits b = (if b = 0 then Some CodecNone else if b = 1 then Some Lz4 else if b = 2 then Some Zstd else None)"

definition page_aad :: "u32 \<Rightarrow> PageHeader \<Rightarrow> bytes" where
  "page_aad shard_id h = to_le_bytes shard_id @ to_le_bytes (hd_table_id h) @ to_le_bytes (hd_page_id h) @ to_le_bytes (hd_flags h)"

text \<open>A compressed payload is kept when it saves at least an eighth.\<close>

definition compress_payload :: "page_env \<Rightarrow> PageCodec \<Rightarrow> bytes \<Rightarrow> nat \<Rightarrow> bytes option result" where
  "compress_payload env codec payload min_bytes =
    (if codec = CodecNone \<or> length payload < min_bytes then Inr None
     else if \<not> length payload < 2 ^ 32 then Inl (Storage ''page payload exceeds the u32 raw_len field'')
     else case (case codec of CodecNone \<Rightarrow> Inl [] | Lz4 \<Rightarrow> lz4_compress env payload | Zstd \<Rightarrow> zstd_compress env payload) of
       Inl e \<Rightarrow> Inl (Storage ''page compression failed'')
     | Inr block \<Rightarrow>
         if (4 + length block) * 8 > length payload * 7 then Inr None
         else Inr (Some (to_le_bytes (word_of_nat (length payload) :: u32) @ block)))"

definition decompress_payload :: "page_env \<Rightarrow> PageCodec \<Rightarrow> bytes \<Rightarrow> nat \<Rightarrow> bytes result" where
  "decompress_payload env codec stored max_raw =
    (if codec = CodecNone then Inl (Storage ''decompress_payload called for an uncompressed page'')
     else if length stored < 4 then Inl (Storage ''compressed page payload shorter than its raw_len prefix'')
     else let block = drop 4 stored; raw_len = unat (from_le_bytes (take 4 stored) :: u32) in
       if raw_len > max_raw then Inl (Storage ''compressed page declares a payload above the page bound'')
       else if \<not> raw_len < 2 ^ 31 then Inl (Storage ''compressed page raw_len overflows i32'')
       else case (case codec of CodecNone \<Rightarrow> Inl [] | Lz4 \<Rightarrow> lz4_decompress env block raw_len | Zstd \<Rightarrow> zstd_decompress env block raw_len) of
         Inl e \<Rightarrow> Inl (Storage ''page decompression failed'')
       | Inr raw \<Rightarrow> if length raw \<noteq> raw_len then Inl (Storage ''compressed page decoded to another length'') else Inr raw)"

definition compress_image :: "page_env \<Rightarrow> bytes \<Rightarrow> PageCodec \<Rightarrow> nat \<Rightarrow> bytes option result" where
  "compress_image env img codec min_bytes =
    rbind (trusted_header img) (\<lambda>(h, payload).
      if hd_codec h \<noteq> 0 then Inl (Storage ''pool image already carries codec bits'')
      else rbind (compress_payload env codec payload min_bytes) (\<lambda>c.
        case c of
          None \<Rightarrow> Inr None
        | Some stored \<Rightarrow> rmap Some (encode_page env (h\<lparr>hd_flags := hd_flags h OR codec_bits codec\<rparr>) stored)))"

definition decompress_image :: "page_env \<Rightarrow> PageHeader \<Rightarrow> bytes \<Rightarrow> nat \<Rightarrow> bytes result" where
  "decompress_image env h stored max_raw =
    rbind (ok_or (Storage ''page carries reserved codec bits 3'') (codec_from_bits (hd_codec h))) (\<lambda>codec.
    rbind (decompress_payload env codec stored max_raw) (\<lambda>raw.
      encode_page env (h\<lparr>hd_flags := hd_flags h AND NOT FLAG_CODEC_MASK\<rparr>) raw))"

definition encode_for_storage :: "page_env \<Rightarrow> bytes \<Rightarrow> bytes \<Rightarrow> PageCodec \<Rightarrow> nat \<Rightarrow> u32 \<Rightarrow> Keyring option \<Rightarrow> bytes option result" where
  "encode_for_storage env nonce img codec min_bytes shard_id keyring =
    rbind (trusted_header img) (\<lambda>(h, payload).
      if hd_codec h \<noteq> 0 \<or> is_encrypted h then Inl (Storage ''pool image already carries codec/encryption bits'')
      else rbind (compress_payload env codec payload min_bytes) (\<lambda>compressed.
        let bits = (if compressed \<noteq> None then codec_bits codec else 0);
          stored = (case compressed of None \<Rightarrow> payload | Some c \<Rightarrow> c)
        in case keyring of
             None \<Rightarrow>
               (case compressed of
                  None \<Rightarrow> Inr None
                | Some c \<Rightarrow> rmap Some (encode_page env (h\<lparr>hd_flags := hd_flags h OR bits\<rparr>) c))
           | Some ring \<Rightarrow>
               let h' = h\<lparr>hd_flags := hd_flags h OR bits OR FLAG_ENCRYPTED\<rparr>
               in rbind (seal_payload env nonce ring stored (page_aad shard_id h')) (\<lambda>sealed.
                    rmap Some (encode_page env h' sealed))))"

definition open_image :: "page_env \<Rightarrow> PageHeader \<Rightarrow> bytes \<Rightarrow> nat \<Rightarrow> u32 \<Rightarrow> Keyring option \<Rightarrow> bytes result" where
  "open_image env h stored max_raw shard_id keyring =
    rbind (if is_encrypted h then
        rbind (ok_or (Storage ''page is encrypted at rest but no keyring is configured'') keyring) (\<lambda>ring.
          rmap fst (open_payload env ring stored (page_aad shard_id h)))
      else Inr stored) (\<lambda>payload.
    rbind (ok_or (Storage ''page carries reserved codec bits 3'') (codec_from_bits (hd_codec h))) (\<lambda>codec.
    rbind (if codec = CodecNone then Inr payload else decompress_payload env codec payload max_raw) (\<lambda>raw.
      encode_page env (h\<lparr>hd_flags := hd_flags h AND NOT (FLAG_CODEC_MASK OR FLAG_ENCRYPTED)\<rparr>) raw)))"

section \<open>Artifacts\<close>

definition ZSTD_MAGIC :: bytes where "ZSTD_MAGIC = [0x28, 0xB5, 0x2F, 0xFD]"
definition ARTIFACT_ENC_MAGIC :: bytes where "ARTIFACT_ENC_MAGIC = [0x46, 0x4C, 0x58, 0x45, 0x4E, 0x43, 0x30, 0x31]"
definition ARTIFACT_AAD :: bytes where "ARTIFACT_AAD = map (\<lambda>c. word_of_nat (of_char c)) ''fluxum-at-rest-artifact-v1''"

definition compress_artifact :: "page_env \<Rightarrow> bytes \<Rightarrow> bytes \<Rightarrow> int \<Rightarrow> Keyring option \<Rightarrow> bytes result" where
  "compress_artifact env nonce bs level keyring =
    (case zstd_encode_all env bs level of
       Inl e \<Rightarrow> Inl (Storage ''zstd artifact compression failed'')
     | Inr compressed \<Rightarrow>
         (case keyring of
            None \<Rightarrow> Inr compressed
          | Some ring \<Rightarrow> rmap ((@) ARTIFACT_ENC_MAGIC) (seal_payload env nonce ring compressed ARTIFACT_AAD)))"

definition starts_with :: "bytes \<Rightarrow> bytes \<Rightarrow> bool" where
  "starts_with bs p = (take (length p) bs = p)"

definition decompress_artifact :: "page_env \<Rightarrow> bytes \<Rightarrow> Keyring option \<Rightarrow> bytes result" where
  "decompress_artifact env bs keyring =
    rbind (if starts_with bs ARTIFACT_ENC_MAGIC then
        rbind (ok_or (Storage ''artifact is encrypted at rest but no keyring is configured'') keyring) (\<lambda>ring.
          rmap fst (open_payload env ring (drop (length ARTIFACT_ENC_MAGIC) bs) ARTIFACT_AAD))
      else Inr bs) (\<lambda>inner.
    if starts_with inner ZSTD_MAGIC then
      (case zstd_decode_all env inner of Inl e \<Rightarrow> Inl (Storage ''zstd artifact decompression failed'') | Inr raw \<Rightarrow> Inr raw)
    else Inr inner)"

section \<open>Images read back\<close>

definition page_bytes :: "page_env \<Rightarrow> PageHeader \<Rightarrow> bytes \<Rightarrow> bytes" where
  "page_bytes env h payload =
    (let b = header_bytes h (word_of_nat (length payload))
     in b @ to_le_bytes (page_crc env (b @ to_le_bytes (0 :: u32) @ payload)) @ payload)"

lemma encode_page_iff: "encode_page env h payload = Inr img \<longleftrightarrow> length payload < 2 ^ 32 \<and> img = page_bytes env h payload"
  by (auto simp: encode_page_def page_bytes_def Let_def)

lemma length_header_bytes [simp]: "length (header_bytes h n) = 28"
  by (simp add: header_bytes_def)

lemma length_page_bytes [simp]: "length (page_bytes env h payload) = 32 + length payload"
  by (simp add: page_bytes_def Let_def)

lemma page_payload [simp]: "drop PAGE_HEADER_LEN (page_bytes env h payload) = payload"
  by (simp add: page_bytes_def Let_def PAGE_HEADER_LEN_def)

lemma page_slices:
  "byte_slice (page_bytes env h payload) 0 4 = to_le_bytes PAGE_MAGIC"
  "byte_slice (page_bytes env h payload) 4 12 = to_le_bytes (hd_page_id h)"
  "byte_slice (page_bytes env h payload) 12 16 = to_le_bytes (hd_table_id h)"
  "byte_slice (page_bytes env h payload) 16 20 = to_le_bytes (hd_row_count h)"
  "byte_slice (page_bytes env h payload) 20 22 = to_le_bytes (hd_flags h)"
  "byte_slice (page_bytes env h payload) 24 28 = to_le_bytes (word_of_nat (length payload) :: u32)"
  by (simp_all add: page_bytes_def header_bytes_def Let_def byte_slice_def)

lemma header_of_page [simp]: "header_fields (page_bytes env h payload) = h"
  by (simp add: header_fields_def page_slices from_to_le_bytes)

lemma crc_of_page: "from_le_bytes (byte_slice (page_bytes env h payload) 28 32) = page_crc env (page_bytes env h payload)"
proof -
  let ?b = "header_bytes h (word_of_nat (length payload))"
  let ?c = "to_le_bytes (page_crc env (?b @ to_le_bytes (0 :: u32) @ payload))"
  have img: "page_bytes env h payload = ?b @ ?c @ payload" by (simp add: page_bytes_def Let_def)
  have "byte_slice (page_bytes env h payload) 28 32 = ?c" unfolding img by (rule slice_at) simp_all
  then have "from_le_bytes (byte_slice (page_bytes env h payload) 28 32) = page_crc env (?b @ to_le_bytes (0 :: u32) @ payload)"
    by (simp add: from_to_le_bytes)
  also have "\<dots> = page_crc env (page_bytes env h payload)"
    unfolding img by (simp add: page_crc_def PAGE_HEADER_LEN_def)
  finally show ?thesis .
qed

lemma trusted_page [simp]: "trusted_header (page_bytes env h payload) = Inr (h, payload)"
  by (simp add: trusted_header_def) (simp add: PAGE_HEADER_LEN_def)

definition readable_flags :: "u16 \<Rightarrow> bool" where
  "readable_flags f = (f AND NOT FLAG_KNOWN_MASK = 0 \<and> drop_bit 8 (f AND FLAG_VERSION_MASK) = FORMAT_VERSION \<and> f AND FLAG_CODEC_MASK \<noteq> 3)"

lemma decode_page_bytes:
  assumes "length payload < 2 ^ 32" "readable_flags (hd_flags h)"
  shows "decode_page env (page_bytes env h payload) shard (hd_table_id h) (hd_page_id h) = Inr (h, payload)"
proof -
  have "unat (word_of_nat (length payload) :: u32) = length payload" using assms(1) by (simp add: unat_of_nat)
  then show ?thesis
    using assms(2) page_payload [of env h payload]
    by (simp add: decode_page_def Let_def crc_of_page page_slices from_to_le_bytes readable_flags_def hd_version_def hd_codec_def)
      (simp add: PAGE_HEADER_LEN_def)
qed

text \<open>The flags of a pool image: no codec, not encrypted.\<close>

definition plain_flags :: "u16 \<Rightarrow> bool" where
  "plain_flags f = (readable_flags f \<and> f AND FLAG_CODEC_MASK = 0 \<and> f AND FLAG_ENCRYPTED = 0)"

lemma flag_bits:
  "bit FLAG_CODEC_MASK n \<longleftrightarrow> n < 2" "bit FLAG_ENCRYPTED n \<longleftrightarrow> n = 4" "bit FLAG_INDEX n \<longleftrightarrow> n = 2"
  "bit FLAG_OVERFLOW n \<longleftrightarrow> n = 3" "bit FLAG_VERSION_MASK n \<longleftrightarrow> 8 \<le> n \<and> n < 12"
proof -
  have m: "FLAG_CODEC_MASK = mask 2" "FLAG_ENCRYPTED = push_bit 4 1" "FLAG_INDEX = push_bit 2 1" "FLAG_OVERFLOW = push_bit 3 1"
    "FLAG_VERSION_MASK = push_bit 8 (mask 4)"
    by (simp_all add: FLAG_CODEC_MASK_def FLAG_ENCRYPTED_def FLAG_INDEX_def FLAG_OVERFLOW_def FLAG_VERSION_MASK_def
        mask_eq_exp_minus_1 push_bit_eq_mult)
  show "bit FLAG_CODEC_MASK n \<longleftrightarrow> n < 2" "bit FLAG_ENCRYPTED n \<longleftrightarrow> n = 4" "bit FLAG_INDEX n \<longleftrightarrow> n = 2"
    "bit FLAG_OVERFLOW n \<longleftrightarrow> n = 3" "bit FLAG_VERSION_MASK n \<longleftrightarrow> 8 \<le> n \<and> n < 12"
    unfolding m bit_push_bit_iff bit_1_iff bit_mask_iff by auto
qed

lemma and_eq_0: "x AND y = 0 \<longleftrightarrow> (\<forall>n. bit x n \<longrightarrow> \<not> bit y n)" for x y :: u16
proof
  assume "x AND y = 0"
  then have "\<not> bit (x AND y) n" for n by simp
  then show "\<forall>n. bit x n \<longrightarrow> \<not> bit y n" by (simp add: bit_and_iff)
qed (rule bit_word_eqI, simp add: bit_and_iff)

lemma stored_flags:
  assumes "plain_flags f" "b AND NOT FLAG_CODEC_MASK = 0" "b \<noteq> 3"
  shows "readable_flags (f OR b)" "readable_flags (f OR b OR FLAG_ENCRYPTED)"
    "(f OR b) AND FLAG_CODEC_MASK = b" "(f OR b OR FLAG_ENCRYPTED) AND FLAG_CODEC_MASK = b"
    "(f OR b) AND FLAG_ENCRYPTED = 0" "(f OR b OR FLAG_ENCRYPTED) AND FLAG_ENCRYPTED \<noteq> 0"
    "(f OR b) AND NOT (FLAG_CODEC_MASK OR FLAG_ENCRYPTED) = f"
    "(f OR b OR FLAG_ENCRYPTED) AND NOT (FLAG_CODEC_MASK OR FLAG_ENCRYPTED) = f"
proof -
  have f: "\<And>n. bit f n \<Longrightarrow> \<not> n < 2 \<and> n \<noteq> 4" "readable_flags f"
    using assms(1) by (auto simp: plain_flags_def and_eq_0 flag_bits)
  have b: "n < 2" if "bit b n" for n
    using assms(2) that bit_imp_le_length [OF that] by (auto simp: and_eq_0 flag_bits bit_not_iff)
  note bits = bit_and_iff bit_or_iff bit_not_iff flag_bits
  have c: "(f OR b) AND FLAG_CODEC_MASK = b" "(f OR b OR FLAG_ENCRYPTED) AND FLAG_CODEC_MASK = b"
    by (rule bit_word_eqI; use f b in \<open>auto simp: bits\<close>)+
  then show "(f OR b) AND FLAG_CODEC_MASK = b" "(f OR b OR FLAG_ENCRYPTED) AND FLAG_CODEC_MASK = b" by blast+
  show "(f OR b) AND FLAG_ENCRYPTED = 0" using f b by (force simp: and_eq_0 bits)
  show "(f OR b OR FLAG_ENCRYPTED) AND FLAG_ENCRYPTED \<noteq> 0" by (auto simp: and_eq_0 bits)
  show "(f OR b) AND NOT (FLAG_CODEC_MASK OR FLAG_ENCRYPTED) = f"
    "(f OR b OR FLAG_ENCRYPTED) AND NOT (FLAG_CODEC_MASK OR FLAG_ENCRYPTED) = f"
    by (rule bit_word_eqI; use f b in \<open>auto simp: bits\<close>)+
  have v: "(f OR b) AND FLAG_VERSION_MASK = f AND FLAG_VERSION_MASK" "(f OR b OR FLAG_ENCRYPTED) AND FLAG_VERSION_MASK = f AND FLAG_VERSION_MASK"
    by (rule bit_word_eqI; use b in \<open>force simp: bits\<close>)+
  have k: "(f OR b) AND NOT FLAG_KNOWN_MASK = 0" "(f OR b OR FLAG_ENCRYPTED) AND NOT FLAG_KNOWN_MASK = 0"
    using f(2) b by (auto simp: readable_flags_def and_eq_0 bits FLAG_KNOWN_MASK_def)
  show "readable_flags (f OR b)" "readable_flags (f OR b OR FLAG_ENCRYPTED)"
    using f(2) assms(3) unfolding readable_flags_def c v k by simp_all
qed

section \<open>Stored pages read back\<close>

lemma compress_back:
  assumes "codecs_ok env" "length payload \<le> max_raw" "max_raw < 2 ^ 31" "compress_payload env codec payload min_bytes = Inr (Some c)"
  shows "decompress_payload env codec c max_raw = Inr payload \<and> codec \<noteq> CodecNone"
proof -
  let ?l = "to_le_bytes (word_of_nat (length payload) :: u32)"
  obtain block where b: "c = ?l @ block" "codec = Lz4 \<and> lz4_compress env payload = Inr block \<or> codec = Zstd \<and> zstd_compress env payload = Inr block"
    using assms(4) by (cases codec) (auto simp: compress_payload_def split: sum.splits if_splits)
  have "take 4 c = ?l" "drop 4 c = block" "\<not> length c < 4" using b(1) by simp_all
  moreover have "unat (word_of_nat (length payload) :: u32) = length payload" using assms(2, 3) by (simp add: unat_of_nat)
  moreover have "codec = Lz4 \<Longrightarrow> lz4_decompress env block (length payload) = Inr payload"
    "codec = Zstd \<Longrightarrow> zstd_decompress env block (length payload) = Inr payload"
    using b(2) assms(1) by (auto simp: codecs_ok_def)
  ultimately show ?thesis using b(2) assms(2, 3) by (auto simp: decompress_payload_def Let_def from_to_le_bytes)
qed

lemma first_opening_sealed:
  assumes "cipher_ok env" "aead_encrypt env key nonce msg aad = Inr c" "key \<in> key_bytes ` set keys"
  shows "first_opening env keys nonce c aad = Some msg"
  using assms(3)
proof (induction keys)
  case (Cons k keys)
  have "aead_decrypt env key nonce c aad = Inr msg" "\<And>m. aead_decrypt env (key_bytes k) nonce c aad = Inr m \<Longrightarrow> m = msg"
    using assms(1, 2) unfolding cipher_ok_def by blast+
  then show ?case using Cons by (cases "aead_decrypt env (key_bytes k) nonce c aad") auto
qed simp

text \<open>An envelope opens under any ring that still has the sealing key, whatever key is active.\<close>

definition keeps_key :: "Keyring option \<Rightarrow> Keyring option \<Rightarrow> bool" where
  "keeps_key ring ring' =
    (case ring of
       None \<Rightarrow> True
     | Some r \<Rightarrow> (case ring' of None \<Rightarrow> False
         | Some r' \<Rightarrow> key_bytes (kr_active r) \<in> key_bytes ` set (kr_active r' # kr_previous r')))"

lemma seal_back:
  assumes "cipher_ok env" "length nonce = NONCE_LEN" "seal_payload env nonce r p aad = Inr sealed"
    and "key_bytes (kr_active r) \<in> key_bytes ` set (kr_active r' # kr_previous r')"
  shows "\<exists>active. open_payload env r' sealed aad = Inr (p, active)"
proof -
  obtain c where c: "aead_encrypt env (key_bytes (kr_active r)) nonce p aad = Inr c" "sealed = nonce @ c"
    using assms(3) by (auto simp: seal_payload_def split: sum.splits)
  have "first_opening env (kr_active r' # kr_previous r') nonce c aad = Some p"
    by (rule first_opening_sealed [OF assms(1) c(1) assms(4)])
  then show ?thesis
    using c(2) assms(2) by (auto simp: open_payload_def split: sum.splits)
qed

lemma codec_bits_ok:
  "codec_bits codec AND NOT FLAG_CODEC_MASK = 0" "codec_bits codec \<noteq> 3" "codec_from_bits (codec_bits codec) = Some codec"
  "codec_bits codec = 0 \<longleftrightarrow> codec = CodecNone"
  by (cases codec; simp add: codec_bits_def codec_from_bits_def FLAG_CODEC_MASK_def)+

lemma stored_back:
  assumes env: "codecs_ok env" "cipher_ok env" "length nonce = NONCE_LEN"
    and img: "plain_flags (hd_flags h)" "length payload \<le> max_raw" "max_raw < 2 ^ 31"
    and st: "encode_for_storage env nonce (page_bytes env h payload) codec min_bytes shard ring = Inr stored" "keeps_key ring ring'"
  shows "\<exists>h' p'. decode_page env (case stored of None \<Rightarrow> page_bytes env h payload | Some s \<Rightarrow> s) shard (hd_table_id h) (hd_page_id h) = Inr (h', p') \<and>
    (if hd_codec h' \<noteq> 0 \<or> is_encrypted h' then open_image env h' p' max_raw shard ring' = Inr (page_bytes env h payload) else stored = None)"
proof -
  have small: "length payload < 2 ^ 32" using img by simp
  obtain comp where comp: "compress_payload env codec payload min_bytes = Inr comp"
    using st(1) by (auto simp: encode_for_storage_def result_simps split: if_splits)
  let ?b = "if comp \<noteq> None then codec_bits codec else 0"
  let ?stored = "case comp of None \<Rightarrow> payload | Some c \<Rightarrow> c"
  have b: "?b AND NOT FLAG_CODEC_MASK = 0" "?b \<noteq> 3" using codec_bits_ok by auto
  note fl = stored_flags [OF img(1) b]
  have plain: "hd_codec h = 0" "\<not> is_encrypted h" using img(1) by (simp_all add: plain_flags_def hd_codec_def is_encrypted_def)
  have raw: "codec_from_bits ?b = Some (if comp = None then CodecNone else codec)"
  proof (cases comp)
    case None
    then show ?thesis by (simp add: codec_from_bits_def)
  qed (simp add: codec_bits_ok(3))
  have unzip: "(if (if comp = None then CodecNone else codec) = CodecNone then Inr ?stored
      else decompress_payload env (if comp = None then CodecNone else codec) ?stored max_raw) = Inr payload"
    using comp compress_back [OF env(1) img(2, 3)] by (cases comp) auto
  have encode: "encode_page env h payload = Inr (page_bytes env h payload)" using small by (simp add: encode_page_iff)
  show ?thesis
  proof (cases ring)
    case None
    show ?thesis
    proof (cases comp)
      case None
      then have "stored = None" using st(1) \<open>ring = None\<close> comp plain by (simp add: encode_for_storage_def)
      moreover have "readable_flags (hd_flags h)" using img(1) by (simp add: plain_flags_def)
      ultimately show ?thesis using decode_page_bytes [OF small] plain by simp
    next
      case (Some c)
      let ?h = "h\<lparr>hd_flags := hd_flags h OR ?b\<rparr>"
      have s: "stored = Some (page_bytes env ?h c)" "length c < 2 ^ 32"
        using st(1) \<open>ring = None\<close> comp plain Some by (auto simp: encode_for_storage_def result_simps encode_page_iff)
      have "decode_page env (page_bytes env ?h c) shard (hd_table_id h) (hd_page_id h) = Inr (?h, c)"
        using decode_page_bytes [OF s(2), of ?h] fl(1) by simp
      moreover have "hd_codec ?h = ?b" "\<not> is_encrypted ?h" using fl by (simp_all add: hd_codec_def is_encrypted_def)
      moreover have "?b \<noteq> 0" using Some compress_back [OF env(1) img(2, 3)] comp codec_bits_ok(4) by auto
      ultimately show ?thesis using s(1) raw unzip encode fl(7) Some by (auto simp: open_image_def)
    qed
  next
    case (Some r)
    let ?h = "h\<lparr>hd_flags := hd_flags h OR ?b OR FLAG_ENCRYPTED\<rparr>"
    obtain sealed where s: "seal_payload env nonce r ?stored (page_aad shard ?h) = Inr sealed"
      "stored = Some (page_bytes env ?h sealed)" "length sealed < 2 ^ 32"
      using st(1) Some comp plain by (auto simp: encode_for_storage_def Let_def result_simps encode_page_iff)
    obtain r' where r': "ring' = Some r'" "key_bytes (kr_active r) \<in> key_bytes ` set (kr_active r' # kr_previous r')"
      using st(2) Some by (auto simp: keeps_key_def split: option.splits)
    obtain active where "open_payload env r' sealed (page_aad shard ?h) = Inr (?stored, active)"
      using seal_back [OF env(2, 3) s(1) r'(2)] by blast
    moreover have "decode_page env (page_bytes env ?h sealed) shard (hd_table_id h) (hd_page_id h) = Inr (?h, sealed)"
      using decode_page_bytes [OF s(3), of ?h] fl(2) by simp
    moreover have "hd_codec ?h = ?b" "is_encrypted ?h" using fl by (simp_all add: hd_codec_def is_encrypted_def)
    ultimately show ?thesis using s(2) raw unzip encode fl(8) r'(1) by (auto simp: open_image_def)
  qed
qed

end
