(* ===== verification/PageFile.thy ===== *)
theory PageFile
  imports Pages
begin

text \<open>
  The page file of one table, \<open>src/crates/fluxum-core/src/store/pager/pagefile.rs\<close>: records written to
  fresh slots, a first-fit free list that coalesces neighbours, positional reads.  Offsets and lengths
  are naturals: a file never reaches the range of \<open>u64\<close>.  The outcome of each I/O call is an argument;
  a failing write may leave any number of its bytes in the file.
\<close>

definition EXTENT_ALIGN :: nat where "EXTENT_ALIGN = 256"

record Extent =
  ex_offset :: nat
  ex_len :: nat

definition slot_len :: "nat \<Rightarrow> nat" where
  "slot_len len = ((len + EXTENT_ALIGN - 1) div EXTENT_ALIGN) * EXTENT_ALIGN"

record PageFile =
  pf_file :: bytes
  pf_end :: nat
  pf_free :: "(nat, nat) btree"

section \<open>Positional I/O\<close>

datatype io_outcome = IoOk | IoFail nat

definition patch :: "nat \<Rightarrow> bytes \<Rightarrow> bytes \<Rightarrow> bytes" where
  "patch offset data file =
    (if data = [] then file
     else take offset (file @ replicate (offset - length file) 0) @ data @ drop (offset + length data) file)"

definition write_at :: "io_outcome \<Rightarrow> bytes \<Rightarrow> nat \<Rightarrow> bytes \<Rightarrow> bytes \<times> unit result" where
  "write_at outcome file offset data =
    (case outcome of
       IoOk \<Rightarrow> (patch offset data file, Inr ())
     | IoFail n \<Rightarrow> (patch offset (take n data) file, Inl Io))"

definition read_at :: "io_outcome \<Rightarrow> bytes \<Rightarrow> nat \<Rightarrow> nat \<Rightarrow> bytes result" where
  "read_at outcome file offset len =
    (case outcome of
       IoOk \<Rightarrow> if offset + len \<le> length file then Inr (take len (drop offset file)) else Inl Io
     | IoFail _ \<Rightarrow> Inl Io)"

section \<open>Page files\<close>

text \<open>\<open>create\<close> leaves a file behind once it could be opened, also when its superblock cannot be written.\<close>

definition pagefile_create :: "page_env \<Rightarrow> io_outcome \<Rightarrow> io_outcome \<Rightarrow> u32 \<Rightarrow> u32 \<Rightarrow> u32 \<Rightarrow> bytes option \<times> PageFile result" where
  "pagefile_create env opened outcome page_size shard_id table_id =
    (case opened of
       IoFail _ \<Rightarrow> (None, Inl Io)
     | IoOk \<Rightarrow>
         let (file, written) = write_at outcome [] 0 (encode_superblock env page_size shard_id table_id)
         in (Some file, rmap (\<lambda>_. \<lparr>pf_file = file, pf_end = EXTENT_ALIGN, pf_free = []\<rparr>) written))"

definition pagefile_open :: "page_env \<Rightarrow> io_outcome \<Rightarrow> bytes \<Rightarrow> u32 \<Rightarrow> u32 \<Rightarrow> (PageFile \<times> u32) result" where
  "pagefile_open env outcome file shard_id table_id =
    rbind (read_at outcome file 0 SUPERBLOCK_LEN) (\<lambda>block.
    rbind (decode_superblock env block shard_id table_id) (\<lambda>page_size.
      Inr (\<lparr>pf_file = file, pf_end = slot_len (max (length file) EXTENT_ALIGN), pf_free = []\<rparr>, page_size)))"

definition allocate_slot :: "nat \<Rightarrow> PageFile \<Rightarrow> nat \<times> PageFile" where
  "allocate_slot slot pf =
    (case List.find (\<lambda>(_, len). len \<ge> slot) (pf_free pf) of
       Some (offset, len) \<Rightarrow>
         let free = bt_remove offset (pf_free pf)
         in (offset, pf\<lparr>pf_free := if len > slot then bt_insert (offset + slot) (len - slot) free else free\<rparr>)
     | None \<Rightarrow> (pf_end pf, pf\<lparr>pf_end := pf_end pf + slot\<rparr>))"

definition write_page :: "io_outcome \<Rightarrow> bytes \<Rightarrow> PageFile \<Rightarrow> PageFile \<times> Extent result" where
  "write_page outcome img pf =
    (let len = length img; (offset, pf) = allocate_slot (slot_len len) pf;
       (file, written) = write_at outcome (pf_file pf) offset img
     in (pf\<lparr>pf_file := file\<rparr>, rmap (\<lambda>_. \<lparr>ex_offset = offset, ex_len = len\<rparr>) written))"

definition read_page :: "io_outcome \<Rightarrow> Extent \<Rightarrow> PageFile \<Rightarrow> bytes result" where
  "read_page outcome e pf = read_at outcome (pf_file pf) (ex_offset e) (ex_len e)"

text \<open>The predecessor is the last free slot that starts before the offset.\<close>

definition free_before :: "nat \<Rightarrow> (nat, nat) btree \<Rightarrow> (nat \<times> nat) option" where
  "free_before offset free = (case rev (filter (\<lambda>(start, _). start < offset) free) of [] \<Rightarrow> None | x # _ \<Rightarrow> Some x)"

definition merge_before :: "nat \<Rightarrow> nat \<Rightarrow> (nat, nat) btree \<Rightarrow> nat \<times> nat \<times> (nat, nat) btree" where
  "merge_before offset len free =
    (case free_before offset free of
       Some (prev_off, prev_len) \<Rightarrow>
         if prev_off + prev_len = offset then (prev_off, len + prev_len, bt_remove prev_off free) else (offset, len, free)
     | None \<Rightarrow> (offset, len, free))"

definition merge_after :: "nat \<Rightarrow> nat \<Rightarrow> (nat, nat) btree \<Rightarrow> nat \<times> (nat, nat) btree" where
  "merge_after offset len free =
    (case bt_get free (offset + len) of
       Some next_len \<Rightarrow> (len + next_len, bt_remove (offset + len) free)
     | None \<Rightarrow> (len, free))"

definition free_extent :: "Extent \<Rightarrow> PageFile \<Rightarrow> PageFile" where
  "free_extent e pf =
    (let (offset, len, free) = merge_before (ex_offset e) (slot_len (ex_len e)) (pf_free pf);
       (len, free) = merge_after offset len free
     in pf\<lparr>pf_free := bt_insert offset len free\<rparr>)"

section \<open>Free space\<close>

definition space :: "nat \<Rightarrow> nat \<Rightarrow> nat set" where "space offset len = {offset ..< offset + len}"

definition free_space :: "(nat, nat) btree \<Rightarrow> nat set" where
  "free_space free = (\<Union>(offset, len) \<in> set free. space offset len)"

definition free_ok :: "(nat, nat) btree \<Rightarrow> bool" where
  "free_ok free = (sorted_wrt (\<lambda>(o1, l1) (o2, l2). o1 + l1 \<le> o2) free \<and> (\<forall>(_, len) \<in> set free. 0 < len))"

lemma free_space_simps [simp]:
  "free_space [] = {}"
  "free_space ((off, len) # free) = space off len \<union> free_space free"
  "free_space (f @ g) = free_space f \<union> free_space g"
  by (auto simp: free_space_def)

lemma space_join: "space off (l1 + l2) = space off l1 \<union> space (off + l1) l2"
  by (auto simp: space_def)

lemma free_ok_append:
  "free_ok (f @ g) \<longleftrightarrow> free_ok f \<and> free_ok g \<and> (\<forall>(o1, l1) \<in> set f. \<forall>(o2, l2) \<in> set g. o1 + l1 \<le> o2)"
  by (auto simp: free_ok_def sorted_wrt_append)

lemma free_ok_Cons:
  "free_ok ((off, len) # free) \<longleftrightarrow> 0 < len \<and> (\<forall>(o2, l2) \<in> set free. off + len \<le> o2) \<and> free_ok free"
  by (auto simp: free_ok_def)

lemma bt_insert_middle:
  assumes "\<forall>x \<in> fst ` set pre. x < k" "\<forall>x \<in> fst ` set post. k < x"
  shows "bt_insert k v (pre @ post) = pre @ (k, v) # post"
proof -
  have "bt_insert k v post = (k, v) # post" using assms(2) by (cases post) auto
  then show ?thesis using assms(1) by (induction pre) auto
qed

lemma bt_remove_middle: "k \<notin> fst ` set pre \<Longrightarrow> bt_remove k (pre @ (k, v) # post) = pre @ post"
  by (induction pre) auto

lemma free_keys:
  assumes "free_ok (pre @ (off, len) # post)"
  shows "\<forall>x \<in> fst ` set pre. x < off" "\<forall>x \<in> fst ` set post. off + len \<le> x" "0 < len"
proof -
  have pre: "0 < l1 \<and> o1 + l1 \<le> off" if "(o1, l1) \<in> set pre" for o1 l1
    using assms that by (fastforce simp: free_ok_def sorted_wrt_append)
  then show "\<forall>x \<in> fst ` set pre. x < off" by fastforce
  show "\<forall>x \<in> fst ` set post. off + len \<le> x" "0 < len" using assms by (auto simp: free_ok_def sorted_wrt_append)
qed

lemma allocate_slot_ok:
  assumes ok: "free_ok (pf_free pf)" and slot: "0 < slot" and al: "allocate_slot slot pf = (off, pf')"
    and below: "free_space (pf_free pf) \<subseteq> {lo ..< pf_end pf}"
  shows "free_ok (pf_free pf') \<and> free_space (pf_free pf') \<subseteq> free_space (pf_free pf) - space off slot \<and>
    pf_file pf' = pf_file pf \<and> pf_end pf \<le> pf_end pf' \<and>
    (space off slot \<subseteq> free_space (pf_free pf) \<or> off = pf_end pf \<and> pf_end pf' = pf_end pf + slot)"
proof (cases "List.find (\<lambda>(_, len). len \<ge> slot) (pf_free pf)")
  case None
  then show ?thesis using al ok below by (auto simp: allocate_slot_def space_def)
next
  case (Some x)
  obtain off' len where x: "x = (off', len)" by fastforce
  have "(off', len) \<in> set (pf_free pf)" "slot \<le> len"
    using Some x by (auto simp: find_Some_iff in_set_conv_nth)
  then obtain pre post where f: "pf_free pf = pre @ (off', len) # post" by (meson split_list)
  have o: "off = off'" using al Some x by (auto simp: allocate_slot_def Let_def)
  note k = free_keys [OF ok [unfolded f]]
  have rem: "bt_remove off' (pf_free pf) = pre @ post" unfolding f using k(1) by (intro bt_remove_middle) auto
  have new: "pf_free pf' = (if slot < len then pre @ (off + slot, len - slot) # post else pre @ post)"
  proof (cases "slot < len")
    case True
    have "bt_insert (off + slot) (len - slot) (pre @ post) = pre @ (off + slot, len - slot) # post"
      using k o True by (intro bt_insert_middle) fastforce+
    then show ?thesis using al Some x rem True o by (auto simp: allocate_slot_def)
  qed (use al Some x rem in \<open>auto simp: allocate_slot_def\<close>)
  have "free_ok (pf_free pf')"
    using ok new \<open>slot \<le> len\<close> slot o unfolding f by (fastforce simp: free_ok_append free_ok_Cons)
  moreover have "free_space (pre @ post) \<inter> space off len = {}"
    using ok o unfolding f by (fastforce simp: free_ok_append free_ok_Cons free_space_def space_def)
  moreover have "space off slot \<subseteq> space off len" "slot < len \<Longrightarrow> space (off + slot) (len - slot) \<inter> space off slot = {}"
    "slot < len \<Longrightarrow> space (off + slot) (len - slot) \<subseteq> space off len"
    using \<open>slot \<le> len\<close> by (auto simp: space_def)
  ultimately show ?thesis using new f o al Some x by (auto simp: allocate_slot_def Let_def)
qed

lemma free_split:
  assumes "free_ok free" "free_space free \<inter> space off len = {}" "0 < len"
  obtains pre post where "free = pre @ post" "filter (\<lambda>(start, _). start < off) free = pre"
    "\<forall>(o1, l1) \<in> set pre. o1 + l1 \<le> off" "\<forall>(o2, l2) \<in> set post. off + len \<le> o2"
proof -
  have sides: "o1 + l1 \<le> off \<and> o1 < off \<or> off + len \<le> o1" if "(o1, l1) \<in> set free" for o1 l1
  proof (rule ccontr)
    assume "\<not> ?thesis"
    moreover have "0 < l1" using assms(1) that by (auto simp: free_ok_def)
    ultimately have "max o1 off \<in> space o1 l1 \<inter> space off len" using assms(3) by (auto simp: space_def max_def)
    then show False using assms(2) that by (auto simp: free_space_def)
  qed
  have "filter (\<lambda>(start, _). start < off) free @ filter (\<lambda>(start, _). \<not> start < off) free = free"
    using assms(1)
  proof (induction free)
    case (Cons x free)
    obtain o1 l1 where x: "x = (o1, l1)" by fastforce
    have later: "o1 + l1 \<le> o2" if "(o2, l2) \<in> set free" for o2 l2
      using Cons.prems that x by (auto simp: free_ok_Cons)
    have "filter (\<lambda>(start, _). start < off) free = []" if "\<not> o1 < off"
    proof (clarsimp simp: filter_empty_conv)
      fix o2 l2 assume "(o2, l2) \<in> set free" "o2 < off"
      then show False using later [of o2 l2] that by simp
    qed
    then show ?case using Cons x by (auto simp: free_ok_Cons)
  qed simp
  moreover have "\<forall>(o1, l1) \<in> set (filter (\<lambda>(start, _). start < off) free). o1 + l1 \<le> off" using sides assms(3) by force
  moreover have "\<forall>(o1, l1) \<in> set (filter (\<lambda>(start, _). \<not> start < off) free). off + len \<le> o1" using sides by force
  ultimately show ?thesis using that [OF _ refl] by metis
qed

lemma free_extent_ok:
  assumes ok: "free_ok (pf_free pf)" and dis: "free_space (pf_free pf) \<inter> space (ex_offset e) (slot_len (ex_len e)) = {}"
    and len: "0 < slot_len (ex_len e)"
  shows "free_ok (pf_free (free_extent e pf)) \<and>
    free_space (pf_free (free_extent e pf)) = free_space (pf_free pf) \<union> space (ex_offset e) (slot_len (ex_len e))"
proof -
  let ?off = "ex_offset e" and ?len = "slot_len (ex_len e)"
  obtain pre post where s: "pf_free pf = pre @ post" "filter (\<lambda>(start, _). start < ?off) (pf_free pf) = pre"
      "\<forall>(o1, l1) \<in> set pre. o1 + l1 \<le> ?off" "\<forall>(o2, l2) \<in> set post. ?off + ?len \<le> o2"
    using free_split [OF ok dis len] by blast
  obtain off1 len1 pre1 where b: "merge_before ?off ?len (pf_free pf) = (off1, len1, pre1 @ post)"
    "free_ok (pre1 @ (off1, len1) # post)" "off1 + len1 = ?off + ?len"
    "free_space pre1 \<union> space off1 len1 = free_space pre \<union> space ?off ?len"
  proof -
    note before = merge_before_def free_before_def s(2)
    consider (merge) pre1 o1 l1 where "pre = pre1 @ [(o1, l1)]" "o1 + l1 = ?off"
      | (keep) "merge_before ?off ?len (pf_free pf) = (?off, ?len, pre @ post)"
    proof (cases pre rule: rev_cases)
      case Nil
      then show ?thesis using that(2) s(1) unfolding before by simp
    next
      case (snoc pre1 x)
      obtain o1 l1 where x: "x = (o1, l1)" by fastforce
      show ?thesis
        using that(1) [of pre1 o1 l1] that(2) snoc x s(1) unfolding before by (cases "o1 + l1 = ?off") simp_all
    qed
    then show ?thesis
    proof cases
      case merge
      have "o1 \<notin> fst ` set pre1" using ok s(1) merge free_keys(1) [of pre1 o1 l1 post] by auto
      then have "merge_before ?off ?len (pf_free pf) = (o1, ?len + l1, pre1 @ post)"
        unfolding before using s(1) merge by (simp add: bt_remove_middle)
      moreover have "free_ok (pre1 @ (o1, ?len + l1) # post)"
        using ok s(1, 4) merge by (fastforce simp: free_ok_append free_ok_Cons)
      ultimately show ?thesis using that [of o1 "?len + l1" pre1] merge space_join [of o1 l1 ?len]
        by (simp add: add.commute Un_assoc)
    next
      case keep
      have "free_ok (pre @ (?off, ?len) # post)"
        using ok len s(3, 4) unfolding s(1) free_ok_append free_ok_Cons by fastforce
      then show ?thesis using that [of ?off ?len pre] keep by simp
    qed
  qed
  obtain len2 post2 where a: "merge_after off1 len1 (pre1 @ post) = (len2, pre1 @ post2)"
    "free_ok (pre1 @ (off1, len2) # post2)" "space off1 len2 \<union> free_space post2 = space off1 len1 \<union> free_space post"
  proof -
    have pre1: "off1 + len1 \<notin> fst ` set pre1" using free_keys [OF b(2)] by fastforce
    consider (merge) l2 post2 where "post = (off1 + len1, l2) # post2"
      | (keep) "bt_get post (off1 + len1) = None"
    proof (cases post)
      case (Cons x post2)
      obtain o2 l2 where x: "x = (o2, l2)" by fastforce
      have "o2 \<noteq> off1 + len1 \<Longrightarrow> bt_get post (off1 + len1) = None"
        using b(2) Cons x by (fastforce simp: bt_get_None_iff free_ok_append free_ok_Cons)
      then show ?thesis using that Cons x by blast
    qed (use that in simp)
    then show ?thesis
    proof cases
      case merge
      have "bt_get (pre1 @ post) (off1 + len1) = Some l2"
        using pre1 merge by (simp add: bt_get_def map_add_def map_of_eq_None_iff [THEN iffD2] split: option.splits)
      then have "merge_after off1 len1 (pre1 @ post) = (len1 + l2, pre1 @ post2)"
        using merge pre1 by (simp add: merge_after_def bt_remove_middle)
      moreover have "free_ok (pre1 @ (off1, len1 + l2) # post2)"
        using b(2) merge by (fastforce simp: free_ok_append free_ok_Cons)
      ultimately show ?thesis using that [of "len1 + l2" post2] merge by (simp add: space_join Un_assoc)
    next
      case keep
      have "bt_get (pre1 @ post) (off1 + len1) = None"
        using keep pre1 by (auto simp: bt_get_None_iff)
      then show ?thesis using that [of len1 post] b(2) by (simp add: merge_after_def)
    qed
  qed
  have "bt_insert off1 len2 (pre1 @ post2) = pre1 @ (off1, len2) # post2"
    using free_keys [OF a(2)] by (intro bt_insert_middle) fastforce+
  then have "pf_free (free_extent e pf) = pre1 @ (off1, len2) # post2"
    using b(1) a(1) by (simp add: free_extent_def)
  then show ?thesis using a(2, 3) b(4) s(1) by auto
qed

section \<open>Bytes of a slot\<close>

lemma length_patch: "length (patch off data file) = (if data = [] then length file else max (length file) (off + length data))"
  by (auto simp: patch_def)

lemma patch_same: "take (length data) (drop off (patch off data file)) = data"
proof (cases "data = []")
  case False
  have "length (take off (file @ replicate (off - length file) 0)) = off" by simp
  then show ?thesis using False by (simp add: patch_def)
qed simp

lemma patch_nth:
  assumes "i < length file" "i \<notin> space off (length data)"
  shows "patch off data file ! i = file ! i"
proof (cases "i < off")
  case True
  then show ?thesis using assms by (auto simp: patch_def nth_append)
next
  case False
  then have "off + length data \<le> i" using assms(2) by (auto simp: space_def)
  then show ?thesis using assms(1) by (auto simp: patch_def nth_append min_def)
qed

lemma patch_other:
  assumes "off' + len \<le> length file" "space off' len \<inter> space off (length data) = {}"
  shows "take len (drop off' (patch off data file)) = take len (drop off' file)"
proof (rule nth_equalityI)
  show "length (take len (drop off' (patch off data file))) = length (take len (drop off' file))"
    using assms(1) by (simp add: length_patch)
  fix i assume i: "i < length (take len (drop off' (patch off data file)))"
  then have "i < len" by simp
  then have "off' + i \<notin> space off (length data)" using assms(2) by (auto simp: space_def)
  then show "take len (drop off' (patch off data file)) ! i = take len (drop off' file) ! i"
    using patch_nth [of "off' + i" "file" off data] \<open>i < len\<close> assms(1) length_patch [of off data "file"]
    by (simp split: if_splits)
qed

lemma slot_len_ge: "len \<le> slot_len len"
  by (simp add: slot_len_def EXTENT_ALIGN_def)

lemma slot_space: "space off len \<subseteq> space off (slot_len len)"
  using slot_len_ge [of len] by (auto simp: space_def)

section \<open>Layout\<close>

text \<open>
  The live extents of a file, by page, are in slots of their own: apart from each other, from the free
  slots, from the superblock and within the file.
\<close>

definition slot :: "Extent \<Rightarrow> nat set" where "slot x = space (ex_offset x) (slot_len (ex_len x))"

definition extent_bytes :: "PageFile \<Rightarrow> Extent \<Rightarrow> bytes" where
  "extent_bytes pf x = take (ex_len x) (drop (ex_offset x) (pf_file pf))"

definition placed_in :: "PageFile \<Rightarrow> Extent \<Rightarrow> bool" where
  "placed_in pf x = (0 < ex_len x \<and> slot x \<subseteq> {EXTENT_ALIGN ..< pf_end pf} \<and> slot x \<inter> free_space (pf_free pf) = {} \<and>
    ex_offset x + ex_len x \<le> length (pf_file pf))"

definition layout_ok :: "PageFile \<Rightarrow> ('p \<Rightarrow> Extent option) \<Rightarrow> bool" where
  "layout_ok pf live = (free_ok (pf_free pf) \<and> free_space (pf_free pf) \<subseteq> {EXTENT_ALIGN ..< pf_end pf} \<and>
    EXTENT_ALIGN \<le> pf_end pf \<and>
    (\<forall>p x. live p = Some x \<longrightarrow> placed_in pf x) \<and>
    (\<forall>p q x y. live p = Some x \<and> live q = Some y \<and> p \<noteq> q \<longrightarrow> slot x \<inter> slot y = {}))"

definition unused :: "('p \<Rightarrow> Extent option) \<Rightarrow> Extent \<Rightarrow> bool" where
  "unused live x = (\<forall>p y. live p = Some y \<longrightarrow> slot x \<inter> slot y = {})"

lemma layout_new: "free = [] \<Longrightarrow> EXTENT_ALIGN \<le> end \<Longrightarrow> layout_ok \<lparr>pf_file = file, pf_end = end, pf_free = free\<rparr> (\<lambda>_. None)"
  by (simp add: layout_ok_def free_ok_def)

lemma layout_add:
  assumes "layout_ok pf live" "placed_in pf x" "unused live x"
  shows "layout_ok pf (live(p \<mapsto> x))"
  using assms unfolding layout_ok_def unused_def by (auto split: if_splits)

lemma layout_remove: "layout_ok pf live \<Longrightarrow> layout_ok pf (live(p := None))"
  unfolding layout_ok_def by auto

lemma layout_free:
  assumes "layout_ok pf live" "live p = Some x"
  shows "layout_ok (free_extent x pf) (live(p := None))" "pf_file (free_extent x pf) = pf_file pf"
    "pf_end (free_extent x pf) = pf_end pf" "free_space (pf_free (free_extent x pf)) = free_space (pf_free pf) \<union> slot x"
proof -
  have x: "placed_in pf x" using assms unfolding layout_ok_def by blast
  have other: "slot y \<inter> slot x = {}" if "live q = Some y" "q \<noteq> p" for q y
    using assms that unfolding layout_ok_def by blast
  have "free_ok (pf_free pf)" using assms(1) by (simp add: layout_ok_def)
  moreover have "0 < slot_len (ex_len x)" using x slot_len_ge [of "ex_len x"] by (simp add: placed_in_def)
  moreover have "free_space (pf_free pf) \<inter> space (ex_offset x) (slot_len (ex_len x)) = {}"
    using x by (auto simp: placed_in_def slot_def)
  ultimately have free: "free_ok (pf_free (free_extent x pf))" "free_space (pf_free (free_extent x pf)) = free_space (pf_free pf) \<union> slot x"
    using free_extent_ok [of pf x] by (auto simp: slot_def)
  show same: "pf_file (free_extent x pf) = pf_file pf" "pf_end (free_extent x pf) = pf_end pf"
    by (simp_all add: free_extent_def split: prod.split)
  show "free_space (pf_free (free_extent x pf)) = free_space (pf_free pf) \<union> slot x" by (rule free(2))
  have "placed_in (free_extent x pf) y" if "live q = Some y" "q \<noteq> p" for q y
    using assms(1) that other [OF that] unfolding layout_ok_def placed_in_def free(2) same by blast
  then show "layout_ok (free_extent x pf) (live(p := None))"
    using assms(1) x free(1) unfolding layout_ok_def free(2) same by (auto simp: placed_in_def split: if_splits)
qed

lemma write_page_ok:
  assumes ok: "layout_ok pf live" and data: "data \<noteq> []" and wr: "write_page outcome data pf = (pf', r)"
  shows "layout_ok pf' live" "live p = Some x \<Longrightarrow> extent_bytes pf' x = extent_bytes pf x"
    "r = Inr x \<Longrightarrow> placed_in pf' x \<and> unused live x \<and> extent_bytes pf' x = data"
proof -
  let ?slot = "slot_len (length data)"
  obtain off q where al: "allocate_slot ?slot pf = (off, q)" by fastforce
  have pos: "0 < ?slot" using data slot_len_ge [of "length data"] by (cases data) auto
  have free: "free_ok (pf_free pf)" "free_space (pf_free pf) \<subseteq> {EXTENT_ALIGN ..< pf_end pf}" "EXTENT_ALIGN \<le> pf_end pf"
    using ok by (simp_all add: layout_ok_def)
  note q = allocate_slot_ok [OF free(1) pos al free(2)]
  define d where "d = (case outcome of IoOk \<Rightarrow> data | IoFail n \<Rightarrow> take n data)"
  have pf': "pf' = q\<lparr>pf_file := patch off d (pf_file pf)\<rparr>"
    and r: "r = (case outcome of IoOk \<Rightarrow> Inr \<lparr>ex_offset = off, ex_len = length data\<rparr> | IoFail _ \<Rightarrow> Inl Io)"
    using wr al q by (auto simp: write_page_def write_at_def d_def Let_def split: io_outcome.splits)
  have d: "length d \<le> length data" by (simp add: d_def split: io_outcome.split)
  have grows: "{EXTENT_ALIGN ..< pf_end pf} \<subseteq> {EXTENT_ALIGN ..< pf_end q}" using q by auto
  have at: "space off ?slot \<subseteq> free_space (pf_free pf) \<or> off = pf_end pf \<and> pf_end q = pf_end pf + ?slot" using q by blast
  then have mine: "space off ?slot \<subseteq> {EXTENT_ALIGN ..< pf_end q}"
  proof
    assume "space off ?slot \<subseteq> free_space (pf_free pf)"
    then show ?thesis using free(2) grows by blast
  qed (use free(3) in \<open>auto simp: space_def\<close>)
  have mine_free: "space off ?slot \<inter> free_space (pf_free q) = {}" using q by blast
  have written: "space off (length d) \<subseteq> space off ?slot" using d slot_len_ge [of "length data"] by (auto simp: space_def)
  have apart: "slot y \<inter> space off ?slot = {}" if "live p = Some y" for p y
  proof -
    have "slot y \<inter> free_space (pf_free pf) = {}" "slot y \<subseteq> {EXTENT_ALIGN ..< pf_end pf}"
      using ok that unfolding layout_ok_def placed_in_def by blast+
    then show ?thesis using at by (force simp: space_def)
  qed
  have keep: "extent_bytes pf' y = extent_bytes pf y \<and> placed_in pf' y" if "live p = Some y" for p y
  proof -
    have y: "placed_in pf y" using ok that unfolding layout_ok_def by blast
    have "space (ex_offset y) (ex_len y) \<inter> space off (length d) = {}"
      using apart [OF that] written slot_space [of "ex_offset y" "ex_len y"] unfolding slot_def by blast
    then have "extent_bytes pf' y = extent_bytes pf y"
      using patch_other y by (simp add: extent_bytes_def pf' placed_in_def)
    moreover have "placed_in pf' y"
      using y q length_patch [of off d "pf_file pf"] unfolding placed_in_def pf' by (auto split: if_splits)
    ultimately show ?thesis by simp
  qed
  show "extent_bytes pf' x = extent_bytes pf x" if "live p = Some x" using keep [OF that] by simp
  have bounds: "free_space (pf_free q) \<subseteq> {EXTENT_ALIGN ..< pf_end q}" "EXTENT_ALIGN \<le> pf_end q" using q free by auto
  have pairs: "\<forall>p q x y. live p = Some x \<and> live q = Some y \<and> p \<noteq> q \<longrightarrow> slot x \<inter> slot y = {}"
    using ok unfolding layout_ok_def by blast
  show "layout_ok pf' live" using keep q bounds pairs unfolding layout_ok_def pf' by simp
  show "placed_in pf' x \<and> unused live x \<and> extent_bytes pf' x = data" if x: "r = Inr x"
  proof -
    have io: "outcome = IoOk" and x: "x = \<lparr>ex_offset = off, ex_len = length data\<rparr>"
      using x unfolding r by (auto split: io_outcome.splits)
    have dd: "d = data" by (simp add: d_def io)
    have sl: "slot x = space off ?slot" by (simp add: slot_def x)
    have "unused live x" unfolding unused_def sl using apart by blast
    moreover have "off + length data \<le> length (patch off data (pf_file pf))" using data by (simp add: length_patch)
    then have "placed_in pf' x" using mine mine_free sl data unfolding placed_in_def pf' dd by (simp add: x)
    ultimately show ?thesis using patch_same [of data off "pf_file pf"] by (simp add: extent_bytes_def pf' dd x)
  qed
qed

end
