(* ===== verification/BufferPool.thy ===== *)
theory BufferPool
  imports Pages "HOL-Library.AList"
begin

text \<open>
  The buffer pool, \<open>src/crates/fluxum-core/src/store/pager/pool.rs\<close>: a fixed set of frames with pins,
  second-chance eviction, watermark reclaim and spilling of dirty victims through a callback.  Operations
  are run one at a time, so the set of pages in flight, which only makes other threads wait, is left out,
  as are the metric counters.  The watermarks are given in frames: the product with the configured
  fractions is floating point.  The insertion loop takes fuel, and running out of it means not returning.
\<close>

section \<open>Pages and frames\<close>

record PageKey =
  key_shard :: u32
  key_table :: u32
  key_page :: u64

record Frame =
  fr_key :: PageKey
  fr_data :: bytes
  fr_pins :: nat
  fr_referenced :: bool
  fr_dirty :: bool

record PoolInner =
  pool_map :: "(PageKey \<times> nat) list"
  pool_frames :: "Frame option list"
  free_slots :: "nat list"
  hand :: nat
  reclaiming :: bool

record PoolLimits =
  lim_frames :: nat
  high_frames :: nat
  low_frames :: nat

record PageGuard =
  gd_slot :: nat
  gd_key :: PageKey
  gd_data :: bytes

definition pool_limits :: "nat \<Rightarrow> nat \<Rightarrow> nat \<Rightarrow> PoolLimits" where
  "pool_limits frames high low =
    (let frames = max frames 1; high = min (max high 1) frames
     in \<lparr>lim_frames = frames, high_frames = high, low_frames = min low high\<rparr>)"

definition pool_new :: "PoolLimits \<Rightarrow> PoolInner" where
  "pool_new lim =
    \<lparr>pool_map = [], pool_frames = replicate (lim_frames lim) None, free_slots = [0 ..< lim_frames lim],
     hand = 0, reclaiming = False\<rparr>"

definition occupied :: "PoolInner \<Rightarrow> nat" where "occupied p = length (pool_map p)"

definition set_frame :: "nat \<Rightarrow> Frame option \<Rightarrow> PoolInner \<Rightarrow> PoolInner" where
  "set_frame slot f p = p\<lparr>pool_frames := (pool_frames p)[slot := f]\<rparr>"

section \<open>Hits and pins\<close>

definition pin_hit :: "PageKey \<Rightarrow> nat \<Rightarrow> PoolInner \<Rightarrow> PoolInner \<times> PageGuard result" where
  "pin_hit key slot p =
    (case pool_frames p ! slot of
       None \<Rightarrow> (p, Inl (Storage ''pool map points at an empty slot''))
     | Some f \<Rightarrow>
         (set_frame slot (Some (f\<lparr>fr_referenced := True, fr_pins := fr_pins f + 1\<rparr>)) p,
          Inr \<lparr>gd_slot = slot, gd_key = key, gd_data = fr_data f\<rparr>))"

definition guard_drop :: "PageGuard \<Rightarrow> PoolInner \<Rightarrow> PoolInner" where
  "guard_drop g p =
    (case pool_frames p ! gd_slot g of
       None \<Rightarrow> p
     | Some f \<Rightarrow> if fr_key f = gd_key g then set_frame (gd_slot g) (Some (f\<lparr>fr_pins := fr_pins f - 1\<rparr>)) p else p)"

definition pool_lookup :: "PageKey \<Rightarrow> PoolInner \<Rightarrow> PoolInner \<times> PageGuard option" where
  "pool_lookup key p =
    (case map_of (pool_map p) key of
       None \<Rightarrow> (p, None)
     | Some slot \<Rightarrow> (case pin_hit key slot p of (p, Inr g) \<Rightarrow> (p, Some g) | (p, Inl _) \<Rightarrow> (p, None)))"

section \<open>Eviction\<close>

fun sweep :: "nat \<Rightarrow> PoolInner \<Rightarrow> nat option \<Rightarrow> PoolInner \<times> nat option" where
  "sweep 0 p candidate = (p, candidate)"
| "sweep (Suc n) p candidate =
    (let slot = hand p; p = p\<lparr>hand := (slot + 1) mod length (pool_frames p)\<rparr> in
     case pool_frames p ! slot of
       None \<Rightarrow> sweep n p candidate
     | Some f \<Rightarrow>
         if fr_pins f > 0 then sweep n p candidate
         else if fr_referenced f then sweep n (set_frame slot (Some (f\<lparr>fr_referenced := False\<rparr>)) p) candidate
         else if \<not> fr_dirty f then (p, Some slot)
         else sweep n p (if candidate = None then Some slot else candidate))"

definition pick_victim :: "PoolInner \<Rightarrow> PoolInner \<times> nat option" where
  "pick_victim p = sweep (2 * length (pool_frames p)) p None"

definition put_frame :: "Frame \<Rightarrow> PoolInner \<Rightarrow> PoolInner" where
  "put_frame f p =
    (let slot = last (free_slots p); p = set_frame slot (Some f) p
     in p\<lparr>free_slots := butlast (free_slots p), pool_map := AList.update (fr_key f) slot (pool_map p)\<rparr>)"

definition take_frame :: "PageKey \<Rightarrow> nat \<Rightarrow> PoolInner \<Rightarrow> PoolInner" where
  "take_frame key slot p =
    (let p = set_frame slot None p
     in p\<lparr>pool_map := AList.delete key (pool_map p), free_slots := free_slots p @ [slot]\<rparr>)"

text \<open>One turn of the loop of \<open>install_with\<close>: a result, or \<open>None\<close> to go round again.\<close>

definition evict :: "(PageKey \<Rightarrow> bytes \<Rightarrow> 's \<Rightarrow> 's \<times> unit result) \<Rightarrow> nat \<Rightarrow> PoolInner \<Rightarrow> 's \<Rightarrow>
    PoolInner \<times> 's \<times> PageGuard result option" where
  "evict spill slot p s =
    (case pool_frames p ! slot of
       None \<Rightarrow> (p, s, Some (Inl (Storage ''clock hand picked an empty slot'')))
     | Some victim \<Rightarrow>
         let p = take_frame (fr_key victim) slot p in
         if fr_dirty victim then
           (case spill (fr_key victim) (fr_data victim) s of
              (s, Inl e) \<Rightarrow> (if free_slots p = [] then p else put_frame victim p, s, Some (Inl e))
            | (s, Inr _) \<Rightarrow> (p, s, None))
         else (p, s, None))"

definition install_turn :: "PoolLimits \<Rightarrow> (PageKey \<Rightarrow> bytes \<Rightarrow> 's \<Rightarrow> 's \<times> unit result) \<Rightarrow>
    PageKey \<Rightarrow> bytes \<Rightarrow> bool \<Rightarrow> bool \<Rightarrow> PoolInner \<Rightarrow> 's \<Rightarrow> PoolInner \<times> 's \<times> PageGuard result option" where
  "install_turn lim spill key data dirty referenced p s =
    (case map_of (pool_map p) key of
       Some slot \<Rightarrow> (case pin_hit key slot p of (p, r) \<Rightarrow> (p, s, Some r))
     | None \<Rightarrow>
         let p = (if occupied p + 1 > high_frames lim then p\<lparr>reclaiming := True\<rparr> else p);
           must_evict = occupied p \<ge> lim_frames lim;
           want_evict = reclaiming p \<and> occupied p + 1 > low_frames lim
         in if \<not> must_evict \<and> \<not> want_evict then
              let p = p\<lparr>reclaiming := False\<rparr> in
              if free_slots p = [] then (p, s, Some (Inl (Storage ''pool accounting broke'')))
              else (put_frame \<lparr>fr_key = key, fr_data = data, fr_pins = 1, fr_referenced = referenced, fr_dirty = dirty\<rparr> p, s,
                Some (Inr \<lparr>gd_slot = last (free_slots p), gd_key = key, gd_data = data\<rparr>))
            else (case pick_victim p of
                (p, None) \<Rightarrow>
                  if must_evict then (p, s, Some (Inl (BufferPoolExhausted (lim_frames lim))))
                  else (p\<lparr>reclaiming := False\<rparr>, s, None)
              | (p, Some slot) \<Rightarrow> evict spill slot p s))"

fun install_loop :: "nat \<Rightarrow> PoolLimits \<Rightarrow> (PageKey \<Rightarrow> bytes \<Rightarrow> 's \<Rightarrow> 's \<times> unit result) \<Rightarrow>
    PageKey \<Rightarrow> bytes \<Rightarrow> bool \<Rightarrow> bool \<Rightarrow> PoolInner \<Rightarrow> 's \<Rightarrow> (PoolInner \<times> 's \<times> PageGuard result) option" where
  "install_loop 0 lim spill key data dirty referenced p s = None"
| "install_loop (Suc n) lim spill key data dirty referenced p s =
    (case install_turn lim spill key data dirty referenced p s of
       (p, s, Some r) \<Rightarrow> Some (p, s, r)
     | (p, s, None) \<Rightarrow> install_loop n lim spill key data dirty referenced p s)"

definition install_with :: "PoolLimits \<Rightarrow> (PageKey \<Rightarrow> bytes \<Rightarrow> 's \<Rightarrow> 's \<times> unit result) \<Rightarrow>
    PageKey \<Rightarrow> bytes \<Rightarrow> bool \<Rightarrow> bool \<Rightarrow> PoolInner \<Rightarrow> 's \<Rightarrow> (PoolInner \<times> 's \<times> PageGuard result) option" where
  "install_with lim spill key data dirty referenced p s =
    install_loop (lim_frames lim + 2) lim spill key data dirty referenced p s"

section \<open>Operations\<close>

definition get_or_fault :: "PoolLimits \<Rightarrow> ('s \<Rightarrow> 's \<times> bytes result) \<Rightarrow> (PageKey \<Rightarrow> bytes \<Rightarrow> 's \<Rightarrow> 's \<times> unit result) \<Rightarrow>
    PageKey \<Rightarrow> PoolInner \<Rightarrow> 's \<Rightarrow> (PoolInner \<times> 's \<times> PageGuard result) option" where
  "get_or_fault lim read spill key p s =
    (case map_of (pool_map p) key of
       Some slot \<Rightarrow> (case pin_hit key slot p of (p, r) \<Rightarrow> Some (p, s, r))
     | None \<Rightarrow>
         (case read s of
            (s, Inl e) \<Rightarrow> Some (p, s, Inl e)
          | (s, Inr img) \<Rightarrow> install_with lim spill key img False True p s))"

definition pool_install :: "PoolLimits \<Rightarrow> (PageKey \<Rightarrow> bytes \<Rightarrow> 's \<Rightarrow> 's \<times> unit result) \<Rightarrow>
    PageKey \<Rightarrow> bytes \<Rightarrow> bool \<Rightarrow> PoolInner \<Rightarrow> 's \<Rightarrow> (PoolInner \<times> 's \<times> PageGuard result) option" where
  "pool_install lim spill key img referenced p s = install_with lim spill key img True referenced p s"

definition pool_write :: "PageGuard \<Rightarrow> bytes \<Rightarrow> PoolInner \<Rightarrow> PoolInner \<times> PageGuard result" where
  "pool_write g img p =
    (case pool_frames p ! gd_slot g of
       None \<Rightarrow> (p, Inl (Storage ''write_page: pinned frame vanished under its guard''))
     | Some f \<Rightarrow>
         if fr_key f \<noteq> gd_key g then (p, Inl (Storage ''write_page: pinned frame vanished under its guard''))
         else (set_frame (gd_slot g) (Some (f\<lparr>fr_data := img, fr_dirty := True, fr_referenced := True\<rparr>)) p,
               Inr (g\<lparr>gd_data := img\<rparr>)))"

definition mark_clean :: "PageKey \<Rightarrow> bytes \<Rightarrow> PoolInner \<Rightarrow> PoolInner" where
  "mark_clean key data p =
    (case map_of (pool_map p) key of
       None \<Rightarrow> p
     | Some slot \<Rightarrow>
         (case pool_frames p ! slot of
            None \<Rightarrow> p
          | Some f \<Rightarrow> if fr_data f = data then set_frame slot (Some (f\<lparr>fr_dirty := False\<rparr>)) p else p))"

fun flush_loop :: "(PageKey \<Rightarrow> bytes \<Rightarrow> 's \<Rightarrow> 's \<times> unit result) \<Rightarrow> (PageKey \<times> bytes) list \<Rightarrow>
    PoolInner \<Rightarrow> 's \<Rightarrow> PoolInner \<times> 's \<times> unit result" where
  "flush_loop spill [] p s = (p, s, Inr ())"
| "flush_loop spill ((key, data) # rest) p s =
    (case spill key data s of
       (s, Inl e) \<Rightarrow> (p, s, Inl e)
     | (s, Inr _) \<Rightarrow> flush_loop spill rest (mark_clean key data p) s)"

definition dirty_pages :: "PoolInner \<Rightarrow> (PageKey \<times> bytes) list" where
  "dirty_pages p = List.map_filter (\<lambda>f. case f of None \<Rightarrow> None
     | Some f \<Rightarrow> if fr_dirty f then Some (fr_key f, fr_data f) else None) (pool_frames p)"

definition pool_flush :: "(PageKey \<Rightarrow> bytes \<Rightarrow> 's \<Rightarrow> 's \<times> unit result) \<Rightarrow> PoolInner \<Rightarrow> 's \<Rightarrow> PoolInner \<times> 's \<times> unit result" where
  "pool_flush spill p s = flush_loop spill (dirty_pages p) p s"

definition evict_slot :: "nat \<Rightarrow> PoolInner \<Rightarrow> PoolInner" where
  "evict_slot slot p =
    (case pool_frames p ! slot of
       None \<Rightarrow> p
     | Some f \<Rightarrow> if fr_pins f = 0 \<and> \<not> fr_dirty f then take_frame (fr_key f) slot p else p)"

definition evict_all :: "(PageKey \<Rightarrow> bytes \<Rightarrow> 's \<Rightarrow> 's \<times> unit result) \<Rightarrow> PoolInner \<Rightarrow> 's \<Rightarrow> PoolInner \<times> 's \<times> unit result" where
  "evict_all spill p s =
    (case pool_flush spill p s of
       (p, s, Inl e) \<Rightarrow> (p, s, Inl e)
     | (p, s, Inr _) \<Rightarrow> (fold evict_slot [0 ..< length (pool_frames p)] p, s, Inr ()))"

definition discard :: "PageKey \<Rightarrow> PoolInner \<Rightarrow> PoolInner \<times> unit result" where
  "discard key p =
    (case map_of (pool_map p) key of
       None \<Rightarrow> (p, Inr ())
     | Some slot \<Rightarrow>
         if (case pool_frames p ! slot of None \<Rightarrow> False | Some f \<Rightarrow> fr_pins f > 0)
         then (p, Inl (Storage ''discard of pinned page''))
         else (take_frame key slot p, Inr ()))"

section \<open>Well-formed pools\<close>

definition frame_at :: "PoolInner \<Rightarrow> PageKey \<Rightarrow> Frame option" where
  "frame_at p k = (case map_of (pool_map p) k of None \<Rightarrow> None | Some slot \<Rightarrow> pool_frames p ! slot)"

definition limits_ok :: "PoolLimits \<Rightarrow> bool" where
  "limits_ok lim = (1 \<le> high_frames lim \<and> high_frames lim \<le> lim_frames lim \<and> low_frames lim \<le> high_frames lim)"

definition pool_ok :: "PoolLimits \<Rightarrow> PoolInner \<Rightarrow> bool" where
  "pool_ok lim p =
    (limits_ok lim \<and> length (pool_frames p) = lim_frames lim \<and> hand p < lim_frames lim \<and> distinct (map fst (pool_map p)) \<and>
     (\<forall>k slot. map_of (pool_map p) k = Some slot \<longleftrightarrow>
        slot < lim_frames lim \<and> (\<exists>f. pool_frames p ! slot = Some f \<and> fr_key f = k)) \<and>
     distinct (free_slots p) \<and> set (free_slots p) = {slot. slot < lim_frames lim \<and> pool_frames p ! slot = None} \<and>
     occupied p + length (free_slots p) = lim_frames lim)"

text \<open>What a client can see of a resident page: its image, its pins and whether it is dirty.\<close>

definition obs :: "PoolInner \<Rightarrow> PageKey \<Rightarrow> (bytes \<times> nat \<times> bool) option" where
  "obs p k = map_option (\<lambda>f. (fr_data f, fr_pins f, fr_dirty f)) (frame_at p k)"

definition pins :: "PoolInner \<Rightarrow> PageKey \<Rightarrow> nat" where
  "pins p k = (case obs p k of None \<Rightarrow> 0 | Some (_, n, _) \<Rightarrow> n)"

lemma limits_new: "limits_ok (pool_limits frames high low)"
  by (auto simp: limits_ok_def pool_limits_def Let_def)

lemma pool_new_ok: "limits_ok lim \<Longrightarrow> pool_ok lim (pool_new lim)"
  by (auto simp: pool_ok_def pool_new_def occupied_def limits_ok_def)

lemma update_fresh: "k \<notin> fst ` set al \<Longrightarrow> length (AList.update k v al) = length al + 1"
  by (induction al) auto

lemma length_delete: "distinct (map fst al) \<Longrightarrow> k \<in> fst ` set al \<Longrightarrow> length (AList.delete k al) + 1 = length al"
proof (induction al)
  case (Cons x al)
  then show ?case by (cases "fst x = k") (auto simp: delete_id)
qed simp

lemma map_iff:
  "pool_ok lim p \<Longrightarrow> map_of (pool_map p) k = Some slot \<longleftrightarrow>
    slot < lim_frames lim \<and> (\<exists>f. pool_frames p ! slot = Some f \<and> fr_key f = k)"
  unfolding pool_ok_def by blast

lemma frame_at_slot:
  assumes "pool_ok lim p" "map_of (pool_map p) k = Some slot"
  obtains f where "frame_at p k = Some f" "pool_frames p ! slot = Some f" "fr_key f = k" "slot < lim_frames lim"
  using assms map_iff [OF assms(1)] by (auto simp: frame_at_def)

lemma obs_None: "pool_ok lim p \<Longrightarrow> obs p k = None \<longleftrightarrow> map_of (pool_map p) k = None"
  by (cases "map_of (pool_map p) k") (auto simp: obs_def frame_at_def elim: frame_at_slot)

lemma slot_key:
  assumes "pool_ok lim p" "slot < lim_frames lim" "pool_frames p ! slot = Some f"
  shows "map_of (pool_map p) (fr_key f) = Some slot" "frame_at p (fr_key f) = Some f"
proof -
  show m: "map_of (pool_map p) (fr_key f) = Some slot" using assms(2, 3) map_iff [OF assms(1)] by blast
  show "frame_at p (fr_key f) = Some f" using m assms(3) by (simp add: frame_at_def)
qed

lemma other_slot:
  assumes "pool_ok lim p" "map_of (pool_map p) k = Some slot" "map_of (pool_map p) k' = Some slot'" "k \<noteq> k'"
  shows "slot \<noteq> slot'"
  using assms by (auto simp: map_iff)

lemma pool_parts:
  assumes "pool_ok lim p"
  shows "limits_ok lim" "length (pool_frames p) = lim_frames lim" "hand p < lim_frames lim" "distinct (map fst (pool_map p))"
    "distinct (free_slots p)" "set (free_slots p) = {slot. slot < lim_frames lim \<and> pool_frames p ! slot = None}"
    "occupied p + length (free_slots p) = lim_frames lim"
  using assms unfolding pool_ok_def by blast+

lemma set_frame_ok:
  assumes "pool_ok lim p" "map_of (pool_map p) k = Some slot" "fr_key f = k"
  shows "pool_ok lim (set_frame slot (Some f) p)" "frame_at (set_frame slot (Some f) p) = (frame_at p)(k \<mapsto> f)"
proof -
  obtain f0 where f0: "pool_frames p ! slot = Some f0" "fr_key f0 = k" "slot < lim_frames lim"
    using frame_at_slot [OF assms(1, 2)] by blast
  have slot: "slot < length (pool_frames p)" using f0(3) pool_parts(2) [OF assms(1)] by simp
  have iff: "map_of (pool_map p) k' = Some slot' \<longleftrightarrow>
      slot' < lim_frames lim \<and> (\<exists>g. (pool_frames p)[slot := Some f] ! slot' = Some g \<and> fr_key g = k')" for k' slot'
    using map_iff [OF assms(1), of k' slot'] f0 assms(3) slot by (cases "slot' = slot") auto
  have free: "{s. s < lim_frames lim \<and> (pool_frames p)[slot := Some f] ! s = None} = set (free_slots p)"
    unfolding pool_parts(6) [OF assms(1)] using f0 slot by (auto simp: nth_list_update split: if_splits)
  show "pool_ok lim (set_frame slot (Some f) p)"
    using pool_parts [OF assms(1)] iff free unfolding pool_ok_def set_frame_def occupied_def by simp
  show "frame_at (set_frame slot (Some f) p) = (frame_at p)(k \<mapsto> f)"
  proof
    fix k'
    show "frame_at (set_frame slot (Some f) p) k' = ((frame_at p)(k \<mapsto> f)) k'"
      using assms(2) slot other_slot [OF assms(1, 2), of k']
      by (cases "k' = k") (auto simp: frame_at_def set_frame_def split: option.splits)
  qed
qed

lemma put_frame_ok:
  assumes ok: "pool_ok lim p" and free: "free_slots p \<noteq> []" and new: "map_of (pool_map p) (fr_key f) = None"
  shows "pool_ok lim (put_frame f p)" "frame_at (put_frame f p) = (frame_at p)(fr_key f \<mapsto> f)"
    "map_of (pool_map (put_frame f p)) = (map_of (pool_map p))(fr_key f \<mapsto> last (free_slots p))"
proof -
  note parts = pool_parts [OF ok]
  obtain slot rest where fs: "free_slots p = rest @ [slot]" using free by (cases "free_slots p" rule: rev_cases) auto
  have slot: "slot < lim_frames lim" "pool_frames p ! slot = None" "slot < length (pool_frames p)"
    using parts(2, 6) fs by auto
  have put: "pool_map (put_frame f p) = AList.update (fr_key f) slot (pool_map p)" "free_slots (put_frame f p) = rest"
    "pool_frames (put_frame f p) = (pool_frames p)[slot := Some f]" "hand (put_frame f p) = hand p"
    by (simp_all add: put_frame_def set_frame_def fs)
  show map: "map_of (pool_map (put_frame f p)) = (map_of (pool_map p))(fr_key f \<mapsto> last (free_slots p))"
    by (simp add: put update_conv' fs)
  show "frame_at (put_frame f p) = (frame_at p)(fr_key f \<mapsto> f)"
  proof
    fix k
    have "slot' \<noteq> slot" if "map_of (pool_map p) k = Some slot'" for slot'
      using that slot(2) by (auto simp: map_iff [OF ok])
    then show "frame_at (put_frame f p) k = ((frame_at p)(fr_key f \<mapsto> f)) k"
      using slot(3) by (cases "k = fr_key f") (auto simp: frame_at_def put update_conv' split: option.splits)
  qed
  have "map_of (pool_map (put_frame f p)) k = Some slot' \<longleftrightarrow>
      slot' < lim_frames lim \<and> (\<exists>g. pool_frames (put_frame f p) ! slot' = Some g \<and> fr_key g = k)" for k slot'
    using map_iff [OF ok, of k slot'] slot new by (cases "slot' = slot"; cases "k = fr_key f") (auto simp: put update_conv')
  moreover have "set rest = {s. s < lim_frames lim \<and> (pool_frames p)[slot := Some f] ! s = None}"
  proof -
    have "set rest = set (free_slots p) - {slot}" using parts(5) fs by auto
    also have "\<dots> = {s. s < lim_frames lim \<and> (pool_frames p)[slot := Some f] ! s = None}"
      unfolding parts(6) using slot(3) by (auto simp: nth_list_update)
    finally show ?thesis .
  qed
  ultimately show "pool_ok lim (put_frame f p)"
    using parts fs update_fresh [of "fr_key f" "pool_map p" slot] new distinct_update [of "pool_map p" "fr_key f" slot]
    unfolding pool_ok_def occupied_def by (simp add: put map_of_eq_None_iff)
qed

lemma take_frame_ok:
  assumes ok: "pool_ok lim p" and slot: "map_of (pool_map p) k = Some slot"
  shows "pool_ok lim (take_frame k slot p)" "frame_at (take_frame k slot p) = (frame_at p)(k := None)"
    "map_of (pool_map (take_frame k slot p)) = (map_of (pool_map p))(k := None)"
    "occupied p = occupied (take_frame k slot p) + 1" "free_slots (take_frame k slot p) = free_slots p @ [slot]"
proof -
  note parts = pool_parts [OF ok]
  obtain f where f: "pool_frames p ! slot = Some f" "fr_key f = k" "slot < lim_frames lim"
    using frame_at_slot [OF ok slot] by blast
  have len: "slot < length (pool_frames p)" using f(3) parts(2) by simp
  have taken: "pool_frames (take_frame k slot p) = (pool_frames p)[slot := None]" "hand (take_frame k slot p) = hand p"
    "pool_map (take_frame k slot p) = AList.delete k (pool_map p)"
    by (simp_all add: take_frame_def set_frame_def)
  show free: "free_slots (take_frame k slot p) = free_slots p @ [slot]" by (simp add: take_frame_def set_frame_def)
  show map: "map_of (pool_map (take_frame k slot p)) = (map_of (pool_map p))(k := None)"
    by (simp add: taken delete_conv')
  have "k \<in> fst ` set (pool_map p)" using map_of_SomeD [OF slot] by force
  then show occ: "occupied p = occupied (take_frame k slot p) + 1"
    using length_delete [OF parts(4), of k] by (simp add: occupied_def taken)
  show "frame_at (take_frame k slot p) = (frame_at p)(k := None)"
  proof
    fix k'
    show "frame_at (take_frame k slot p) k' = ((frame_at p)(k := None)) k'"
      using other_slot [OF ok slot, of k'] unfolding frame_at_def map taken(1)
      by (cases "k' = k") (auto split: option.splits)
  qed
  have "map_of (pool_map (take_frame k slot p)) k' = Some slot' \<longleftrightarrow>
      slot' < lim_frames lim \<and> (\<exists>g. pool_frames (take_frame k slot p) ! slot' = Some g \<and> fr_key g = k')" for k' slot'
    using map_iff [OF ok, of k' slot'] map_iff [OF ok, of k slot'] slot f len unfolding map taken(1)
    by (cases "slot' = slot"; cases "k' = k") auto
  moreover have "insert slot (set (free_slots p)) = {s. s < lim_frames lim \<and> (pool_frames p)[slot := None] ! s = None}"
    unfolding parts(6) using f len by (auto simp: nth_list_update)
  moreover have "slot \<notin> set (free_slots p)" unfolding parts(6) using f by simp
  ultimately show "pool_ok lim (take_frame k slot p)"
    using parts(1-3, 5, 7) distinct_delete [OF parts(4)] occ unfolding pool_ok_def by (simp add: taken free)
qed

section \<open>The clock\<close>

lemma pool_ok_hand: "pool_ok lim p \<Longrightarrow> pool_ok lim (p\<lparr>hand := h mod length (pool_frames p)\<rparr>)"
  unfolding pool_ok_def occupied_def limits_ok_def by simp

lemma pool_ok_reclaiming [simp]: "pool_ok lim (p\<lparr>reclaiming := b\<rparr>) = pool_ok lim p"
  unfolding pool_ok_def occupied_def by simp

lemma obs_other [simp]:
  "obs (p\<lparr>hand := h\<rparr>) = obs p" "obs (p\<lparr>reclaiming := b\<rparr>) = obs p" "occupied (p\<lparr>reclaiming := b\<rparr>) = occupied p"
  by (simp_all add: obs_def frame_at_def fun_eq_iff occupied_def split: option.split)

definition unpinned :: "PoolInner \<Rightarrow> nat \<Rightarrow> bool" where
  "unpinned p slot = (slot < length (pool_frames p) \<and> (\<exists>f. pool_frames p ! slot = Some f \<and> fr_pins f = 0))"

definition slot_pins :: "PoolInner \<Rightarrow> nat option list" where
  "slot_pins p = map (map_option fr_pins) (pool_frames p)"

definition swept :: "PoolInner \<Rightarrow> PoolInner \<Rightarrow> bool" where
  "swept p p' = (pool_map p' = pool_map p \<and> free_slots p' = free_slots p \<and> reclaiming p' = reclaiming p \<and> obs p' = obs p \<and>
    (\<forall>slot. unpinned p' slot = unpinned p slot) \<and> slot_pins p' = slot_pins p)"

lemma clear_reference:
  assumes "pool_ok lim p" "slot < lim_frames lim" "pool_frames p ! slot = Some f"
  shows "pool_ok lim (set_frame slot (Some (f\<lparr>fr_referenced := b\<rparr>)) p)" "swept p (set_frame slot (Some (f\<lparr>fr_referenced := b\<rparr>)) p)"
proof -
  note key = slot_key [OF assms]
  note set = set_frame_ok [OF assms(1) key(1), of "f\<lparr>fr_referenced := b\<rparr>"]
  show "pool_ok lim (set_frame slot (Some (f\<lparr>fr_referenced := b\<rparr>)) p)" using set(1) by simp
  have "obs (set_frame slot (Some (f\<lparr>fr_referenced := b\<rparr>)) p) = obs p"
    using set(2) key(2) by (auto simp: obs_def fun_eq_iff)
  moreover have "unpinned (set_frame slot (Some (f\<lparr>fr_referenced := b\<rparr>)) p) s = unpinned p s" for s
    using assms(2, 3) pool_parts(2) [OF assms(1)] by (cases "s = slot") (auto simp: unpinned_def set_frame_def)
  moreover have "slot_pins (set_frame slot (Some (f\<lparr>fr_referenced := b\<rparr>)) p) = slot_pins p"
    using assms(2, 3) pool_parts(2) [OF assms(1)]
    by (auto simp: slot_pins_def set_frame_def map_update intro!: list_update_same_conv [THEN iffD2])
  ultimately show "swept p (set_frame slot (Some (f\<lparr>fr_referenced := b\<rparr>)) p)" by (simp add: swept_def set_frame_def)
qed

lemma swept_hand [simp]: "swept p (p\<lparr>hand := h\<rparr>)"
  by (simp add: swept_def unpinned_def slot_pins_def)

lemma swept_trans: "swept p q \<Longrightarrow> swept q r \<Longrightarrow> swept p r"
  by (simp add: swept_def)

declare sweep.simps(2) [simp del]
lemmas sweep_Suc [simp] = sweep.simps(2) [unfolded Let_def]

lemma sweep_ok:
  assumes "pool_ok lim p" "\<forall>slot. c = Some slot \<longrightarrow> unpinned p slot" "sweep n p c = (p', v)"
  shows "pool_ok lim p' \<and> swept p p' \<and> (\<forall>slot. v = Some slot \<longrightarrow> unpinned p slot)"
  using assms
proof (induction n arbitrary: p c)
  case 0
  then show ?case by (simp add: swept_def)
next
  case (Suc n)
  let ?slot = "hand p" and ?p = "p\<lparr>hand := (hand p + 1) mod length (pool_frames p)\<rparr>"
  have ok: "pool_ok lim ?p" by (rule pool_ok_hand [OF Suc.prems(1)])
  have sw: "swept p ?p" by simp
  have step: ?case if "pool_ok lim q" "swept p q" "\<forall>slot. c' = Some slot \<longrightarrow> unpinned p slot" "sweep n q c' = (p', v)" for q c'
  proof -
    have same: "unpinned q slot = unpinned p slot" for slot using that(2) by (simp add: swept_def)
    have "\<forall>slot. c' = Some slot \<longrightarrow> unpinned q slot" using that(3) by (simp add: same)
    from Suc.IH [OF that(1) this that(4)] show ?thesis using swept_trans [OF that(2)] by (simp add: same)
  qed
  show ?case
  proof (cases "pool_frames p ! ?slot")
    case None
    then have "sweep n ?p c = (p', v)" using Suc.prems(3) by simp
    then show ?thesis by (rule step [OF ok sw Suc.prems(2)])
  next
    case (Some f)
    have slot: "?slot < lim_frames lim" "?slot < length (pool_frames p)"
      using pool_parts(2, 3) [OF Suc.prems(1)] by auto
    consider (pinned) "fr_pins f > 0" | (second) "fr_pins f = 0" "fr_referenced f"
      | (clean) "fr_pins f = 0" "\<not> fr_referenced f" "\<not> fr_dirty f" | (dirty) "fr_pins f = 0" "\<not> fr_referenced f" "fr_dirty f"
      by blast
    then show ?thesis
    proof cases
      case pinned
      then have "sweep n ?p c = (p', v)" using Suc.prems(3) Some by simp
      then show ?thesis by (rule step [OF ok sw Suc.prems(2)])
    next
      case second
      let ?q = "set_frame ?slot (Some (f\<lparr>fr_referenced := False\<rparr>)) ?p"
      have q: "pool_ok lim ?q" "swept ?p ?q" using clear_reference [OF ok slot(1)] Some by simp_all
      have "sweep n ?q c = (p', v)" using Suc.prems(3) Some second by (simp add: Let_def)
      then show ?thesis by (rule step [OF q(1) swept_trans [OF sw q(2)] Suc.prems(2)])
    next
      case clean
      then show ?thesis using Suc.prems Some ok sw slot(2) by (auto simp: unpinned_def)
    next
      case dirty
      then have c: "\<forall>s. (if c = None then Some ?slot else c) = Some s \<longrightarrow> unpinned p s"
        using Suc.prems(2) Some slot(2) by (auto simp: unpinned_def)
      have "sweep n ?p (if c = None then Some ?slot else c) = (p', v)" using Suc.prems(3) Some dirty by simp
      then show ?thesis by (rule step [OF ok sw c])
    qed
  qed
qed

lemma sweep_candidate: "sweep n p (Some x) = (p', v) \<Longrightarrow> v \<noteq> None"
  by (induction n arbitrary: p) (auto simp: Let_def split: option.splits if_splits)

text \<open>A sweep that finds nothing has cleared every unpinned frame it met, so it meets none twice.\<close>

lemma sweep_misses:
  assumes "pool_ok lim p" "sweep n p None = (p', None)" "j < n" "slot = (hand p + j) mod length (pool_frames p)"
    and "pool_frames p ! slot = Some f" "fr_pins f = 0"
  shows "j < length (pool_frames p) \<and> fr_referenced f"
  using assms
proof (induction n arbitrary: p j f)
  case (Suc n)
  let ?len = "length (pool_frames p)" and ?p = "p\<lparr>hand := (hand p + 1) mod length (pool_frames p)\<rparr>"
  have ok: "pool_ok lim ?p" by (rule pool_ok_hand [OF Suc.prems(1)])
  have hand: "hand p < ?len" using pool_parts(2, 3) [OF Suc.prems(1)] by simp
  obtain q where q: "sweep n q None = (p', None)" "pool_ok lim q" "hand q = hand ?p" "length (pool_frames q) = ?len"
      "\<forall>s. s \<noteq> hand p \<longrightarrow> pool_frames q ! s = pool_frames p ! s"
      "\<forall>g. pool_frames p ! hand p = Some g \<and> fr_pins g = 0 \<longrightarrow>
        fr_referenced g \<and> pool_frames q ! hand p = Some (g\<lparr>fr_referenced := False\<rparr>)"
  proof (cases "pool_frames p ! hand p")
    case None
    then show ?thesis using that [of ?p] Suc.prems(2) ok by simp
  next
    case (Some g)
    let ?q = "set_frame (hand p) (Some (g\<lparr>fr_referenced := False\<rparr>)) ?p"
    consider (pinned) "fr_pins g > 0" | (second) "fr_pins g = 0" "fr_referenced g"
      | (clean) "fr_pins g = 0" "\<not> fr_referenced g" "\<not> fr_dirty g" | (dirty) "fr_pins g = 0" "\<not> fr_referenced g" "fr_dirty g"
      by blast
    then show ?thesis
    proof cases
      case pinned
      then have "sweep n ?p None = (p', None)" using Suc.prems(2) Some by simp
      then show ?thesis using that [of ?p] ok pinned Some by simp
    next
      case second
      have "pool_ok lim ?q"
        using clear_reference(1) [OF ok, of "hand p" g False] Some hand pool_parts(2) [OF ok] by simp
      moreover have "sweep n ?q None = (p', None)" using Suc.prems(2) Some second by simp
      ultimately show ?thesis using that [of ?q] second Some hand by (simp add: set_frame_def)
    next
      case clean
      then show ?thesis using Suc.prems(2) Some by simp
    next
      case dirty
      then have "sweep n ?p (Some (hand p)) = (p', None)" using Suc.prems(2) Some by simp
      then show ?thesis using sweep_candidate by blast
    qed
  qed
  show ?case
  proof (cases j)
    case 0
    then show ?thesis using Suc.prems(4-6) q(6) hand by force
  next
    case (Suc i)
    have slot: "slot = (hand q + i) mod length (pool_frames q)"
      using Suc.prems(4) Suc q(3, 4) by (simp add: mod_simps)
    have i: "i < n" using Suc.prems(3) Suc by simp
    show ?thesis
    proof (cases "slot = hand p")
      case True
      then have "pool_frames q ! slot = Some (f\<lparr>fr_referenced := False\<rparr>)" using q(6) Suc.prems(5, 6) by blast
      then show ?thesis using Suc.IH [OF q(2, 1) i slot] Suc.prems(6) by fastforce
    next
      case False
      then have "pool_frames q ! slot = Some f" using q(5) Suc.prems(5) by simp
      then have "i < ?len" "fr_referenced f" using Suc.IH [OF q(2, 1) i slot] Suc.prems(6) q(4) by auto
      moreover have "j \<noteq> ?len" using False Suc.prems(4) hand by auto
      ultimately show ?thesis using Suc by simp
    qed
  qed
qed simp

lemma pick_victim_ok:
  assumes "pool_ok lim p" "pick_victim p = (p', v)"
  shows "pool_ok lim p'" "swept p p'" "\<And>slot. v = Some slot \<Longrightarrow> unpinned p slot" "v = None \<Longrightarrow> \<not> unpinned p slot"
proof -
  show "pool_ok lim p'" "swept p p'" "\<And>slot. v = Some slot \<Longrightarrow> unpinned p slot"
    using sweep_ok [OF assms(1), of None] assms(2) unfolding pick_victim_def by auto
  show "\<not> unpinned p slot" if "v = None"
  proof
    assume "unpinned p slot"
    then obtain f where f: "slot < length (pool_frames p)" "pool_frames p ! slot = Some f" "fr_pins f = 0"
      by (auto simp: unpinned_def)
    let ?len = "length (pool_frames p)"
    have hand: "hand p < ?len" using pool_parts(2, 3) [OF assms(1)] by simp
    let ?j = "?len + (slot + ?len - hand p) mod ?len"
    have "(hand p + ?j) mod ?len = (hand p + ?len + (slot + ?len - hand p)) mod ?len"
      by (metis add.assoc mod_add_right_eq)
    moreover have "hand p + ?len + (slot + ?len - hand p) = slot + 2 * ?len" using hand by simp
    ultimately have "slot = (hand p + ?j) mod ?len" using f(1) by simp
    moreover have "0 < ?len" using hand by linarith
    then have "?j < 2 * ?len" using mod_less_divisor [of ?len "slot + ?len - hand p"] by linarith
    ultimately show False
      using sweep_misses [OF assms(1), of "2 * ?len" p' ?j slot f] assms(2) that f(2, 3) by (simp add: pick_victim_def)
  qed
qed

section \<open>The insertion loop\<close>

definition pinned_frames :: "PoolInner \<Rightarrow> nat" where
  "pinned_frames p = length (filter (\<lambda>n. n \<noteq> None \<and> n \<noteq> Some 0) (slot_pins p))"

lemma slot_pins_reclaiming [simp]: "slot_pins (p\<lparr>reclaiming := b\<rparr>) = slot_pins p"
  by (simp add: slot_pins_def)

lemma occupied_frames:
  assumes "pool_ok lim p"
  shows "occupied p = length (filter (\<lambda>n. n \<noteq> None) (slot_pins p))"
proof -
  note parts = pool_parts [OF assms]
  have "length (free_slots p) = card (set (free_slots p))" using distinct_card [OF parts(5)] by simp
  also have "\<dots> = length (filter (\<lambda>f. f = None) (pool_frames p))"
    unfolding parts(6) length_filter_conv_card parts(2) ..
  finally have "occupied p + length (filter (\<lambda>f. f = None) (pool_frames p)) = length (pool_frames p)" using parts(2, 7) by simp
  moreover have "length (filter (\<lambda>f. f = None) (pool_frames p)) + length (filter (\<lambda>f. f \<noteq> None) (pool_frames p)) = length (pool_frames p)"
    by (rule sum_length_filter_compl)
  ultimately show ?thesis by (simp add: slot_pins_def filter_map comp_def)
qed

lemma all_pinned:
  assumes "pool_ok lim p" "\<And>slot. \<not> unpinned p slot"
  shows "occupied p = pinned_frames p"
proof -
  have "n \<noteq> Some 0" if n: "n \<in> set (slot_pins p)" for n
  proof
    assume "n = Some 0"
    then obtain i f where "i < length (pool_frames p)" "pool_frames p ! i = Some f" "fr_pins f = 0"
      using n by (auto simp: slot_pins_def in_set_conv_nth eq_commute [of "Some 0"])
    then show False using assms(2) [of i] by (simp add: unpinned_def)
  qed
  then show ?thesis using occupied_frames [OF assms(1)] by (simp add: pinned_frames_def cong: filter_cong)
qed

lemma take_unpinned:
  assumes "pool_ok lim p" "slot < lim_frames lim" "pool_frames p ! slot = Some f" "fr_pins f = 0"
  shows "pinned_frames (take_frame (fr_key f) slot p) = pinned_frames p"
proof -
  have slot: "slot < length (slot_pins p)" "slot_pins p ! slot = Some 0"
    using assms pool_parts(2) [OF assms(1)] by (simp_all add: slot_pins_def)
  have "slot_pins (take_frame (fr_key f) slot p) = (slot_pins p)[slot := None]"
    by (simp add: slot_pins_def take_frame_def set_frame_def map_update)
  moreover have "filter P (xs[i := y]) = filter P xs" if "i < length xs" "\<not> P (xs ! i)" "\<not> P y" for P i y and xs :: "nat option list"
    using that by (simp add: upd_conv_take_nth_drop) (metis filter.simps(2) filter_append id_take_nth_drop)
  ultimately show ?thesis using slot by (simp add: pinned_frames_def)
qed

lemma evict_progress:
  assumes ok: "pool_ok lim p" and slot: "unpinned p slot" and ev: "evict spill slot p s = (p', s', None)"
  shows "pool_ok lim p'" "occupied p = occupied p' + 1" "pinned_frames p' = pinned_frames p"
    "map_of (pool_map p) k = None \<Longrightarrow> map_of (pool_map p') k = None"
proof -
  obtain f where f: "slot < lim_frames lim" "pool_frames p ! slot = Some f" "fr_pins f = 0"
    using slot pool_parts(2) [OF ok] by (auto simp: unpinned_def)
  note key = slot_key [OF ok f(1, 2)]
  have "p' = take_frame (fr_key f) slot p"
    using ev f(2) by (auto simp: evict_def Let_def split: if_splits prod.splits sum.splits)
  then show "pool_ok lim p'" "occupied p = occupied p' + 1" "pinned_frames p' = pinned_frames p"
    "map_of (pool_map p) k = None \<Longrightarrow> map_of (pool_map p') k = None"
    using take_frame_ok [OF ok key(1)] take_unpinned [OF ok f] by auto
qed

lemma turn_progress:
  assumes ok: "pool_ok lim p" and miss: "map_of (pool_map p) key = None"
    and turn: "install_turn lim spill key data dirty referenced p s = (p', s', None)"
  shows "pool_ok lim p' \<and> map_of (pool_map p') key = None \<and> pinned_frames p' = pinned_frames p \<and>
    (occupied p = occupied p' + 1 \<or>
     occupied p' = occupied p \<and> occupied p = pinned_frames p \<and> occupied p < lim_frames lim \<and> \<not> reclaiming p')"
proof -
  define q where "q = (if occupied p + 1 > high_frames lim then p\<lparr>reclaiming := True\<rparr> else p)"
  have q: "pool_ok lim q" "occupied q = occupied p" "pool_map q = pool_map p" "slot_pins q = slot_pins p"
    using ok by (auto simp: q_def slot_pins_def)
  have evicting: "\<not> (\<not> occupied q \<ge> lim_frames lim \<and> \<not> (reclaiming q \<and> occupied q + 1 > low_frames lim))"
    using turn miss unfolding install_turn_def q_def [symmetric] by (auto simp: Let_def split: if_splits)
  obtain c v where pick: "pick_victim q = (c, v)" by fastforce
  note victim = pick_victim_ok [OF q(1) pick]
  have c: "pool_map c = pool_map p" "slot_pins c = slot_pins p" "occupied c = occupied p"
    using victim(2) q by (simp_all add: swept_def occupied_def)
  show ?thesis
  proof (cases v)
    case None
    then have "p' = c\<lparr>reclaiming := False\<rparr>" "occupied p < lim_frames lim"
      using turn miss evicting pick q(2) unfolding install_turn_def q_def [symmetric] by (auto simp: Let_def split: if_splits)
    moreover have "occupied q = pinned_frames q" using all_pinned [OF q(1)] victim(4) None by blast
    ultimately show ?thesis using victim(1) c miss q by (simp add: pinned_frames_def)
  next
    case (Some slot)
    have ev: "evict spill slot c s = (p', s', None)"
      using turn miss evicting pick Some unfolding install_turn_def q_def [symmetric] by (auto simp: Let_def split: if_splits)
    have "unpinned c slot" using victim(2, 3) Some by (simp add: swept_def)
    then show ?thesis
      using evict_progress [OF victim(1) _ ev] c miss by (simp add: pinned_frames_def)
  qed
qed

lemma turn_takes_slot:
  assumes "pool_ok lim p" "occupied p < lim_frames lim" "occupied p + 1 \<le> high_frames lim" "\<not> reclaiming p"
  shows "\<exists>p' s' r. install_turn lim spill key data dirty referenced p s = (p', s', Some r)"
proof (cases "map_of (pool_map p) key")
  case (Some slot)
  then show ?thesis by (simp add: install_turn_def split: prod.split)
next
  case None
  then show ?thesis using assms(2-4) by (simp add: install_turn_def Let_def)
qed

lemma loop_returns:
  assumes "pool_ok lim p" "map_of (pool_map p) key = None" "pinned_frames p < high_frames lim \<or> pinned_frames p = lim_frames lim"
  shows "\<exists>r. install_loop (occupied p + 2) lim spill key data dirty referenced p s = Some r"
  using assms
proof (induction "occupied p" arbitrary: p s rule: less_induct)
  case less
  obtain q t x where turn: "install_turn lim spill key data dirty referenced p s = (q, t, x)" by (metis prod_cases3)
  show ?case
  proof (cases x)
    case (Some y)
    then show ?thesis using turn by simp
  next
    case None
    note step = turn_progress [OF less.prems(1, 2) turn [unfolded None]]
    show ?thesis
    proof (cases "occupied p = occupied q + 1")
      case True
      then have "\<exists>r. install_loop (occupied q + 2) lim spill key data dirty referenced q t = Some r"
        using less.hyps [of q] less.prems(3) step by simp
      then show ?thesis using turn None True by simp
    next
      case False
      then have q: "occupied q = occupied p" "occupied q = pinned_frames q" "occupied q < lim_frames lim" "\<not> reclaiming q" "pool_ok lim q"
        using step by auto
      then have "occupied q + 1 \<le> high_frames lim" using less.prems(3) step by auto
      then obtain p' s' r where "install_turn lim spill key data dirty referenced q t = (p', s', Some r)"
        using turn_takes_slot [OF q(5, 3) _ q(4), of spill key data dirty referenced t] by blast
      then show ?thesis using turn None by simp
    qed
  qed
qed

lemma loop_fuel:
  "install_loop n lim spill key data dirty referenced p s = Some r \<Longrightarrow> n \<le> m \<Longrightarrow>
    install_loop m lim spill key data dirty referenced p s = Some r"
proof (induction n arbitrary: m p s)
  case (Suc n)
  then obtain m' where "m = Suc m'" by (cases m) auto
  then show ?case using Suc by (auto split: prod.splits option.splits)
qed simp

lemma loop_spins:
  assumes "pool_ok lim p" "map_of (pool_map p) key = None" "\<And>slot. \<not> unpinned p slot"
    and "high_frames lim \<le> occupied p" "occupied p < lim_frames lim"
  shows "install_loop n lim spill key data dirty referenced p s = None"
  using assms
proof (induction n arbitrary: p s)
  case (Suc n)
  let ?q = "p\<lparr>reclaiming := True\<rparr>"
  obtain c v where pick: "pick_victim ?q = (c, v)" by fastforce
  have ok: "pool_ok lim ?q" using Suc.prems(1) by simp
  note victim = pick_victim_ok [OF ok pick]
  have un: "unpinned ?q slot = unpinned p slot" for slot by (simp add: unpinned_def)
  have "v = None" using victim(3) un Suc.prems(3) by (cases v) auto
  moreover have "low_frames lim \<le> high_frames lim" using pool_parts(1) [OF Suc.prems(1)] by (simp add: limits_ok_def)
  ultimately have turn: "install_turn lim spill key data dirty referenced p s = (c\<lparr>reclaiming := False\<rparr>, s, None)"
    using Suc.prems(2, 4, 5) pick by (simp add: install_turn_def Let_def)
  have "install_loop n lim spill key data dirty referenced (c\<lparr>reclaiming := False\<rparr>) s = None"
  proof (rule Suc.IH)
    show "\<not> unpinned (c\<lparr>reclaiming := False\<rparr>) slot" for slot
      using victim(2) un Suc.prems(3) by (simp add: swept_def) (simp add: unpinned_def)
  qed (use victim(1, 2) Suc.prems in \<open>simp_all add: swept_def occupied_def\<close>)
  then show ?case using turn by simp
qed simp

text \<open>
  C37: The insertion of a page that is not resident returns, with a guard or an error, whenever fewer frames
  are pinned than the high watermark or every frame is: the clock, the watermark hysteresis and the retries
  after an eviction end within the capacity plus two turns.
\<close>

theorem install_returns:
  assumes "pool_ok lim p" "map_of (pool_map p) key = None"
    and "pinned_frames p < high_frames lim \<or> pinned_frames p = lim_frames lim"
  shows "\<exists>r. install_with lim spill key data dirty referenced p s = Some r"
proof -
  obtain r where r: "install_loop (occupied p + 2) lim spill key data dirty referenced p s = Some r"
    using loop_returns [OF assms, of spill data dirty referenced s] by blast
  have "occupied p + 2 \<le> lim_frames lim + 2" using pool_parts(7) [OF assms(1)] by simp
  then show ?thesis unfolding install_with_def using loop_fuel [OF r] by blast
qed

text \<open>
  C38: When every resident frame is pinned and occupancy has reached the high watermark without filling the
  pool, the insertion never returns: it gives up on reclaim, goes round, crosses the watermark again and
  finds no victim again, although a free slot is left.
\<close>

theorem install_spins:
  assumes "pool_ok lim p" "map_of (pool_map p) key = None" "\<And>slot. \<not> unpinned p slot"
    and "high_frames lim \<le> occupied p" "occupied p < lim_frames lim"
  shows "free_slots p \<noteq> [] \<and> install_loop n lim spill key data dirty referenced p s = None"
  using loop_spins [OF assms] pool_parts(7) [OF assms(1)] assms(5) by auto

definition demo_limits :: PoolLimits where "demo_limits = pool_limits 2 1 1"

definition demo_key :: "u64 \<Rightarrow> PageKey" where
  "demo_key n = \<lparr>key_shard = 0, key_table = 1, key_page = n\<rparr>"

definition demo_pinned :: PoolInner where
  "demo_pinned = put_frame \<lparr>fr_key = demo_key 1, fr_data = [], fr_pins = 1, fr_referenced = False, fr_dirty = True\<rparr> (pool_new demo_limits)"

lemma demo_pool:
  "pool_ok demo_limits (pool_new demo_limits)" "pool_ok demo_limits demo_pinned" "\<not> unpinned demo_pinned slot"
  "lim_frames demo_limits = 2" "high_frames demo_limits = 1" "occupied demo_pinned = 1"
  "map_of (pool_map (pool_new demo_limits)) k = None" "map_of (pool_map demo_pinned) (demo_key 2) = None"
  "pinned_frames (pool_new demo_limits) = 0"
proof -
  show new: "pool_ok demo_limits (pool_new demo_limits)" unfolding demo_limits_def by (rule pool_new_ok [OF limits_new])
  show "pool_ok demo_limits demo_pinned"
    unfolding demo_pinned_def by (rule put_frame_ok(1) [OF new]) (simp_all add: pool_new_def demo_limits_def pool_limits_def Let_def)
  have "pool_frames demo_pinned ! slot = None \<or> (\<exists>f. pool_frames demo_pinned ! slot = Some f \<and> fr_pins f = 1)" if "slot < 2"
    using that by (cases slot) (auto simp: demo_pinned_def put_frame_def pool_new_def set_frame_def demo_limits_def pool_limits_def Let_def numeral_2_eq_2 less_Suc_eq)
  then show "\<not> unpinned demo_pinned slot"
    by (auto simp: unpinned_def demo_pinned_def put_frame_def pool_new_def set_frame_def demo_limits_def pool_limits_def Let_def)
qed (simp_all add: demo_pinned_def put_frame_def pool_new_def set_frame_def demo_limits_def pool_limits_def Let_def
    occupied_def demo_key_def pinned_frames_def slot_pins_def numeral_2_eq_2)

theorem install_returns_witness:
  "\<exists>r. install_with demo_limits (\<lambda>k d s. (s + 1, Inr ())) (demo_key 1) [] True False (pool_new demo_limits) (0 :: nat) = Some r"
  by (rule install_returns) (simp_all add: demo_pool)

theorem install_spins_witness:
  "free_slots demo_pinned \<noteq> [] \<and>
   install_loop 7 demo_limits (\<lambda>k d s. (s + 1, Inr ())) (demo_key 2) [] True False demo_pinned (0 :: nat) = None"
  by (rule install_spins) (simp_all add: demo_pool)

section \<open>Pages behind the pool\<close>

text \<open>A page is what its frame holds, or what the cold tier stores when no frame holds it.\<close>

definition seen :: "('s \<Rightarrow> PageKey \<Rightarrow> bytes option) \<Rightarrow> PoolInner \<Rightarrow> 's \<Rightarrow> PageKey \<Rightarrow> bytes option" where
  "seen stored p s k = (case obs p k of None \<Rightarrow> stored s k | Some (d, _) \<Rightarrow> Some d)"

definition tier_wf :: "PoolLimits \<Rightarrow> ('s \<Rightarrow> PageKey \<Rightarrow> bytes option) \<Rightarrow> ('s \<Rightarrow> bool) \<Rightarrow> (PageKey \<Rightarrow> bytes \<Rightarrow> bool) \<Rightarrow>
    PoolInner \<Rightarrow> 's \<Rightarrow> bool" where
  "tier_wf lim stored cold_ok image_ok p s = (pool_ok lim p \<and> cold_ok s \<and>
    (\<forall>k d n b. obs p k = Some (d, n, b) \<longrightarrow> image_ok k d \<and> (\<not> b \<longrightarrow> stored s k = Some d)))"

locale cold_tier =
  fixes lim :: PoolLimits
    and spill :: "PageKey \<Rightarrow> bytes \<Rightarrow> 's \<Rightarrow> 's \<times> unit result"
    and read_cold :: "PageKey \<Rightarrow> 's \<Rightarrow> 's \<times> bytes result"
    and stored :: "'s \<Rightarrow> PageKey \<Rightarrow> bytes option"
    and cold_ok :: "'s \<Rightarrow> bool"
    and image_ok :: "PageKey \<Rightarrow> bytes \<Rightarrow> bool"
  assumes spill_ok: "cold_ok s \<Longrightarrow> image_ok k d \<Longrightarrow> spill k d s = (s', r) \<Longrightarrow>
      cold_ok s' \<and> stored s' = (if is_ok r then (stored s)(k \<mapsto> d) else stored s)"
    and read_ok: "cold_ok s \<Longrightarrow> read_cold k s = (s', x) \<Longrightarrow>
      cold_ok s' \<and> stored s' = stored s \<and> (\<forall>img. x = Inr img \<longrightarrow> stored s k = Some img \<and> image_ok k img)"
begin

abbreviation tier_ok :: "PoolInner \<Rightarrow> 's \<Rightarrow> bool" where
  "tier_ok \<equiv> tier_wf lim stored cold_ok image_ok"

text \<open>A step no client notices: pages and pins stay, pinned pages stay in their slots.\<close>

definition quiet :: "PoolInner \<Rightarrow> 's \<Rightarrow> PoolInner \<Rightarrow> 's \<Rightarrow> bool" where
  "quiet p s p' s' = (tier_ok p' s' \<and> seen stored p' s' = seen stored p s \<and> pins p' = pins p \<and> dom (obs p') \<subseteq> dom (obs p) \<and>
    (\<forall>k. 0 < pins p k \<longrightarrow> map_of (pool_map p') k = map_of (pool_map p) k))"

lemma quiet_refl: "tier_ok p s \<Longrightarrow> quiet p s p s"
  by (simp add: quiet_def)

lemma quiet_trans: "quiet p s q t \<Longrightarrow> quiet q t r u \<Longrightarrow> quiet p s r u"
  unfolding quiet_def by (metis subset_trans)

lemma tier_okD:
  assumes "tier_ok p s" "obs p k = Some (d, n, b)"
  shows "image_ok k d" "b \<or> stored s k = Some d"
  using assms unfolding tier_wf_def by blast+

lemma pool_wf: "tier_ok p s \<Longrightarrow> pool_ok lim p"
  by (simp add: tier_wf_def)

lemma same_quiet:
  assumes "tier_ok p s" "pool_ok lim p'" "obs p' = obs p" "map_of (pool_map p') = map_of (pool_map p)" "cold_ok t" "stored t = stored s"
  shows "quiet p s p' t"
  using assms by (simp add: quiet_def tier_wf_def seen_def [abs_def] pins_def [abs_def] cong: option.case_cong)

lemma swept_quiet: "tier_ok p s \<Longrightarrow> swept p p' \<Longrightarrow> pool_ok lim p' \<Longrightarrow> quiet p s p' s"
  by (rule same_quiet) (simp_all add: swept_def tier_wf_def)

lemma reclaiming_quiet: "tier_ok p s \<Longrightarrow> quiet p s (p\<lparr>reclaiming := b\<rparr>) s"
  by (rule same_quiet) (simp_all add: tier_wf_def)

lemma taken_quiet:
  assumes "tier_ok p s" "map_of (pool_map p) k = Some slot" "obs p k = Some (d, 0, b)"
    and "cold_ok s'" "stored s' = (stored s)(k \<mapsto> d)"
  shows "quiet p s (take_frame k slot p) s'"
proof -
  have ok: "pool_ok lim p" using assms(1) by (simp add: tier_wf_def)
  have obs: "obs (take_frame k slot p) = (obs p)(k := None)"
    using take_frame_ok(2) [OF ok assms(2)] by (simp add: obs_def [abs_def] fun_eq_iff)
  have "tier_ok (take_frame k slot p) s'"
    using assms(1, 4, 5) take_frame_ok(1) [OF ok assms(2)] unfolding tier_wf_def obs by auto
  moreover have "seen stored (take_frame k slot p) s' = seen stored p s"
    using assms(3, 5) by (auto simp: seen_def obs fun_eq_iff split: option.split)
  moreover have "pins (take_frame k slot p) = pins p" using assms(3) by (auto simp: pins_def obs fun_eq_iff)
  moreover have "pins p k = 0" using assms(3) by (simp add: pins_def)
  ultimately show ?thesis
    using take_frame_ok(3) [OF ok assms(2)] obs by (auto simp: quiet_def)
qed

lemma evict_quiet:
  assumes tier: "tier_ok p s" and slot: "unpinned p slot" and ev: "evict spill slot p s = (p', s', r)"
  shows "quiet p s p' s'" "r = None \<Longrightarrow> occupied p = occupied p' + 1" "r \<noteq> Some (Inr g)"
proof -
  have ok: "pool_ok lim p" using tier by (simp add: tier_wf_def)
  obtain f where f: "slot < lim_frames lim" "pool_frames p ! slot = Some f" "fr_pins f = 0"
    using slot pool_parts(2) [OF ok] by (auto simp: unpinned_def)
  let ?k = "fr_key f" and ?q = "take_frame (fr_key f) slot p"
  note key = slot_key [OF ok f(1, 2)]
  have obs: "obs p ?k = Some (fr_data f, 0, fr_dirty f)" using key(2) f(3) by (simp add: obs_def)
  note take = take_frame_ok [OF ok key(1)]
  have full: "free_slots ?q \<noteq> []" using take(5) by simp
  have "quiet p s p' s' \<and> (r = None \<longrightarrow> occupied p = occupied p' + 1) \<and> r \<noteq> Some (Inr g)"
  proof (cases "fr_dirty f")
    case False
    then have "(stored s)(?k \<mapsto> fr_data f) = stored s" using tier_okD(2) [OF tier obs] by auto
    then show ?thesis
      using taken_quiet [OF tier key(1) obs, of s] tier ev f(2) False take(4) by (auto simp: evict_def tier_wf_def)
  next
    case dirty: True
    obtain t w where sp: "spill ?k (fr_data f) s = (t, w)" by fastforce
    have t: "cold_ok t" "stored t = (if is_ok w then (stored s)(?k \<mapsto> fr_data f) else stored s)"
      using spill_ok [OF _ tier_okD(1) [OF tier obs] sp] tier by (auto simp: tier_wf_def)
    show ?thesis
    proof (cases w)
      case (Inr u)
      then show ?thesis
        using taken_quiet [OF tier key(1) obs t(1)] t(2) ev f(2) dirty sp take(4) by (auto simp: evict_def)
    next
      case (Inl e)
      have new: "map_of (pool_map ?q) ?k = None" using take(3) by simp
      note put = put_frame_ok [OF take(1) full new]
      have frames: "frame_at (put_frame f ?q) = frame_at p" using put(2) take(2) key(2) by auto
      have map: "map_of (pool_map (put_frame f ?q)) = map_of (pool_map p)" using put(3) take(3, 5) key(1) by auto
      have "quiet p s (put_frame f ?q) t"
        using t Inl by (intro same_quiet [OF tier put(1) _ map]) (simp_all add: obs_def [abs_def] frames)
      then show ?thesis using ev f(2) dirty sp Inl full by (auto simp: evict_def Let_def)
    qed
  qed
  then show "quiet p s p' s'" "r = None \<Longrightarrow> occupied p = occupied p' + 1" "r \<noteq> Some (Inr g)" by blast+
qed

definition placed :: "PageKey \<Rightarrow> bytes \<Rightarrow> PageGuard result \<Rightarrow> PoolInner \<Rightarrow> 's \<Rightarrow> PoolInner \<Rightarrow> 's \<Rightarrow> bool" where
  "placed key data r p s p' s' = (tier_ok p' s' \<and> (\<forall>k. 0 < pins p k \<longrightarrow> map_of (pool_map p') k = map_of (pool_map p) k) \<and>
    (case r of
       Inl _ \<Rightarrow> seen stored p' s' = seen stored p s \<and> pins p' = pins p
     | Inr g \<Rightarrow> seen stored p' s' = (seen stored p s)(key \<mapsto> data) \<and> pins p' = (pins p)(key := 1) \<and>
         gd_key g = key \<and> gd_data g = data \<and> map_of (pool_map p') key = Some (gd_slot g)))"

lemma quiet_placed: "quiet p s q t \<Longrightarrow> placed key data r q t p' s' \<Longrightarrow> placed key data r p s p' s'"
  unfolding quiet_def placed_def by (cases r) auto

lemma quiet_refused: "quiet p s p' s' \<Longrightarrow> placed key data (Inl e) p s p' s'"
  unfolding quiet_def placed_def by simp

lemma put_placed:
  assumes "tier_ok p s" "obs p key = None" "image_ok key data" "dirty \<or> stored s key = Some data" "free_slots p \<noteq> []"
    and f: "f = \<lparr>fr_key = key, fr_data = data, fr_pins = 1, fr_referenced = b, fr_dirty = dirty\<rparr>"
  shows "placed key data (Inr \<lparr>gd_slot = last (free_slots p), gd_key = key, gd_data = data\<rparr>) p s (put_frame f p) s"
proof -
  have ok: "pool_ok lim p" using assms(1) by (simp add: tier_wf_def)
  have new: "map_of (pool_map p) (fr_key f) = None" using assms(2) obs_None [OF ok] by (simp add: f)
  note put = put_frame_ok [OF ok assms(5) new]
  have obs: "obs (put_frame f p) = (obs p)(key \<mapsto> (data, 1, dirty))"
    using put(2) by (simp add: obs_def fun_eq_iff f)
  have "tier_ok (put_frame f p) s" using assms(1, 3, 4) put(1) unfolding tier_wf_def obs by auto
  moreover have "seen stored (put_frame f p) s = (seen stored p s)(key \<mapsto> data)"
    by (auto simp: seen_def obs fun_eq_iff)
  moreover have "pins (put_frame f p) = (pins p)(key := 1)" by (auto simp: pins_def obs fun_eq_iff)
  moreover have "pins p key = 0" using assms(2) by (simp add: pins_def)
  moreover have "fr_key f = key" by (simp add: f)
  ultimately show ?thesis using put(3) by (auto simp: placed_def)
qed

lemma turn_ok:
  assumes tier: "tier_ok p s" and out: "obs p key = None" and img: "image_ok key data" and st: "dirty \<or> stored s key = Some data"
    and turn: "install_turn lim spill key data dirty referenced p s = (p', s', r)"
  shows "case r of None \<Rightarrow> quiet p s p' s' | Some x \<Rightarrow> placed key data x p s p' s'"
proof -
  have ok: "pool_ok lim p" using tier by (simp add: tier_wf_def)
  have miss: "map_of (pool_map p) key = None" using out obs_None [OF ok] by simp
  define q where "q = (if occupied p + 1 > high_frames lim then p\<lparr>reclaiming := True\<rparr> else p)"
  have q: "quiet p s q s" "obs q = obs p" "tier_ok q s" "pool_ok lim q" "occupied q = occupied p"
    using reclaiming_quiet [OF tier, of True] quiet_refl [OF tier] by (auto simp: q_def quiet_def tier_wf_def)
  show ?thesis
  proof (cases "\<not> occupied q \<ge> lim_frames lim \<and> \<not> (reclaiming q \<and> occupied q + 1 > low_frames lim)")
    case True
    let ?q = "q\<lparr>reclaiming := False\<rparr>"
    have quiet: "quiet p s ?q s" by (rule quiet_trans [OF q(1) reclaiming_quiet [OF q(3)]])
    then have "tier_ok ?q s" by (simp add: quiet_def)
    then show ?thesis
      using turn miss True quiet_placed [OF quiet put_placed [OF _ _ img st _ refl]] quiet_refused [OF quiet] q(2) out
      unfolding install_turn_def q_def [symmetric] by (auto simp: Let_def split: if_splits)
  next
    case False
    obtain c v where pick: "pick_victim q = (c, v)" by fastforce
    note victim = pick_victim_ok [OF q(4) pick]
    have c: "quiet p s c s" by (rule quiet_trans [OF q(1) swept_quiet [OF q(3) victim(2, 1)]])
    then have tc: "tier_ok c s" by (simp add: quiet_def)
    show ?thesis
    proof (cases v)
      case None
      then show ?thesis
        using turn miss False pick quiet_refused [OF c] quiet_trans [OF c reclaiming_quiet [OF tc]]
        unfolding install_turn_def q_def [symmetric] by (auto simp: Let_def split: if_splits)
    next
      case (Some slot)
      have "evict spill slot c s = (p', s', r)"
        using turn miss False pick Some unfolding install_turn_def q_def [symmetric] by (auto simp: Let_def split: if_splits)
      moreover have "unpinned c slot" using victim(2, 3) Some by (simp add: swept_def)
      ultimately have "quiet p s p' s'" "\<And>g. r \<noteq> Some (Inr g)"
        using evict_quiet [OF tc] quiet_trans [OF c] by blast+
      then show ?thesis using quiet_refused by (auto split: option.splits sum.splits) (metis old.sum.exhaust)
    qed
  qed
qed

lemma install_ok:
  assumes "tier_ok p s" "obs p key = None" "image_ok key data" "dirty \<or> stored s key = Some data"
    and "install_loop n lim spill key data dirty referenced p s = Some (p', s', r)"
  shows "placed key data r p s p' s'"
  using assms
proof (induction n arbitrary: p s)
  case (Suc n)
  obtain q t x where turn: "install_turn lim spill key data dirty referenced p s = (q, t, x)" by (metis prod_cases3)
  note step = turn_ok [OF Suc.prems(1-4) turn]
  show ?case
  proof (cases x)
    case None
    then have q: "quiet p s q t" using step by simp
    then have none: "obs q key = None" using Suc.prems(2) unfolding quiet_def by (meson domIff in_mono)
    have "seen stored q t key = seen stored p s key" using q by (simp add: quiet_def)
    then have "stored t key = stored s key" using none Suc.prems(2) by (simp add: seen_def)
    then have "placed key data r q t p' s'"
      using Suc.IH [of q t] q none Suc.prems(3-5) turn None by (simp add: quiet_def)
    then show ?thesis by (rule quiet_placed [OF q])
  next
    case (Some y)
    then show ?thesis using step turn Suc.prems(5) by simp
  qed
qed simp

lemma touched:
  assumes "tier_ok p s" "map_of (pool_map p) k = Some slot" "frame_at p k = Some f" "fr_key f' = k"
    and "fr_data f' = fr_data f" "fr_dirty f' = fr_dirty f \<or> stored s k = Some (fr_data f)"
  shows "tier_ok (set_frame slot (Some f') p) s" "seen stored (set_frame slot (Some f') p) s = seen stored p s"
    "pins (set_frame slot (Some f') p) = (pins p)(k := fr_pins f')" "pool_map (set_frame slot (Some f') p) = pool_map p"
    "obs (set_frame slot (Some f') p) = (obs p)(k \<mapsto> (fr_data f, fr_pins f', fr_dirty f'))"
proof -
  have ok: "pool_ok lim p" using assms(1) by (simp add: tier_wf_def)
  note set = set_frame_ok [OF ok assms(2, 4)]
  show obs: "obs (set_frame slot (Some f') p) = (obs p)(k \<mapsto> (fr_data f, fr_pins f', fr_dirty f'))"
    using set(2) assms(5) by (simp add: obs_def fun_eq_iff)
  have old: "obs p k = Some (fr_data f, fr_pins f, fr_dirty f)" using assms(3) by (simp add: obs_def)
  show "tier_ok (set_frame slot (Some f') p) s"
    using assms(1, 6) set(1) tier_okD [OF assms(1) old] unfolding tier_wf_def obs by auto
  show "seen stored (set_frame slot (Some f') p) s = seen stored p s" using old by (auto simp: seen_def obs fun_eq_iff)
  show "pins (set_frame slot (Some f') p) = (pins p)(k := fr_pins f')" by (auto simp: pins_def obs fun_eq_iff)
  show "pool_map (set_frame slot (Some f') p) = pool_map p" by (simp add: set_frame_def)
qed

definition served :: "PageKey \<Rightarrow> PageGuard result \<Rightarrow> PoolInner \<Rightarrow> 's \<Rightarrow> PoolInner \<Rightarrow> 's \<Rightarrow> bool" where
  "served key r p s p' s' = (tier_ok p' s' \<and> seen stored p' s' = seen stored p s \<and>
    (\<forall>k. 0 < pins p k \<longrightarrow> map_of (pool_map p') k = map_of (pool_map p) k) \<and>
    (case r of
       Inl _ \<Rightarrow> pins p' = pins p
     | Inr g \<Rightarrow> seen stored p s key = Some (gd_data g) \<and> pins p' = (pins p)(key := pins p key + 1) \<and>
         gd_key g = key \<and> map_of (pool_map p') key = Some (gd_slot g)))"

lemma hit_ok:
  assumes "tier_ok p s" "map_of (pool_map p) key = Some slot" "pin_hit key slot p = (p', r)"
  shows "served key r p s p' s"
proof -
  obtain f where f: "frame_at p key = Some f" "pool_frames p ! slot = Some f" "fr_key f = key"
    using frame_at_slot [OF pool_wf [OF assms(1)] assms(2)] by blast
  have "obs p key = Some (fr_data f, fr_pins f, fr_dirty f)" using f(1) by (simp add: obs_def)
  then have "seen stored p s key = Some (fr_data f)" "pins p key = fr_pins f" by (simp_all add: seen_def pins_def)
  then show ?thesis
    using assms(2, 3) f touched [OF assms(1, 2) f(1), of "f\<lparr>fr_referenced := True, fr_pins := fr_pins f + 1\<rparr>"]
    by (auto simp: served_def pin_hit_def)
qed

lemma fault_ok:
  assumes tier: "tier_ok p s" and fault: "get_or_fault lim (read_cold key) spill key p s = Some (p', s', r)"
  shows "served key r p s p' s'"
proof (cases "map_of (pool_map p) key")
  case (Some slot)
  then show ?thesis using hit_ok [OF tier Some] fault by (auto simp: get_or_fault_def split: prod.splits)
next
  case None
  have miss: "obs p key = None" using None obs_None tier by (auto simp: tier_wf_def)
  obtain t x where rd: "read_cold key s = (t, x)" by fastforce
  have t: "cold_ok t" "stored t = stored s" "\<And>img. x = Inr img \<Longrightarrow> stored s key = Some img \<and> image_ok key img"
    using read_ok [OF _ rd] tier by (auto simp: tier_wf_def)
  have tier': "tier_ok p t" "seen stored p t = seen stored p s"
    using tier t(1, 2) by (auto simp: tier_wf_def seen_def fun_eq_iff split: option.split)
  show ?thesis
  proof (cases x)
    case (Inl e)
    then show ?thesis using fault None rd tier' by (auto simp: get_or_fault_def served_def)
  next
    case (Inr img)
    have img: "stored s key = Some img" "image_ok key img" using t(3) Inr by blast+
    have loop: "install_loop (lim_frames lim + 2) lim spill key img False True p t = Some (p', s', r)"
      using fault None rd Inr by (simp add: get_or_fault_def install_with_def)
    have "False \<or> stored t key = Some img" using t(2) img(1) by simp
    then have "placed key img r p t p' s'" by (rule install_ok [OF tier'(1) miss img(2) _ loop])
    moreover have "seen stored p s key = Some img" "pins p key = 0" using miss img(1) by (simp_all add: seen_def pins_def)
    ultimately show ?thesis using tier'(2) unfolding placed_def served_def by (auto split: sum.splits simp: fun_upd_idem)
  qed
qed

lemma drop_ok:
  assumes "tier_ok p s" "map_of (pool_map p) (gd_key g) = Some (gd_slot g)"
  shows "tier_ok (guard_drop g p) s" "seen stored (guard_drop g p) s = seen stored p s"
    "pins (guard_drop g p) = (pins p)(gd_key g := pins p (gd_key g) - 1)" "pool_map (guard_drop g p) = pool_map p"
proof -
  obtain f where f: "frame_at p (gd_key g) = Some f" "pool_frames p ! gd_slot g = Some f" "fr_key f = gd_key g"
    using frame_at_slot [OF pool_wf [OF assms(1)] assms(2)] by blast
  have "pins p (gd_key g) = fr_pins f" using f(1) by (simp add: obs_def pins_def)
  then show "tier_ok (guard_drop g p) s" "seen stored (guard_drop g p) s = seen stored p s"
    "pins (guard_drop g p) = (pins p)(gd_key g := pins p (gd_key g) - 1)" "pool_map (guard_drop g p) = pool_map p"
    using f touched [OF assms f(1), of "f\<lparr>fr_pins := fr_pins f - 1\<rparr>"] by (simp_all add: guard_drop_def)
qed

lemma discard_ok:
  assumes "tier_ok p s" "discard key p = (p', r)"
  shows "if pins p key = 0 then r = Inr () \<and> tier_ok p' s \<and> obs p' = (obs p)(key := None) \<and>
      map_of (pool_map p') = (map_of (pool_map p))(key := None)
    else is_ok r = False \<and> p' = p"
proof (cases "map_of (pool_map p) key")
  case None
  then have "obs p key = None" using obs_None assms(1) by (auto simp: tier_wf_def)
  then show ?thesis using assms None by (auto simp: discard_def pins_def fun_upd_idem)
next
  case (Some slot)
  have ok: "pool_ok lim p" using assms(1) by (simp add: tier_wf_def)
  obtain f where f: "frame_at p key = Some f" "pool_frames p ! slot = Some f" using frame_at_slot [OF ok Some] by blast
  note take = take_frame_ok [OF ok Some]
  have obs: "obs (take_frame key slot p) = (obs p)(key := None)" using take(2) by (auto simp: obs_def fun_eq_iff)
  have "tier_ok (take_frame key slot p) s" using assms(1) take(1) unfolding tier_wf_def obs by auto
  moreover have "pins p key = fr_pins f" using f(1) by (simp add: obs_def pins_def)
  ultimately show ?thesis using assms(2) Some f(2) obs take(3) by (auto simp: discard_def)
qed

lemma clean_quiet:
  assumes "tier_ok p s" "stored s k = Some d" "obs p k = Some (d, n, b)"
  shows "quiet p s (mark_clean k d p) s" "map_option fst (obs (mark_clean k d p) k') = map_option fst (obs p k')"
proof -
  obtain slot where slot: "map_of (pool_map p) k = Some slot"
    using assms(3) obs_None [OF pool_wf [OF assms(1)], of k] by (cases "map_of (pool_map p) k") auto
  obtain f where f: "frame_at p k = Some f" "pool_frames p ! slot = Some f" "fr_key f = k"
    using frame_at_slot [OF pool_wf [OF assms(1)] slot] by blast
  have d: "fr_data f = d" "pins p k = fr_pins f" using assms(3) f(1) by (auto simp: obs_def pins_def)
  let ?f = "f\<lparr>fr_dirty := False\<rparr>"
  note t = touched [OF assms(1) slot f(1), of ?f]
  have m: "mark_clean k d p = set_frame slot (Some ?f) p" using slot f(2) d(1) by (simp add: mark_clean_def)
  have st: "stored s k = Some (fr_data f)" using assms(2) d(1) by simp
  have obs: "obs (mark_clean k d p) = (obs p)(k \<mapsto> (d, fr_pins f, False))" unfolding m using t(5) f(3) d(1) st by simp
  then show "map_option fst (obs (mark_clean k d p) k') = map_option fst (obs p k')" using assms(3) by simp
  have "pins (mark_clean k d p) = pins p" unfolding m using t(3) f(3) d(2) st by (simp add: fun_upd_idem)
  then show "quiet p s (mark_clean k d p) s"
    using t(1, 2, 4) f(3) st assms(3) obs unfolding m quiet_def by auto
qed

lemma flush_quiet:
  assumes "tier_ok p s" "\<forall>(k, d) \<in> set xs. map_option fst (obs p k) = Some d" "flush_loop spill xs p s = (p', s', r)"
  shows "quiet p s p' s' \<and> (is_ok r \<longrightarrow> (\<forall>k d. map_option fst (obs p k) = Some d \<and> (stored s k = Some d \<or> (k, d) \<in> set xs) \<longrightarrow> stored s' k = Some d))"
  using assms
proof (induction xs arbitrary: p s)
  case Nil
  then show ?case by (auto simp: quiet_refl)
next
  case (Cons x xs)
  obtain k d where x: "x = (k, d)" by fastforce
  obtain n b where res: "obs p k = Some (d, n, b)" using Cons.prems(2) x by auto
  obtain t w where sp: "spill k d s = (t, w)" by fastforce
  have t: "cold_ok t" "stored t = (if is_ok w then (stored s)(k \<mapsto> d) else stored s)"
    using spill_ok [OF _ tier_okD(1) [OF Cons.prems(1) res] sp] Cons.prems(1) by (auto simp: tier_wf_def)
  show ?case
  proof (cases w)
    case (Inl e)
    then have "quiet p s p t" using t Cons.prems(1) by (intro same_quiet) (auto simp: tier_wf_def)
    then show ?thesis using Cons.prems(3) x sp Inl by (auto simp: is_ok_def)
  next
    case (Inr u)
    have tier: "tier_ok p t" using Cons.prems(1) t Inr res unfolding tier_wf_def by auto
    have "seen stored p t = seen stored p s" using t(2) Inr res by (auto simp: seen_def fun_eq_iff split: option.split)
    then have pt: "quiet p s p t" using tier by (simp add: quiet_def)
    have st: "stored t k = Some d" using t(2) Inr by simp
    note clean = clean_quiet [OF tier st res]
    have tc: "tier_ok (mark_clean k d p) t" using clean(1) by (simp add: quiet_def)
    have rest: "flush_loop spill xs (mark_clean k d p) t = (p', s', r)" using Cons.prems(3) x sp Inr by simp
    note IH = Cons.IH [OF tc _ rest, unfolded clean(2)]
    have ih: "quiet (mark_clean k d p) t p' s'"
      "is_ok r \<longrightarrow> (\<forall>k d. map_option fst (obs p k) = Some d \<and> (stored t k = Some d \<or> (k, d) \<in> set xs) \<longrightarrow> stored s' k = Some d)"
      using IH Cons.prems(2) by auto
    have "stored t k' = Some d'" if "map_option fst (obs p k') = Some d'" "stored s k' = Some d' \<or> (k', d') = (k, d)" for k' d'
      using that t(2) Inr res by (cases "k' = k") auto
    then show ?thesis using quiet_trans [OF quiet_trans [OF pt clean(1)] ih(1)] ih(2) x by auto
  qed
qed

lemma dirty_resident:
  assumes "pool_ok lim p"
  shows "\<forall>(k, d) \<in> set (dirty_pages p). map_option fst (obs p k) = Some d"
    "obs p k = Some (d, n, True) \<Longrightarrow> (k, d) \<in> set (dirty_pages p)"
proof -
  have "map_option fst (obs p k) = Some d" if dirty: "(k, d) \<in> set (dirty_pages p)" for k d
  proof -
    obtain slot f where f: "slot < lim_frames lim" "pool_frames p ! slot = Some f" "k = fr_key f" "d = fr_data f"
      using dirty pool_parts(2) [OF assms]
      by (auto simp: dirty_pages_def map_filter_def in_set_conv_nth split: option.splits if_splits)
    then show ?thesis using slot_key(2) [OF assms f(1, 2)] by (simp add: obs_def)
  qed
  then show "\<forall>(k, d) \<in> set (dirty_pages p). map_option fst (obs p k) = Some d" by blast
  assume "obs p k = Some (d, n, True)"
  then obtain slot f where f: "slot < lim_frames lim" "pool_frames p ! slot = Some f" "k = fr_key f" "d = fr_data f" "fr_dirty f"
    by (auto simp: obs_def frame_at_def map_iff [OF assms] split: option.splits)
  then have "Some f \<in> set (pool_frames p)" using pool_parts(2) [OF assms] nth_mem [of slot "pool_frames p"] by simp
  then show "(k, d) \<in> set (dirty_pages p)" using f(3-5) by (force simp: dirty_pages_def map_filter_def)
qed

lemma pool_flush_ok:
  assumes "tier_ok p s" "pool_flush spill p s = (p', s', r)"
  shows "quiet p s p' s'" "is_ok r \<Longrightarrow> obs p k = Some (d, n, b) \<Longrightarrow> stored s' k = Some d"
proof -
  note res = dirty_resident [OF pool_wf [OF assms(1)]]
  note fl = flush_quiet [OF assms(1) res(1) assms(2) [unfolded pool_flush_def]]
  show "quiet p s p' s'" using fl by blast
  show "stored s' k = Some d" if "is_ok r" "obs p k = Some (d, n, b)"
    using fl that tier_okD(2) [OF assms(1) that(2)] res(2) [of k d n] by (cases b) auto
qed

lemma evict_slots_quiet: "tier_ok p s \<Longrightarrow> quiet p s (fold evict_slot slots p) s" if "\<forall>slot \<in> set slots. slot < lim_frames lim" for slots
  using that
proof (induction slots arbitrary: p)
  case Nil
  then show ?case by (simp add: quiet_refl)
next
  case (Cons slot slots)
  have ok: "pool_ok lim p" using Cons.prems(1) by (rule pool_wf)
  have "quiet p s (evict_slot slot p) s"
  proof (cases "pool_frames p ! slot")
    case None
    then show ?thesis using Cons.prems(1) by (simp add: evict_slot_def quiet_refl)
  next
    case (Some f)
    note key = slot_key [OF ok _ Some]
    show ?thesis
    proof (cases "fr_pins f = 0 \<and> \<not> fr_dirty f")
      case True
      have slot: "slot < lim_frames lim" using Cons.prems(2) by simp
      have obs: "obs p (fr_key f) = Some (fr_data f, 0, False)" using key(2) [OF slot] True by (simp add: obs_def)
      then have "stored s = (stored s)(fr_key f \<mapsto> fr_data f)" using tier_okD(2) [OF Cons.prems(1) obs] by (simp add: fun_upd_idem)
      then have "quiet p s (take_frame (fr_key f) slot p) s"
        using taken_quiet [OF Cons.prems(1) key(1) [OF slot] obs] Cons.prems(1) by (simp add: tier_wf_def)
      then show ?thesis using Some True by (simp add: evict_slot_def)
    next
      case False
      then show ?thesis using Some Cons.prems(1) quiet_refl by (auto simp: evict_slot_def)
    qed
  qed
  moreover then have "tier_ok (evict_slot slot p) s" by (simp add: quiet_def)
  ultimately show ?case using Cons.IH [of "evict_slot slot p"] Cons.prems(2) quiet_trans by simp
qed

lemma evict_all_quiet:
  assumes "tier_ok p s" "evict_all spill p s = (p', s', r)"
  shows "quiet p s p' s'"
proof -
  obtain q t w where fl: "pool_flush spill p s = (q, t, w)" by (metis prod_cases3)
  note quiet = pool_flush_ok(1) [OF assms(1) fl]
  have q: "tier_ok q t" using quiet by (simp add: quiet_def)
  have "quiet q t (fold evict_slot [0 ..< length (pool_frames q)] q) t"
    using pool_parts(2) [OF pool_wf [OF q]] by (intro evict_slots_quiet [OF _ q]) simp
  then show ?thesis using assms(2) fl quiet quiet_trans [OF quiet] by (cases w) (auto simp: evict_all_def)
qed

end

end
