(* ===== verification/Spec2Isabelle.thy ===== *)
theory Spec2Isabelle
  imports Replicas Election PageFile BufferPool
begin

text \<open>
  Fluxum is a single-writer, in-memory transactional database with a durable commit log,
  checkpoints, replication and client subscriptions.  This development models its data plane.

  \<^item> \<open>Prelude\<close>: result values, endian codecs, saturating arithmetic, ordered maps.
  \<^item> \<open>Fluxbin\<close>: \<open>fluxum-protocol/src/fluxbin.rs\<close>, the binary value encoding.
  \<^item> \<open>Schema\<close>: \<open>fluxum-core/src/{error,schema/mod,types}.rs\<close>.
  \<^item> \<open>Values\<close>, \<open>Rows\<close>: \<open>fluxum-core/src/store/row.rs\<close>.
\<close>

end
